(* ===== verification/Prelude.thy ===== *)
theory Prelude
  imports "HOL-Library.Word" "HOL-Library.Multiset"
begin

text \<open>
  Shared material of the development: the machine types of the C sources, the collections of
  simplification rules the component theories fill, and the facts on lists and words that
  several components use.

  \<^item> \<open>u8\<close>, \<open>u16\<close>, \<open>u32\<close>, \<open>u64\<close> are the unsigned types \<open>U8\<close>, \<open>U16\<close>, \<open>U32\<close>, \<open>UV\<close> of
    \<open>perl.h\<close> on a 64-bit build; arithmetic on them wraps as it does in C.
  \<^item> \<open>UV_MAX\<close> is the largest \<open>UV\<close>.
  \<^item> \<open>attempt\<close> sequences two calls that may fail: the first error ends the run, as a
    \<open>croak\<close> of the source does.
\<close>

unbundle bit_operations_syntax

type_synonym u8 = "8 word"
type_synonym u16 = "16 word"
type_synonym u32 = "32 word"
type_synonym u64 = "64 word"

abbreviation UV_MAX :: u64 where "UV_MAX \<equiv> - 1"

named_theorems prelude_simps \<open>facts on lists and words every component may use\<close>

section \<open>Errors as values\<close>

definition attempt :: "'e + 'a \<Rightarrow> ('a \<Rightarrow> 'e + 'b) \<Rightarrow> 'e + 'b" where
  "attempt r f = (case r of Inl e \<Rightarrow> Inl e | Inr x \<Rightarrow> f x)"

lemma attempt_simps [simp]:
  "attempt (Inl e) f = Inl e"
  "attempt (Inr x) f = f x"
  by (simp_all add: attempt_def)

lemma attempt_eq_Inr: "attempt r f = Inr y \<longleftrightarrow> (\<exists>x. r = Inr x \<and> f x = Inr y)"
  by (cases r) auto

section \<open>Words\<close>

lemma unat_plus_one [prelude_simps]:
  fixes y :: "'a::len word"
  assumes "y \<noteq> - 1"
  shows "unat (y + 1) = Suc (unat y)"
proof -
  from assms have "1 + y \<noteq> 0"
    by (metis add.commute eq_neg_iff_add_eq_0)
  then show ?thesis
    by (metis add.commute unatSuc)
qed

lemma word_less_plus_one [prelude_simps]:
  fixes x y :: "'a::len word"
  shows "y \<noteq> - 1 \<Longrightarrow> x < y + 1 \<longleftrightarrow> x \<le> y"
  by (simp add: word_less_nat_alt word_le_nat_alt unat_plus_one less_Suc_eq_le)

lemma word_plus_one_le [prelude_simps]:
  fixes x y :: "'a::len word"
  shows "y \<noteq> - 1 \<Longrightarrow> y + 1 \<le> x \<longleftrightarrow> y < x"
  by (simp add: word_less_nat_alt word_le_nat_alt unat_plus_one Suc_le_eq)

lemma word_le_minus_one [prelude_simps]:
  fixes x y :: "'a::len word"
  assumes "x \<noteq> 0"
  shows "y \<le> x - 1 \<longleftrightarrow> y < x"
proof -
  have "x - 1 \<noteq> - 1" using assms by simp
  from word_less_plus_one [OF this, of y] show ?thesis by simp
qed

lemma word_less_minus_one [prelude_simps]:
  fixes x y :: "'a::len word"
  assumes "x \<noteq> 0"
  shows "y < x - 1 \<longleftrightarrow> y \<noteq> - 1 \<and> y + 1 < x"
proof (cases "y = - 1")
  case True
  have "\<not> - 1 < z" for z :: "'a word" by (simp add: not_less)
  with True show ?thesis by simp
next
  case False
  then show ?thesis using word_plus_one_le [of y "x - 1"] word_le_minus_one [OF assms, of "y + 1"] by simp
qed

end
