(* ===== verification/Invlist.thy ===== *)
theory Invlist
  imports Prelude
begin

text \<open>
  The inversion-list object of \<open>regcomp_invlist.c\<close> and \<open>invlist_inline.h\<close>: the record of an
  \<open>SVt_INVLIST\<close> scalar, its allocation, its length and array accessors, the iterator, the
  append of a range at the end and the cached binary search.

  The buffer is the allocation seen as an array of \<open>UV\<close>s (its length is \<open>SvLEN / sizeof (UV)\<close>),
  \<open>il_cur\<close> is \<open>SvCUR\<close> counted in \<open>UV\<close>s.  Element 0 of the buffer is the reserved zero; the list
  proper starts at element 0 or 1 according to \<open>il_offset\<close>.
\<close>

section \<open>Sizes of string buffers\<close>

definition PERL_STRLEN_NEW_MIN :: nat where "PERL_STRLEN_NEW_MIN = 16"
definition PTRSIZE :: nat where "PTRSIZE = 8"

definition round_up8 :: "nat \<Rightarrow> nat" where
  "round_up8 n = (n + 7) div 8 * 8"

definition expected_size :: "nat \<Rightarrow> nat" where
  "expected_size n = (if n > PERL_STRLEN_NEW_MIN then round_up8 n else PERL_STRLEN_NEW_MIN)"

text \<open>The new \<open>SvLEN\<close> that \<open>sv_grow\<close> gives a plain buffer of \<open>svlen\<close> bytes, \<open>cur\<close> of them in use.\<close>

definition sv_grow :: "nat \<Rightarrow> nat \<Rightarrow> nat \<Rightarrow> nat" where
  "sv_grow svlen cur newlen =
     (let newlen = newlen + 1 in
      if newlen > svlen then
        let minlen = cur + (cur div 4 + PERL_STRLEN_NEW_MIN);
            newlen = (if newlen < minlen then minlen else newlen)
        in if svlen \<noteq> 0 then max newlen (round_up8 newlen) else expected_size newlen
      else svlen)"

definition SvGROW :: "nat \<Rightarrow> nat \<Rightarrow> nat \<Rightarrow> nat" where
  "SvGROW svlen cur len = (if svlen < len then sv_grow svlen cur len else svlen)"

lemma round_up8_ge: "n \<le> round_up8 n"
  by (simp add: round_up8_def)

lemma SvGROW_ge: "len \<le> SvGROW svlen cur len" and SvGROW_mono: "svlen \<le> SvGROW svlen cur len"
proof -
  have "newlen < sv_grow svlen cur newlen" if "svlen < newlen" for newlen
    using that round_up8_ge [of "newlen + 1"]
      round_up8_ge [of "cur + (cur div 4 + PERL_STRLEN_NEW_MIN)"]
    by (auto simp: sv_grow_def expected_size_def Let_def PERL_STRLEN_NEW_MIN_def max_def)
  from this [of len] show "len \<le> SvGROW svlen cur len" and "svlen \<le> SvGROW svlen cur len"
    by (auto simp: SvGROW_def)
qed

section \<open>The object\<close>

record invlist =
  il_svlen :: nat       \<comment> \<open>\<open>SvLEN\<close>, in bytes; 0 for a list over a static C array\<close>
  il_buf :: "u64 list"  \<comment> \<open>the buffer as \<open>UV\<close>s\<close>
  il_cur :: nat         \<comment> \<open>\<open>SvCUR\<close>, in \<open>UV\<close>s\<close>
  il_offset :: bool     \<comment> \<open>\<open>is_offset\<close>\<close>
  il_prev :: nat        \<comment> \<open>\<open>prev_index\<close>\<close>
  il_iter :: u64        \<comment> \<open>\<open>iterator\<close>\<close>

datatype il_error =
    AppendOrderInvalid u64 u64 bool
  | VersionMismatch

definition ELEMENT_RANGE_MATCHES_INVLIST :: "nat \<Rightarrow> bool" where
  "ELEMENT_RANGE_MATCHES_INVLIST i = even i"

definition PREV_RANGE_MATCHES_INVLIST :: "nat \<Rightarrow> bool" where
  "PREV_RANGE_MATCHES_INVLIST i = (\<not> ELEMENT_RANGE_MATCHES_INVLIST i)"

lemmas range_matches_defs = ELEMENT_RANGE_MATCHES_INVLIST_def PREV_RANGE_MATCHES_INVLIST_def

definition invlist_len :: "invlist \<Rightarrow> nat" where
  "invlist_len il = (if il_cur il = 0 then 0 else il_cur il - of_bool (il_offset il))"

definition invlist_set_len :: "invlist \<Rightarrow> nat \<Rightarrow> bool \<Rightarrow> invlist" where
  "invlist_set_len il len offset =
     il\<lparr>il_cur := (if len = 0 then 0 else len + of_bool offset)\<rparr>"

text \<open>\<open>invlist_array (il)[i]\<close>, read and written through the pointer the C function returns.\<close>

definition arr_get :: "invlist \<Rightarrow> nat \<Rightarrow> u64" where
  "arr_get il i = il_buf il ! (i + of_bool (il_offset il))"

definition arr_set :: "invlist \<Rightarrow> nat \<Rightarrow> u64 \<Rightarrow> invlist" where
  "arr_set il i x = il\<lparr>il_buf := (il_buf il)[i + of_bool (il_offset il) := x]\<rparr>"

definition invlist_array :: "invlist \<Rightarrow> u64 list" where
  "invlist_array il = take (invlist_len il) (drop (of_bool (il_offset il)) (il_buf il))"

definition invlist_array_init :: "invlist \<Rightarrow> bool \<Rightarrow> invlist" where
  "invlist_array_init il will_have_0 =
     il\<lparr>il_buf := (il_buf il)[0 := 0], il_offset := \<not> will_have_0\<rparr>"

text \<open>A buffer of \<open>n\<close> bytes: the old contents, then fresh memory (shown as zeros).\<close>

definition il_resize :: "invlist \<Rightarrow> nat \<Rightarrow> invlist" where
  "il_resize il n = il\<lparr>il_svlen := n,
     il_buf := take (n div 8) (il_buf il) @ replicate (n div 8 - length (il_buf il)) 0\<rparr>"

definition il_grow :: "invlist \<Rightarrow> nat \<Rightarrow> invlist" where
  "il_grow il n = il_resize il (SvGROW (il_svlen il) (8 * il_cur il) n)"

definition invlist_extend :: "invlist \<Rightarrow> nat \<Rightarrow> invlist" where
  "invlist_extend il new_max = il_grow il (8 * (new_max + 1))"

definition invlist_max :: "invlist \<Rightarrow> nat" where
  "invlist_max il = (if il_svlen il = 0 then il_cur il - 1 else il_svlen il div 8 - 1)"

definition invlist_iterinit :: "invlist \<Rightarrow> invlist" where
  "invlist_iterinit il = il\<lparr>il_iter := 0\<rparr>"

definition invlist_iterfinish :: "invlist \<Rightarrow> invlist" where
  "invlist_iterfinish il = il\<lparr>il_iter := UV_MAX\<rparr>"

definition invlist_is_iterating :: "invlist \<Rightarrow> bool" where
  "invlist_is_iterating il = (il_iter il < UV_MAX)"

definition invlist_trim :: "invlist \<Rightarrow> invlist" where
  "invlist_trim il =
     (let min_size = max PERL_STRLEN_NEW_MIN (8 * 1 + 1);
          realistic_size = expected_size (max min_size (8 * il_cur il + 1))
      in if il_svlen il > realistic_size + 4 * PTRSIZE then il_resize il realistic_size else il)"

definition invlist_clear :: "invlist \<Rightarrow> invlist" where
  "invlist_clear il = invlist_trim (invlist_set_len il 0 False)"

definition initialize_invlist_guts :: "invlist \<Rightarrow> nat \<Rightarrow> invlist" where
  "initialize_invlist_guts il initial_size =
     (invlist_iterfinish (invlist_set_len (il_grow il (8 * (initial_size + 1) + 1)) 0 False))
       \<lparr>il_prev := 0\<rparr>"

text \<open>\<open>newSV_type (SVt_INVLIST)\<close>: a zeroed body without a buffer.\<close>

definition newSV_invlist :: invlist where
  "newSV_invlist = \<lparr>il_svlen = 0, il_buf = [], il_cur = 0, il_offset = False, il_prev = 0, il_iter = 0\<rparr>"

definition new_invlist :: "int \<Rightarrow> invlist" where
  "new_invlist initial_size =
     initialize_invlist_guts newSV_invlist (if initial_size < 0 then 10 else nat initial_size)"

definition INVLIST_VERSION_ID :: u64 where "INVLIST_VERSION_ID = 148565664"

text \<open>
  A list over a static C array: its header is the physical length, the version and the offset
  flag, the rest is the buffer.
\<close>

definition new_invlist_C_array :: "u64 list \<Rightarrow> il_error + invlist" where
  "new_invlist_C_array list =
     (let len = unat (list ! 0); version_id = list ! 1; offset = (list ! 2 \<noteq> 0);
          il = newSV_invlist\<lparr>il_buf := drop 3 list, il_offset := offset\<rparr>
      in if version_id \<noteq> INVLIST_VERSION_ID then Inl VersionMismatch
         else Inr (invlist_iterfinish
                ((invlist_set_len il (len - of_bool offset) offset)\<lparr>il_prev := 0\<rparr>)))"

section \<open>Appending a range\<close>

text \<open>The end of \<open>S_append_range_to_invlist_\<close>: two more elements, or one when the range is infinite.\<close>

definition append_tail :: "invlist \<Rightarrow> nat \<Rightarrow> nat \<Rightarrow> bool \<Rightarrow> u64 \<Rightarrow> u64 \<Rightarrow> invlist" where
  "append_tail il mx len offset start fin =
     (let len = len + 2;
          il = (if mx < len then invlist_extend il len else il);
          il = invlist_set_len il len offset;
          il = arr_set il (len - 2) start
      in if fin \<noteq> UV_MAX then arr_set il (len - 1) (fin + 1)
         else invlist_set_len il (len - 1) offset)"

definition append_range_to_invlist :: "invlist \<Rightarrow> u64 \<Rightarrow> u64 \<Rightarrow> il_error + invlist" where
  "append_range_to_invlist il start fin =
     (let mx = invlist_max il; len = invlist_len il in
      if len = 0 then
        let offset = (start \<noteq> 0)
        in Inr (append_tail (invlist_array_init il (\<not> offset)) mx len offset start fin)
      else
        let final_element = len - 1 in
        if arr_get il final_element > start \<or> ELEMENT_RANGE_MATCHES_INVLIST final_element
        then Inl (AppendOrderInvalid (arr_get il final_element) start
                    (ELEMENT_RANGE_MATCHES_INVLIST final_element))
        else
          let offset = il_offset il in
          if arr_get il final_element = start then
            if fin \<noteq> UV_MAX then Inr (arr_set il final_element (fin + 1))
            else Inr (invlist_set_len il (len - 1) offset)
          else Inr (append_tail il mx len offset start fin))"

section \<open>Searching\<close>

function il_bsearch :: "(nat \<Rightarrow> u64) \<Rightarrow> u64 \<Rightarrow> nat \<Rightarrow> nat \<Rightarrow> nat" where
  "il_bsearch array cp low high =
     (if low < high then
        let mid = (low + high) div 2
        in if array mid \<le> cp then il_bsearch array cp (mid + 1) high
           else il_bsearch array cp low mid
      else high)"
  by pat_completeness auto
termination
  by (relation "measure (\<lambda>(array, cp, low, high). high - low)") auto

declare il_bsearch.simps [simp del]

text \<open>The \<open>found_entry\<close> label: the index is cached for the next call.\<close>

definition found_entry :: "invlist \<Rightarrow> nat \<Rightarrow> int \<times> invlist" where
  "found_entry il high = (int high - 1, il\<lparr>il_prev := high - 1\<rparr>)"

definition invlist_search :: "invlist \<Rightarrow> u64 \<Rightarrow> int \<times> invlist" where
  "invlist_search il cp =
     (let high = invlist_len il; highest_element = high - 1; array = arr_get il in
      if high = 0 then (- 1, il)
      else
        let mid = (if il_prev il > highest_element then highest_element else il_prev il) in
        if cp \<ge> array mid then
          if cp \<ge> array highest_element then (int highest_element, il)
          else if cp < array (mid + 1) then (int mid, il)
          else found_entry il (il_bsearch array cp (mid + 1) (high - 1))
        else if cp < array 0 then (- 1, il)
        else if cp \<ge> array (mid - 1) then found_entry il mid
        else found_entry il (il_bsearch array cp 0 mid))"

definition invlist_contains_cp :: "invlist \<Rightarrow> u64 \<Rightarrow> bool \<times> invlist" where
  "invlist_contains_cp il cp =
     (let (index, il) = invlist_search il cp
      in (index \<ge> 0 \<and> ELEMENT_RANGE_MATCHES_INVLIST (nat index), il))"

section \<open>Iteration and bounds\<close>

definition invlist_iternext :: "invlist \<Rightarrow> (u64 \<times> u64) option \<times> invlist" where
  "invlist_iternext il =
     (let pos = unat (il_iter il); len = invlist_len il in
      if pos \<ge> len then (None, il\<lparr>il_iter := UV_MAX\<rparr>)
      else
        let start = arr_get il pos; pos = pos + 1 in
        if pos \<ge> len then (Some (start, UV_MAX), il\<lparr>il_iter := of_nat pos\<rparr>)
        else (Some (start, arr_get il pos - 1), il\<lparr>il_iter := of_nat (pos + 1)\<rparr>))"

definition invlist_highest :: "invlist \<Rightarrow> u64" where
  "invlist_highest il =
     (let len = invlist_len il in
      if len = 0 then 0
      else if ELEMENT_RANGE_MATCHES_INVLIST (len - 1) then UV_MAX
      else arr_get il (len - 1) - 1)"

definition invlist_highest_range_start :: "invlist \<Rightarrow> u64" where
  "invlist_highest_range_start il =
     (let len = invlist_len il in
      if len = 0 then 0
      else if ELEMENT_RANGE_MATCHES_INVLIST (len - 1) then arr_get il (len - 1)
      else if len = 1 then 0
      else arr_get il (len - 2))"

definition invlist_lowest :: "invlist \<Rightarrow> u64" where
  "invlist_lowest il = (if invlist_len il = 0 then 0 else arr_get il 0)"


section \<open>Meaning of an inversion list\<close>

text \<open>
  \<open>il_rank xs cp\<close> counts the elements at or below \<open>cp\<close>; a code point is in the set exactly when
  that count is odd, that is when the last element at or below it has an even index.
\<close>

definition il_rank :: "u64 list \<Rightarrow> u64 \<Rightarrow> nat" where
  "il_rank xs cp = length (filter (\<lambda>x. x \<le> cp) xs)"

definition in_ranges :: "u64 list \<Rightarrow> u64 \<Rightarrow> bool" where
  "in_ranges xs cp = odd (il_rank xs cp)"

definition il_set :: "invlist \<Rightarrow> u64 set" where
  "il_set il = {cp. in_ranges (invlist_array il) cp}"

definition il_ok :: "invlist \<Rightarrow> bool" where
  "il_ok il \<longleftrightarrow> il_cur il \<le> length (il_buf il) \<and>
     (il_cur il \<noteq> 0 \<longrightarrow> il_buf il ! 0 = 0 \<and> sorted_wrt (<) (take (il_cur il) (il_buf il)))"

text \<open>A list that owns its buffer, as every list but those over static arrays does.\<close>

definition il_owned :: "invlist \<Rightarrow> bool" where
  "il_owned il \<longleftrightarrow> il_svlen il div 8 = length (il_buf il) \<and> il_buf il \<noteq> []"

definition il_wf :: "invlist \<Rightarrow> bool" where
  "il_wf il \<longleftrightarrow> il_ok il \<and> il_owned il"

lemma il_rank_simps [simp]:
  "il_rank [] cp = 0"
  "il_rank (x # xs) cp = (if x \<le> cp then Suc (il_rank xs cp) else il_rank xs cp)"
  by (simp_all add: il_rank_def)

lemma il_rank_append [simp]: "il_rank (xs @ ys) cp = il_rank xs cp + il_rank ys cp"
  by (simp add: il_rank_def)

lemma il_rank_le [simp]: "il_rank xs cp \<le> length xs"
  by (simp add: il_rank_def)

lemma il_rank_eq_0: "\<forall>x\<in>set xs. cp < x \<Longrightarrow> il_rank xs cp = 0"
  by (induction xs) auto

lemma il_rank_eq_length: "\<forall>x\<in>set xs. x \<le> cp \<Longrightarrow> il_rank xs cp = length xs"
  by (induction xs) auto

lemma in_ranges_simps [simp]:
  "in_ranges [] cp = False"
  "in_ranges (x # xs) cp = (if x \<le> cp then \<not> in_ranges xs cp else in_ranges xs cp)"
  by (simp_all add: in_ranges_def)

lemma in_ranges_append: "in_ranges (xs @ ys) cp = (in_ranges xs cp \<noteq> in_ranges ys cp)"
  by (auto simp: in_ranges_def)

lemma in_ranges_below: "\<forall>x\<in>set xs. cp < x \<Longrightarrow> \<not> in_ranges xs cp"
  by (simp add: in_ranges_def il_rank_eq_0)

lemma il_rank_eqI:
  assumes srt: "sorted_wrt (<) xs" and k: "k \<le> length xs"
    and lo: "k > 0 \<Longrightarrow> xs ! (k - 1) \<le> cp" and hi: "k < length xs \<Longrightarrow> cp < xs ! k"
  shows "il_rank xs cp = k"
proof -
  have "\<forall>x\<in>set (take k xs). x \<le> cp"
  proof
    fix x assume "x \<in> set (take k xs)"
    then obtain i where i: "i < k" "i < length xs" "x = xs ! i"
      by (auto simp: in_set_conv_nth)
    have "xs ! i \<le> xs ! (k - 1)"
      using srt i k by (cases "i = k - 1") (auto simp: sorted_wrt_iff_nth_less intro: less_imp_le)
    with i lo show "x \<le> cp" by force
  qed
  moreover have "\<forall>x\<in>set (drop k xs). cp < x"
  proof
    fix x assume "x \<in> set (drop k xs)"
    then obtain i where i: "k \<le> i" "i < length xs" "x = xs ! i"
      by (auto simp: in_set_conv_nth) (metis add.commute le_add1 less_diff_conv)
    have "xs ! k \<le> xs ! i"
      using srt i by (cases "i = k") (auto simp: sorted_wrt_iff_nth_less intro: less_imp_le)
    with i hi show "cp < x" by force
  qed
  ultimately have "il_rank (take k xs @ drop k xs) cp = k"
    unfolding il_rank_append by (simp add: il_rank_eq_length il_rank_eq_0 k del: append_take_drop_id)
  then show ?thesis by simp
qed

lemma il_rank_lower:
  assumes "sorted_wrt (<) xs" "i < il_rank xs cp"
  shows "xs ! i \<le> cp"
proof (rule ccontr)
  assume "\<not> xs ! i \<le> cp"
  have i: "i < length xs" using assms(2) il_rank_le [of xs cp] by linarith
  have "\<forall>x\<in>set (drop i xs). cp < x"
  proof
    fix x assume "x \<in> set (drop i xs)"
    then obtain j where j: "i \<le> j" "j < length xs" "x = xs ! j"
      by (auto simp: in_set_conv_nth) (metis add.commute le_add1 less_diff_conv)
    then have "xs ! i \<le> x"
      using assms(1) by (cases "i = j") (auto simp: sorted_wrt_iff_nth_less intro: less_imp_le)
    with \<open>\<not> xs ! i \<le> cp\<close> show "cp < x" by simp
  qed
  then have "il_rank (take i xs @ drop i xs) cp \<le> i"
    unfolding il_rank_append
    by (simp add: il_rank_eq_0 del: append_take_drop_id) (metis il_rank_le length_take min.bounded_iff)
  with assms(2) show False by simp
qed

lemma il_rank_upper:
  assumes "sorted_wrt (<) xs" "il_rank xs cp \<le> i" "i < length xs"
  shows "cp < xs ! i"
proof (rule ccontr)
  assume "\<not> cp < xs ! i"
  have "\<forall>x\<in>set (take (Suc i) xs). x \<le> cp"
  proof
    fix x assume "x \<in> set (take (Suc i) xs)"
    then obtain j where j: "j < Suc i" "x = xs ! j"
      by (auto simp: in_set_conv_nth)
    then have "x \<le> xs ! i"
      using assms(1,3) by (cases "i = j") (auto simp: sorted_wrt_iff_nth_less less_Suc_eq intro: less_imp_le)
    with \<open>\<not> cp < xs ! i\<close> show "x \<le> cp" by simp
  qed
  then have "Suc i \<le> il_rank (take (Suc i) xs @ drop (Suc i) xs) cp"
    unfolding il_rank_append using assms(3)
    by (simp add: il_rank_eq_length del: append_take_drop_id)
  with assms(2) show False by simp
qed

section \<open>Accessors of a well-formed list\<close>

lemma il_wfD: "il_wf il \<Longrightarrow> il_ok il" "il_wf il \<Longrightarrow> il_owned il"
  by (simp_all add: il_wf_def)

lemma length_invlist_array [simp]: "il_ok il \<Longrightarrow> length (invlist_array il) = invlist_len il"
  by (auto simp: invlist_array_def invlist_len_def il_ok_def)

lemma arr_get_nth: "i < invlist_len il \<Longrightarrow> il_ok il \<Longrightarrow> arr_get il i = invlist_array il ! i"
  by (auto simp: invlist_array_def invlist_len_def il_ok_def arr_get_def add.commute split: if_splits)

lemma take_cur_buf:
  assumes "il_ok il" "il_cur il \<noteq> 0"
  shows "take (il_cur il) (il_buf il) =
    (if il_offset il then 0 # invlist_array il else invlist_array il)"
proof (cases "il_offset il")
  case True
  from assms obtain y ys where ys: "il_buf il = y # ys"
    by (cases "il_buf il") (auto simp: il_ok_def)
  from assms True ys show ?thesis
    by (cases "il_cur il") (auto simp: invlist_array_def invlist_len_def il_ok_def)
next
  case False
  then show ?thesis by (simp add: invlist_array_def invlist_len_def)
qed

lemma invlist_array_empty_cur: "il_cur il = 0 \<Longrightarrow> invlist_array il = []"
  by (simp add: invlist_array_def invlist_len_def)

lemma invlist_array_sorted: "il_ok il \<Longrightarrow> sorted_wrt (<) (invlist_array il)"
proof (cases "il_cur il = 0")
  case True
  then show ?thesis by (simp add: invlist_array_empty_cur)
next
  case False
  assume ok: "il_ok il"
  then have "sorted_wrt (<) (take (il_cur il) (il_buf il))"
    using False by (simp add: il_ok_def)
  then show ?thesis
    unfolding take_cur_buf [OF ok False] by (auto split: if_splits)
qed

lemma il_bsearch_rank:
  assumes "sorted_wrt (<) xs" "low \<le> high" "high \<le> length xs"
    and "\<And>i. i < length xs \<Longrightarrow> array i = xs ! i"
    and "low \<le> il_rank xs cp" "il_rank xs cp \<le> high"
  shows "il_bsearch array cp low high = il_rank xs cp"
  using assms
proof (induction array cp low high rule: il_bsearch.induct)
  case (1 array cp low high)
  show ?case
  proof (cases "low < high")
    case True
    let ?mid = "(low + high) div 2"
    have mid: "?mid < high" "low \<le> ?mid" using True by auto
    with 1 have a: "array ?mid = xs ! ?mid" by auto
    show ?thesis
    proof (cases "array ?mid \<le> cp")
      case le: True
      have "?mid < il_rank xs cp"
        using il_rank_upper [OF 1(3), of cp ?mid] le a mid 1(5) by (auto simp: not_le [symmetric])
      with 1(1) [OF True _ _ 1(3)] True le mid 1 show ?thesis
        by (simp add: il_bsearch.simps [of array cp low high] Let_def)
    next
      case gt: False
      have "il_rank xs cp \<le> ?mid"
        using il_rank_lower [OF 1(3), of ?mid cp] gt a by (auto simp: not_le [symmetric])
      with 1(2) [OF True _ _ 1(3)] True gt mid 1 show ?thesis
        by (simp add: il_bsearch.simps [of array cp low high] Let_def)
    qed
  next
    case False
    with 1 show ?thesis by (simp add: il_bsearch.simps [of array cp low high])
  qed
qed

text \<open>
  The search returns the rank less one whatever index the cache holds, and changes nothing but
  the cache.
\<close>

lemma invlist_search_rank:
  assumes ok: "il_ok il"
  shows "fst (invlist_search il cp) = int (il_rank (invlist_array il) cp) - 1"
proof -
  let ?xs = "invlist_array il" let ?n = "invlist_len il" let ?r = "il_rank ?xs cp"
  have srt: "sorted_wrt (<) ?xs" using ok by (rule invlist_array_sorted)
  have len: "length ?xs = ?n" using ok by simp
  have get: "i < ?n \<Longrightarrow> arr_get il i = ?xs ! i" for i using ok by (simp add: arr_get_nth)
  have up: "?r \<le> i \<Longrightarrow> i < ?n \<Longrightarrow> cp < ?xs ! i" for i
    using il_rank_upper [OF srt] len by simp
  have lo: "i < ?r \<Longrightarrow> ?xs ! i \<le> cp" for i using il_rank_lower [OF srt] .
  have above: "i < ?n \<Longrightarrow> ?xs ! i \<le> cp \<Longrightarrow> i < ?r" for i
    using up [of i] by (meson leD not_le)
  have below: "cp < ?xs ! i \<Longrightarrow> ?r \<le> i" for i using lo [of i] by (meson leD not_le)
  have rn: "?r \<le> ?n" using il_rank_le [of ?xs cp] len by simp
  show ?thesis
  proof (cases "?n = 0")
    case True
    with rn show ?thesis by (simp add: invlist_search_def)
  next
    case False
    define mid where "mid = (if il_prev il > ?n - 1 then ?n - 1 else il_prev il)"
    have mid: "mid < ?n" using False by (auto simp: mid_def)
    have eq: "invlist_search il cp =
        (if arr_get il mid \<le> cp then
          if arr_get il (?n - 1) \<le> cp then (int (?n - 1), il)
          else if cp < arr_get il (mid + 1) then (int mid, il)
          else found_entry il (il_bsearch (arr_get il) cp (mid + 1) (?n - 1))
        else if cp < arr_get il 0 then (- 1, il)
        else if arr_get il (mid - 1) \<le> cp then found_entry il mid
        else found_entry il (il_bsearch (arr_get il) cp 0 mid))"
      using False unfolding invlist_search_def Let_def mid_def by (simp only: if_False)
    have bs: "l \<le> ?r \<Longrightarrow> ?r \<le> h \<Longrightarrow> h \<le> ?n \<Longrightarrow> il_bsearch (arr_get il) cp l h = ?r" for l h
      by (rule il_bsearch_rank [OF srt]) (auto simp: len get)
    consider (top) "cp \<ge> ?xs ! mid" "cp \<ge> ?xs ! (?n - 1)"
      | (hit) "cp \<ge> ?xs ! mid" "cp < ?xs ! (?n - 1)" "cp < ?xs ! (mid + 1)"
      | (right) "cp \<ge> ?xs ! mid" "cp < ?xs ! (?n - 1)" "cp \<ge> ?xs ! (mid + 1)"
      | (none) "cp < ?xs ! mid" "cp < ?xs ! 0"
      | (prev) "cp < ?xs ! mid" "cp \<ge> ?xs ! 0" "cp \<ge> ?xs ! (mid - 1)"
      | (left) "cp < ?xs ! mid" "cp \<ge> ?xs ! 0" "cp < ?xs ! (mid - 1)"
      by (meson not_le)
    then show ?thesis
    proof cases
      case top
      with above [of "?n - 1"] rn False have "?r = ?n" by simp
      with top False mid show ?thesis
        by (simp add: eq get)
    next
      case hit
      have "mid < ?n - 1" using hit mid
        by (metis Suc_lessI diff_Suc_1 diff_Suc_eq_diff_pred leD less_diff_conv Suc_eq_plus1 Suc_pred False not_gr_zero)
      with hit above [of mid] below [of "mid + 1"] mid have "?r = mid + 1" by simp
      with hit \<open>mid < ?n - 1\<close> False mid show ?thesis
        by (auto simp: eq get)
    next
      case right
      have m: "mid < ?n - 1" using right mid
        by (metis Suc_lessI diff_Suc_1 diff_Suc_eq_diff_pred leD less_diff_conv Suc_eq_plus1 Suc_pred False not_gr_zero)
      have "mid + 1 \<le> ?r" using above [of mid] right mid by simp
      moreover have "?r \<le> ?n - 1" using below right by simp
      ultimately show ?thesis using right m False mid
        by (auto simp: eq get found_entry_def bs)
    next
      case none
      then have "?r = 0" using below [of 0] by simp
      with none mid False show ?thesis
        by (auto simp: eq get)
    next
      case prev
      then have "mid > 0" by (cases mid) auto
      with prev above [of "mid - 1"] below [of mid] mid have "?r = mid" by force
      with prev mid False show ?thesis
        by (auto simp: eq get found_entry_def)
    next
      case left
      have "?r \<le> mid" using below left by simp
      with left mid False show ?thesis
        by (auto simp: eq get found_entry_def bs)
    qed
  qed
qed

lemma invlist_search_state: "\<exists>p. snd (invlist_search il cp) = il\<lparr>il_prev := p\<rparr>"
proof -
  have "\<exists>p. il = il\<lparr>il_prev := p\<rparr>" by (rule exI [of _ "il_prev il"]) simp
  then show ?thesis
    by (auto simp: invlist_search_def found_entry_def Let_def)
qed

lemma il_prev_irrelevant [simp]:
  "invlist_array (il\<lparr>il_prev := p\<rparr>) = invlist_array il"
  "invlist_len (il\<lparr>il_prev := p\<rparr>) = invlist_len il"
  "arr_get (il\<lparr>il_prev := p\<rparr>) i = arr_get il i"
  "il_ok (il\<lparr>il_prev := p\<rparr>) = il_ok il"
  "il_owned (il\<lparr>il_prev := p\<rparr>) = il_owned il"
  "il_wf (il\<lparr>il_prev := p\<rparr>) = il_wf il"
  by (simp_all add: invlist_array_def invlist_len_def arr_get_def il_ok_def il_owned_def il_wf_def)

lemma invlist_contains_cp_iff:
  assumes "il_ok il"
  shows "fst (invlist_contains_cp il cp) \<longleftrightarrow> cp \<in> il_set il"
proof -
  obtain ix il' where s: "invlist_search il cp = (ix, il')" by fastforce
  with invlist_search_rank [OF assms, of cp]
  have "ix = int (il_rank (invlist_array il) cp) - 1" by simp
  then show ?thesis
    by (cases "il_rank (invlist_array il) cp")
      (auto simp: invlist_contains_cp_def s range_matches_defs il_set_def in_ranges_def)
qed

section \<open>Allocation\<close>

lemma il_resize_owned: "n div 8 \<noteq> 0 \<Longrightarrow> il_owned (il_resize il n)"
  by (auto simp: il_owned_def il_resize_def)

lemma il_resize_sel [simp]:
  "il_cur (il_resize il n) = il_cur il"
  "il_offset (il_resize il n) = il_offset il"
  "il_svlen (il_resize il n) = n"
  "length (il_buf (il_resize il n)) = n div 8"
  by (auto simp: il_resize_def)

lemma il_resize_take:
  "k \<le> length (il_buf il) \<Longrightarrow> k \<le> n div 8 \<Longrightarrow>
     take k (il_buf (il_resize il n)) = take k (il_buf il)"
  by (auto simp: il_resize_def min_def)

lemma il_extend:
  assumes "il_owned il"
  shows "il_owned (invlist_extend il m)"
    and "m + 1 \<le> length (il_buf (invlist_extend il m))"
    and "length (il_buf il) \<le> length (il_buf (invlist_extend il m))"
    and "k \<le> length (il_buf il) \<Longrightarrow>
      take k (il_buf (invlist_extend il m)) = take k (il_buf il)"
    and "il_cur (invlist_extend il m) = il_cur il"
    and "il_offset (invlist_extend il m) = il_offset il"
proof -
  let ?n = "SvGROW (il_svlen il) (8 * il_cur il) (8 * (m + 1))"
  have e: "invlist_extend il m = il_resize il ?n"
    by (simp add: invlist_extend_def il_grow_def)
  have m: "m + 1 \<le> ?n div 8"
    using SvGROW_ge [of "8 * (m + 1)" "il_svlen il" "8 * il_cur il"]
    by (simp add: less_eq_div_iff_mult_less_eq mult.commute)
  have "il_svlen il div 8 \<le> ?n div 8"
    by (rule div_le_mono) (rule SvGROW_mono)
  then have l: "length (il_buf il) \<le> ?n div 8" using assms by (simp add: il_owned_def)
  show "il_owned (invlist_extend il m)" using m by (simp add: e il_resize_owned)
  show "m + 1 \<le> length (il_buf (invlist_extend il m))"
    "length (il_buf il) \<le> length (il_buf (invlist_extend il m))"
    "il_cur (invlist_extend il m) = il_cur il"
    "il_offset (invlist_extend il m) = il_offset il" using m l by (simp_all add: e)
  show "k \<le> length (il_buf il) \<Longrightarrow>
      take k (il_buf (invlist_extend il m)) = take k (il_buf il)"
    using l by (simp add: e il_resize_take)
qed

section \<open>Representation\<close>

text \<open>The buffer holds the list \<open>xs\<close>, after the reserved zero when the list does not start with 0.\<close>

definition il_phys :: "bool \<Rightarrow> u64 list \<Rightarrow> u64 list" where
  "il_phys offset xs = (if offset then 0 # xs else xs)"

definition il_repr :: "invlist \<Rightarrow> u64 list \<Rightarrow> bool" where
  "il_repr il xs \<longleftrightarrow> il_cur il \<le> length (il_buf il) \<and> sorted_wrt (<) xs \<and>
     (if xs = [] then il_cur il = 0 \<or> il_cur il = 1 \<and> il_offset il \<and> il_buf il ! 0 = 0
      else take (il_cur il) (il_buf il) = il_phys (il_offset il) xs \<and>
        (il_offset il \<longleftrightarrow> hd xs \<noteq> 0))"

lemma length_il_phys [simp]: "length (il_phys off xs) = length xs + of_bool off"
  by (simp add: il_phys_def)

lemma il_repr_array: "il_repr il xs \<Longrightarrow> invlist_array il = xs"
proof -
  assume r: "il_repr il xs"
  show ?thesis
  proof (cases "xs = []")
    case True
    with r show ?thesis by (auto simp: il_repr_def invlist_array_def invlist_len_def)
  next
    case False
    with r have t: "take (il_cur il) (il_buf il) = il_phys (il_offset il) xs"
      and c: "il_cur il \<le> length (il_buf il)" by (auto simp: il_repr_def)
    have "invlist_array il = drop (of_bool (il_offset il)) (take (il_cur il) (il_buf il))"
      by (auto simp: invlist_array_def invlist_len_def drop_take)
    then show ?thesis by (simp add: t il_phys_def)
  qed
qed

lemma il_repr_len: "il_repr il xs \<Longrightarrow> invlist_len il = length xs"
proof -
  assume r: "il_repr il xs"
  then have "il_cur il \<le> length (il_buf il)" by (simp add: il_repr_def)
  then have "length (invlist_array il) = invlist_len il"
    by (auto simp: invlist_array_def invlist_len_def)
  with il_repr_array [OF r] show ?thesis by simp
qed

lemma il_repr_ok: "il_repr il xs \<Longrightarrow> il_ok il"
proof -
  assume r: "il_repr il xs"
  show ?thesis
  proof (cases "xs = []")
    case True
    with r show ?thesis by (cases "il_buf il") (auto simp: il_repr_def il_ok_def)
  next
    case False
    then obtain y ys where xs: "xs = y # ys" by (cases xs) auto
    from r False have t: "take (il_cur il) (il_buf il) = il_phys (il_offset il) xs"
      and c: "il_cur il \<le> length (il_buf il)" and s: "sorted_wrt (<) xs"
      and h: "il_offset il \<longleftrightarrow> hd xs \<noteq> 0" by (auto simp: il_repr_def)
    have p: "sorted_wrt (<) (il_phys (il_offset il) xs) \<and> hd (il_phys (il_offset il) xs) = 0"
      using s h xs by (auto simp: il_phys_def word_gt_0 dest: order.strict_trans2 intro: order.strict_trans)
    have "il_buf il ! 0 = hd (take (il_cur il) (il_buf il))" if "il_cur il \<noteq> 0"
      using that c by (cases "il_buf il") (auto simp: take_Cons' )
    with p t c show ?thesis by (auto simp: il_ok_def)
  qed
qed

lemma il_ok_repr: "il_ok il \<Longrightarrow> il_repr il (invlist_array il)"
proof -
  assume ok: "il_ok il"
  show ?thesis
  proof (cases "il_cur il = 0")
    case True
    then show ?thesis by (simp add: il_repr_def invlist_array_empty_cur)
  next
    case False
    note t = take_cur_buf [OF ok False]
    have z: "il_buf il ! 0 = 0" and c: "il_cur il \<le> length (il_buf il)"
      and s: "sorted_wrt (<) (take (il_cur il) (il_buf il))"
      using ok False by (auto simp: il_ok_def)
    have "hd (take (il_cur il) (il_buf il)) = 0"
      using z c False by (cases "il_buf il") (auto simp: take_Cons')
    then have "hd (if il_offset il then 0 # invlist_array il else invlist_array il) = 0"
      unfolding t .
    moreover have "il_cur il = length (invlist_array il) + of_bool (il_offset il)"
      using arg_cong [OF t, of length] c by (auto split: if_splits)
    ultimately show ?thesis
      using s c z t invlist_array_sorted [OF ok] False
      by (cases "invlist_array il") (auto simp: il_repr_def il_phys_def split: if_splits)
  qed
qed

lemma il_repr_get:
  "il_repr il xs \<Longrightarrow> i < length xs \<Longrightarrow> arr_get il i = xs ! i"
  by (metis arr_get_nth il_repr_array il_repr_len il_repr_ok)

lemma il_repr_set: "il_repr il xs \<Longrightarrow> il_set il = {cp. in_ranges xs cp}"
  by (simp add: il_set_def il_repr_array)


section \<open>Correctness of the append\<close>

definition range_list :: "u64 \<Rightarrow> u64 \<Rightarrow> u64 list" where
  "range_list start fin = (if fin = UV_MAX then [start] else [start, fin + 1])"

lemma in_ranges_range_list:
  "start \<le> fin \<Longrightarrow> in_ranges (range_list start fin) cp \<longleftrightarrow> start \<le> cp \<and> cp \<le> fin"
  by (auto simp: range_list_def word_plus_one_le)

lemma range_list_sorted: "start \<le> fin \<Longrightarrow> sorted_wrt (<) (range_list start fin)"
  by (auto simp: range_list_def word_less_plus_one)

lemma range_list_bounds: "start \<le> fin \<Longrightarrow> x \<in> set (range_list start fin) \<Longrightarrow> start \<le> x"
  by (auto simp: range_list_def word_less_plus_one less_imp_le split: if_splits)

lemma take_update_Suc:
  "n < length xs \<Longrightarrow> take (Suc n) (xs[n := x]) = take n xs @ [x]"
  by (simp add: take_Suc_conv_app_nth)

lemma il_phys_append [simp]: "il_phys off (xs @ ys) = il_phys off xs @ ys"
  by (simp add: il_phys_def)

lemma il_owned_svlen: "il_owned il \<Longrightarrow> il_svlen il \<noteq> 0"
  by (cases "il_svlen il = 0") (auto simp: il_owned_def)

lemma append_tail_repr:
  assumes own: "il_owned il" "il_svlen il \<noteq> 0"
    and off: "offset = il_offset il"
    and k: "length xs + of_bool offset \<le> length (il_buf il)"
    and phys: "take (length xs + of_bool offset) (il_buf il) = il_phys offset xs"
    and srt: "sorted_wrt (<) (xs @ range_list start fin)"
    and hd: "offset \<longleftrightarrow> hd (xs @ [start]) \<noteq> 0"
  shows "il_repr (append_tail il (invlist_max il) (length xs) offset start fin) (xs @ range_list start fin)"
    and "il_owned (append_tail il (invlist_max il) (length xs) offset start fin)"
proof -
  let ?k = "length xs + of_bool offset"
  define il1 where "il1 = (if invlist_max il < length xs + 2 then invlist_extend il (length xs + 2) else il)"
  have own1: "il_owned il1" using own by (simp add: il1_def il_extend)
  have off1: "il_offset il1 = offset" using own off by (simp add: il1_def il_extend)
  have len1: "?k + 2 \<le> length (il_buf il1)"
  proof (cases "invlist_max il < length xs + 2")
    case True
    then show ?thesis using il_extend(2) [OF own(1), of "length xs + 2"] by (simp add: il1_def)
  next
    case False
    then show ?thesis using own by (auto simp: il1_def invlist_max_def il_owned_def)
  qed
  have phys1: "take ?k (il_buf il1) = il_phys offset xs"
    using k phys own by (simp add: il1_def il_extend)
  define b2 where "b2 = (il_buf il1)[?k := start]"
  have b2: "take (Suc ?k) b2 = il_phys offset xs @ [start]"
    using len1 phys1 by (simp add: b2_def take_update_Suc)
  have "take (Suc (Suc ?k)) (b2[Suc ?k := fin + 1]) = take (Suc ?k) b2 @ [fin + 1]"
    by (rule take_update_Suc) (use len1 in \<open>simp add: b2_def\<close>)
  then have b3: "take (Suc (Suc ?k)) (b2[Suc ?k := fin + 1]) = il_phys offset xs @ [start, fin + 1]"
    by (simp add: b2)
  have res: "append_tail il (invlist_max il) (length xs) offset start fin =
     (if fin \<noteq> UV_MAX then il1\<lparr>il_cur := Suc (Suc ?k), il_buf := b2[Suc ?k := fin + 1]\<rparr>
      else il1\<lparr>il_cur := Suc ?k, il_buf := b2\<rparr>)"
  proof -
    have "append_tail il (invlist_max il) (length xs) offset start fin =
      (let il2 = arr_set (invlist_set_len il1 (length xs + 2) offset) (length xs + 2 - 2) start
       in if fin \<noteq> UV_MAX then arr_set il2 (length xs + 2 - 1) (fin + 1)
          else invlist_set_len il2 (length xs + 2 - 1) offset)"
      by (simp only: append_tail_def Let_def il1_def)
    then show ?thesis
      by (simp add: Let_def invlist_set_len_def arr_set_def off1 b2_def)
  qed
  have h: "hd (xs @ range_list start fin) = hd (xs @ [start])"
    by (cases xs) (auto simp: range_list_def)
  show "il_repr (append_tail il (invlist_max il) (length xs) offset start fin) (xs @ range_list start fin)"
    unfolding res using srt len1 b2 b3 off1 hd h
    by (auto simp: il_repr_def range_list_def b2_def split: if_splits)
  show "il_owned (append_tail il (invlist_max il) (length xs) offset start fin)"
    unfolding res using own1 by (auto simp: il_owned_def b2_def)
qed

text \<open>What the append does to the list, on every branch.\<close>

definition append_spec :: "u64 list \<Rightarrow> u64 \<Rightarrow> u64 \<Rightarrow> u64 list" where
  "append_spec xs start fin =
     (if xs \<noteq> [] \<and> last xs = start
      then butlast xs @ (if fin = UV_MAX then [] else [fin + 1])
      else xs @ range_list start fin)"

lemma append_range_error_iff:
  assumes "il_ok il"
  shows "(\<exists>e. append_range_to_invlist il start fin = Inl e) \<longleftrightarrow>
    invlist_array il \<noteq> [] \<and> (last (invlist_array il) > start \<or> odd (length (invlist_array il)))"
proof (cases "invlist_len il = 0")
  case True
  then have "invlist_array il = []" using length_invlist_array [OF assms] by (metis length_0_conv)
  with True show ?thesis by (simp add: append_range_to_invlist_def Let_def)
next
  case False
  then have ne: "invlist_array il \<noteq> []" using length_invlist_array [OF assms] by auto
  then have "arr_get il (invlist_len il - 1) = last (invlist_array il)"
    using assms False by (simp add: arr_get_nth last_conv_nth)
  with False ne show ?thesis
    by (auto simp: append_range_to_invlist_def Let_def length_invlist_array [OF assms, symmetric]
        range_matches_defs)
qed

lemma append_range_repr:
  assumes wf: "il_wf il" and se: "start \<le> fin"
    and ok: "invlist_array il = [] \<or> last (invlist_array il) \<le> start \<and> even (length (invlist_array il))"
  obtains il' where "append_range_to_invlist il start fin = Inr il'"
    "il_repr il' (append_spec (invlist_array il) start fin)" "il_owned il'"
proof -
  let ?xs = "invlist_array il"
  note iok = il_wfD(1) [OF wf] and own = il_wfD(2) [OF wf] and sl = il_owned_svlen [OF own]
  have len: "length ?xs = invlist_len il" by (simp add: iok)
  have srt: "sorted_wrt (<) ?xs" using iok by (rule invlist_array_sorted)
  have rep: "il_repr il ?xs" using iok by (rule il_ok_repr)
  show thesis
  proof (cases "?xs = []")
    case True
    define il0 where "il0 = invlist_array_init il (\<not> (start \<noteq> 0))"
    have o0: "il_owned il0" "il_svlen il0 \<noteq> 0" "il_offset il0 = (start \<noteq> 0)"
      using own sl by (auto simp: il0_def invlist_array_init_def il_owned_def)
    obtain y ys where b: "il_buf il = y # ys"
      using own by (cases "il_buf il") (auto simp: il_owned_def)
    have p: "take (length ([] :: u64 list) + of_bool (start \<noteq> 0)) (il_buf il0) = il_phys (start \<noteq> 0) []"
      "length ([] :: u64 list) + of_bool (start \<noteq> 0) \<le> length (il_buf il0)"
      using b by (auto simp: il0_def invlist_array_init_def il_phys_def)
    have mx: "invlist_max il = invlist_max il0"
      using sl by (simp add: invlist_max_def il0_def invlist_array_init_def)
    have "append_range_to_invlist il start fin =
        Inr (append_tail il0 (invlist_max il0) (length ([] :: u64 list)) (start \<noteq> 0) start fin)"
      using True len mx by (simp add: append_range_to_invlist_def Let_def il0_def)
    then show thesis
      using that append_tail_repr [OF o0(1,2) o0(3) [symmetric] p(2,1)] range_list_sorted [OF se] True
      by (simp add: append_spec_def)
  next
    case False
    with len have n0: "invlist_len il \<noteq> 0" by (metis length_0_conv)
    have fe: "arr_get il (invlist_len il - 1) = last ?xs"
      using iok n0 False len by (simp add: arr_get_nth last_conv_nth)
    have t: "take (il_cur il) (il_buf il) = il_phys (il_offset il) ?xs"
      and c: "il_cur il \<le> length (il_buf il)" and h: "il_offset il \<longleftrightarrow> hd ?xs \<noteq> 0"
      using rep False by (auto simp: il_repr_def)
    have cur: "il_cur il = length ?xs + of_bool (il_offset il)"
      using arg_cong [OF t, of length] c by simp
    have ev: "even (length ?xs)" and le: "last ?xs \<le> start" using ok False by auto
    have odd': "\<not> even (invlist_len il - 1)" using ev len n0 by (cases "invlist_len il") auto
    show thesis
    proof (cases "last ?xs = start")
      case adj: True
      obtain zs z where xs: "?xs = zs @ [z]" using False by (metis rev_exhaust)
      have zs: "zs \<noteq> []" using ev xs by (cases zs) auto
      have z: "z = start" using adj xs by simp
      let ?o = "of_bool (il_offset il)"
      have cur': "il_cur il = Suc (length zs + ?o)" using cur xs by simp
      have tz: "take (length zs + ?o) (il_buf il) = il_phys (il_offset il) zs"
        using arg_cong [OF t, of "take (length zs + ?o)"] cur' xs
        by (simp add: il_phys_def min_def split: if_splits)
      have hz: "il_offset il \<longleftrightarrow> hd zs \<noteq> 0" using zs xs h by simp
      have l: "invlist_len il = Suc (length zs)" using len xs by simp
      have oz: "odd (length zs)" using ev unfolding xs by simp
      have fz: "arr_get il (length zs) = start" using fe adj l by simp
      show thesis
      proof (cases "fin = UV_MAX")
        case True
        have "append_range_to_invlist il start fin = Inr (il\<lparr>il_cur := length zs + ?o\<rparr>)"
          using zs True by (simp add: append_range_to_invlist_def Let_def range_matches_defs
              invlist_set_len_def l oz fz)
        moreover have "il_repr (il\<lparr>il_cur := length zs + ?o\<rparr>) zs"
          using zs tz c cur' hz srt xs by (auto simp: il_repr_def sorted_wrt_append)
        moreover have "il_owned (il\<lparr>il_cur := length zs + ?o\<rparr>)" using own by (simp add: il_owned_def)
        ultimately show thesis using that xs True z by (simp add: append_spec_def)
      next
        case fin: False
        let ?b = "(il_buf il)[length zs + ?o := fin + 1]"
        have eq: "append_range_to_invlist il start fin = Inr (il\<lparr>il_buf := ?b\<rparr>)"
          using fin by (simp add: append_range_to_invlist_def Let_def range_matches_defs
              arr_set_def l oz fz)
        have "take (il_cur il) ?b = il_phys (il_offset il) (zs @ [fin + 1])"
          using c cur' tz by (simp add: take_update_Suc il_phys_def)
        moreover have "sorted_wrt (<) (zs @ [fin + 1])"
        proof -
          have "x < fin + 1" if "x \<in> set zs" for x
          proof -
            have "x < z" using that srt xs by (simp add: sorted_wrt_append)
            also have "z \<le> fin" using se z by simp
            finally show ?thesis using fin by (simp add: word_less_plus_one less_imp_le)
          qed
          with srt xs show ?thesis by (simp add: sorted_wrt_append)
        qed
        ultimately have "il_repr (il\<lparr>il_buf := ?b\<rparr>) (zs @ [fin + 1])"
          using zs c hz by (simp add: il_repr_def)
        moreover have "append_spec ?xs start fin = zs @ [fin + 1]"
          unfolding xs using z fin by (simp add: append_spec_def)
        moreover have "il_owned (il\<lparr>il_buf := ?b\<rparr>)" using own by (simp add: il_owned_def)
        ultimately show thesis using that eq by simp
      qed
    next
      case ne: False
      have "append_range_to_invlist il start fin =
          Inr (append_tail il (invlist_max il) (length ?xs) (il_offset il) start fin)"
        using n0 fe ne odd' le len
        by (auto simp: append_range_to_invlist_def Let_def range_matches_defs)
      moreover have "sorted_wrt (<) (?xs @ range_list start fin)"
      proof -
        have "x < start" if "x \<in> set ?xs" for x
        proof -
          obtain zs z where xs: "?xs = zs @ [z]" using False by (metis rev_exhaust)
          with that srt have "x \<le> last ?xs" by (auto simp: sorted_wrt_append intro: less_imp_le)
          with le ne show ?thesis by simp
        qed
        then show ?thesis using srt range_list_sorted [OF se] range_list_bounds [OF se]
          by (auto simp: sorted_wrt_append intro: order.strict_trans2)
      qed
      ultimately show thesis
        using that append_tail_repr [OF own sl refl, of ?xs start fin] c cur t h False ne
        by (simp add: append_spec_def)
    qed
  qed
qed

lemma append_spec_set:
  assumes "start \<le> fin" "sorted_wrt (<) xs" "xs = [] \<or> last xs \<le> start \<and> even (length xs)"
  shows "in_ranges (append_spec xs start fin) cp \<longleftrightarrow> in_ranges xs cp \<or> start \<le> cp \<and> cp \<le> fin"
proof (cases "xs = []")
  case True
  then show ?thesis using assms(1) by (simp add: append_spec_def in_ranges_range_list)
next
  case False
  then obtain zs z where xs: "xs = zs @ [z]" by (metis rev_exhaust)
  have below: "z \<le> cp \<Longrightarrow> in_ranges zs cp"
  proof -
    assume "z \<le> cp"
    then have "il_rank zs cp = length zs"
      using assms(2) xs by (intro il_rank_eq_length) (auto simp: sorted_wrt_append intro: less_imp_le order.trans)
    then show ?thesis using assms(3) xs by (simp add: in_ranges_def)
  qed
  show ?thesis
  proof (cases "z = start")
    case True
    with xs below assms(1) show ?thesis
      by (auto simp: append_spec_def in_ranges_append word_plus_one_le)
  next
    case ne: False
    with xs assms have "z < start" by (simp add: less_le)
    with xs ne below show ?thesis using in_ranges_range_list [OF assms(1), of cp]
      by (auto simp: append_spec_def in_ranges_append)
  qed
qed


end
