(* ===== verification/Invlist_Ops.thy ===== *)
theory Invlist_Ops
  imports Invlist
begin

text \<open>
  The set operations of \<open>regcomp_invlist.c\<close>: cloning, inversion, comparison, union and
  intersection (each with the second operand complemented on request).

  An operation writes its result through a pointer \<open>SV **output\<close> that is null, or points to a
  list that may be one of the operands: \<open>out_arg\<close> says which.  The operations return the list
  \<open>*output\<close> points to afterwards.
\<close>

datatype out_arg = OutNull | OutA | OutB | Out invlist

definition out_list :: "invlist option \<Rightarrow> invlist \<Rightarrow> out_arg \<Rightarrow> invlist" where
  "out_list a b output =
     (case output of OutNull \<Rightarrow> newSV_invlist
      | OutA \<Rightarrow> (case a of Some a \<Rightarrow> a | None \<Rightarrow> newSV_invlist) | OutB \<Rightarrow> b | Out l \<Rightarrow> l)"

section \<open>Copying and moving lists\<close>

definition invlist_clone :: "invlist \<Rightarrow> invlist option \<Rightarrow> invlist" where
  "invlist_clone il new_il =
     (let nominal_length = invlist_len il; physical_length = il_cur il; offset = il_offset il;
          new_il = (case new_il of None \<Rightarrow> new_invlist (int nominal_length)
                    | Some n \<Rightarrow> initialize_invlist_guts n nominal_length);
          new_il = invlist_set_len (new_il\<lparr>il_offset := offset\<rparr>) nominal_length offset
      in new_il\<lparr>il_buf := take physical_length (il_buf il) @ drop physical_length (il_buf new_il)\<rparr>)"

definition invlist_replace_list_destroys_src :: "invlist \<Rightarrow> invlist \<Rightarrow> invlist" where
  "invlist_replace_list_destroys_src dest src =
     (let src_len = invlist_len src; src_offset = il_offset src;
          dest = dest\<lparr>il_buf := il_buf src, il_svlen := il_svlen src\<rparr>;
          dest = dest\<lparr>il_offset := src_offset\<rparr>;
          dest = invlist_set_len dest src_len src_offset
      in invlist_iterfinish (dest\<lparr>il_prev := 0\<rparr>))"

definition invlist_invert :: "invlist \<Rightarrow> il_error + invlist" where
  "invlist_invert il =
     (if invlist_len il = 0 then append_range_to_invlist il 0 UV_MAX
      else Inr (il\<lparr>il_offset := \<not> il_offset il\<rparr>))"

text \<open>The view of the second operand's array that stands for its complement.\<close>

definition complement_array :: "u64 list \<Rightarrow> u64 list" where
  "complement_array array_b = (if array_b ! 0 = 0 then tl array_b else 0 # array_b)"

definition invlistEQ :: "invlist \<Rightarrow> invlist \<Rightarrow> bool \<Rightarrow> bool" where
  "invlistEQ a b complement_b =
     (let len_a = invlist_len a; len_b = invlist_len b in
      if len_a = 0 \<and> len_b = 0 then \<not> complement_b
      else if complement_b \<and> len_b = 0 then len_a = 1 \<and> arr_get a 0 = 0
      else
        let array_b = (if complement_b then complement_array (invlist_array b) else invlist_array b)
        in len_a = length array_b \<and> invlist_array a = array_b)"

section \<open>Union\<close>

text \<open>One element taken by the merge: the new cnt and the output so far.\<close>

definition union_take :: "nat \<Rightarrow> u64 list \<Rightarrow> u64 \<Rightarrow> bool \<Rightarrow> nat \<times> u64 list" where
  "union_take cnt u cp cp_in_set =
     (if cp_in_set then (cnt + 1, if cnt = 0 then u @ [cp] else u)
      else (cnt - 1, if cnt - 1 = 0 then u @ [cp] else u))"

function union_loop ::
  "u64 list \<Rightarrow> u64 list \<Rightarrow> nat \<Rightarrow> nat \<Rightarrow> nat \<Rightarrow> u64 list \<Rightarrow> nat \<times> nat \<times> nat \<times> u64 list" where
  "union_loop array_a array_b i_a i_b cnt u =
     (if i_a < length array_a \<and> i_b < length array_b then
        if array_a ! i_a < array_b ! i_b
           \<or> (array_a ! i_a = array_b ! i_b \<and> ELEMENT_RANGE_MATCHES_INVLIST i_a)
        then let (cnt, u) = union_take cnt u (array_a ! i_a) (ELEMENT_RANGE_MATCHES_INVLIST i_a)
             in union_loop array_a array_b (i_a + 1) i_b cnt u
        else let (cnt, u) = union_take cnt u (array_b ! i_b) (ELEMENT_RANGE_MATCHES_INVLIST i_b)
             in union_loop array_a array_b i_a (i_b + 1) cnt u
      else (i_a, i_b, cnt, u))"
  by pat_completeness auto
termination
  by (relation "measure (\<lambda>(a, b, i_a, i_b, _). (length a - i_a) + (length b - i_b))") auto

declare union_loop.simps [simp del]

text \<open>The contents of \<open>array_u\<close>: the loop's output and, when \<open>cnt\<close> ends at 0, the rest.\<close>

fun union_rest :: "u64 list \<Rightarrow> u64 list \<Rightarrow> nat \<times> nat \<times> nat \<times> u64 list \<Rightarrow> u64 list" where
  "union_rest array_a array_b (i_a, i_b, cnt, u) =
     (let len_a = length array_a; len_b = length array_b;
          cnt = (if (i_a \<noteq> len_a \<and> PREV_RANGE_MATCHES_INVLIST i_a)
                    \<or> (i_b \<noteq> len_b \<and> PREV_RANGE_MATCHES_INVLIST i_b) then cnt - 1 else cnt)
      in if cnt \<noteq> 0 then u
         else if len_a - i_a > 0 then u @ drop i_a array_a else u @ drop i_b array_b)"

definition union_array :: "u64 list \<Rightarrow> u64 list \<Rightarrow> u64 list" where
  "union_array array_a array_b =
     union_rest array_a array_b (union_loop array_a array_b 0 0 0 [])"

text \<open>The elements written through \<open>array_u\<close> into a list, and its final length.\<close>

definition arr_write :: "invlist \<Rightarrow> u64 list \<Rightarrow> invlist" where
  "arr_write il xs = (let off = of_bool (il_offset il) in
     il\<lparr>il_buf := take off (il_buf il) @ xs @ drop (off + length xs) (il_buf il)\<rparr>)"

definition finish_list :: "invlist \<Rightarrow> u64 list \<Rightarrow> invlist" where
  "finish_list u xs =
     (let u = arr_write u xs; len_u = length xs
      in if len_u \<noteq> invlist_len u
         then invlist_trim (invlist_set_len u len_u (il_offset u)) else u)"

definition invlist_union_maybe_complement_2nd ::
  "invlist option \<Rightarrow> invlist \<Rightarrow> bool \<Rightarrow> out_arg \<Rightarrow> il_error + invlist" where
  "invlist_union_maybe_complement_2nd a b complement_b output =
     (let len_b = invlist_len b; old = out_list a b output in
      if len_b = 0 then
        if complement_b then
          attempt (append_range_to_invlist (new_invlist 2) 0 UV_MAX) (\<lambda>everything.
            if output = OutNull then Inr everything
            else Inr (invlist_replace_list_destroys_src old everything))
        else (case a of
            None \<Rightarrow> Inr (if output = OutNull then new_invlist 0 else invlist_clear old)
          | Some a \<Rightarrow>
              if invlist_len a = 0
              then Inr (if output = OutNull then new_invlist 0 else invlist_clear old)
              else if output = OutNull then Inr (invlist_clone a None)
              else if output = OutA then Inr a
              else Inr (invlist_replace_list_destroys_src old (invlist_clone a None)))
      else if (case a of None \<Rightarrow> True | Some a \<Rightarrow> invlist_len a = 0) then
        attempt (if complement_b then invlist_invert (invlist_clone b None)
                 else Inr (invlist_clone b None)) (\<lambda>u.
          if output = OutNull then Inr u else Inr (invlist_replace_list_destroys_src old u))
      else
        let array_a = invlist_array (the a);
            array_b = (if complement_b then complement_array (invlist_array b) else invlist_array b);
            len_a = length array_a; len_b = length array_b;
            u = new_invlist (int (len_a + len_b));
            u = invlist_array_init u ((len_a > 0 \<and> array_a ! 0 = 0) \<or> (len_b > 0 \<and> array_b ! 0 = 0));
            u = finish_list u (union_array array_a array_b)
        in if output = OutNull then Inr u else Inr (invlist_replace_list_destroys_src old u))"

abbreviation invlist_union :: "invlist option \<Rightarrow> invlist \<Rightarrow> out_arg \<Rightarrow> il_error + invlist" where
  "invlist_union a b output \<equiv> invlist_union_maybe_complement_2nd a b False output"

section \<open>Intersection\<close>

definition intersection_take :: "nat \<Rightarrow> u64 list \<Rightarrow> u64 \<Rightarrow> bool \<Rightarrow> nat \<times> u64 list" where
  "intersection_take cnt r cp cp_in_set =
     (if cp_in_set then (cnt + 1, if cnt + 1 = 2 then r @ [cp] else r)
      else (cnt - 1, if cnt = 2 then r @ [cp] else r))"

function intersection_loop ::
  "u64 list \<Rightarrow> u64 list \<Rightarrow> nat \<Rightarrow> nat \<Rightarrow> nat \<Rightarrow> u64 list \<Rightarrow> nat \<times> nat \<times> nat \<times> u64 list" where
  "intersection_loop array_a array_b i_a i_b cnt r =
     (if i_a < length array_a \<and> i_b < length array_b then
        if array_a ! i_a < array_b ! i_b
           \<or> (array_a ! i_a = array_b ! i_b \<and> \<not> ELEMENT_RANGE_MATCHES_INVLIST i_a)
        then let (cnt, r) = intersection_take cnt r (array_a ! i_a) (ELEMENT_RANGE_MATCHES_INVLIST i_a)
             in intersection_loop array_a array_b (i_a + 1) i_b cnt r
        else let (cnt, r) = intersection_take cnt r (array_b ! i_b) (ELEMENT_RANGE_MATCHES_INVLIST i_b)
             in intersection_loop array_a array_b i_a (i_b + 1) cnt r
      else (i_a, i_b, cnt, r))"
  by pat_completeness auto
termination
  by (relation "measure (\<lambda>(a, b, i_a, i_b, _). (length a - i_a) + (length b - i_b))") auto

declare intersection_loop.simps [simp del]

fun intersection_rest :: "u64 list \<Rightarrow> u64 list \<Rightarrow> nat \<times> nat \<times> nat \<times> u64 list \<Rightarrow> u64 list" where
  "intersection_rest array_a array_b (i_a, i_b, cnt, r) =
     (let len_a = length array_a; len_b = length array_b;
          cnt = (if (i_a = len_a \<and> PREV_RANGE_MATCHES_INVLIST i_a)
                    \<or> (i_b = len_b \<and> PREV_RANGE_MATCHES_INVLIST i_b) then cnt + 1 else cnt)
      in if cnt < 2 then r
         else if len_a - i_a > 0 then r @ drop i_a array_a else r @ drop i_b array_b)"

definition intersection_array :: "u64 list \<Rightarrow> u64 list \<Rightarrow> u64 list" where
  "intersection_array array_a array_b =
     intersection_rest array_a array_b (intersection_loop array_a array_b 0 0 0 [])"

definition invlist_intersection_maybe_complement_2nd ::
  "invlist option \<Rightarrow> invlist \<Rightarrow> bool \<Rightarrow> out_arg \<Rightarrow> invlist" where
  "invlist_intersection_maybe_complement_2nd a b complement_b i =
     (let len_a = (case a of None \<Rightarrow> 0 | Some a \<Rightarrow> invlist_len a); old = out_list a b i in
      if len_a = 0 \<or> invlist_len b = 0 then
        if len_a \<noteq> 0 \<and> complement_b then
          if i = OutA then the a
          else if i = OutNull then invlist_clone (the a) None
          else invlist_replace_list_destroys_src old (invlist_clone (the a) None)
        else if i = OutNull then new_invlist 0
        else invlist_clear old
      else
        let array_a = invlist_array (the a);
            array_b = (if complement_b then complement_array (invlist_array b) else invlist_array b);
            len_a = length array_a; len_b = length array_b;
            r = new_invlist (int (len_a + len_b));
            r = invlist_array_init r (len_a > 0 \<and> array_a ! 0 = 0 \<and> len_b > 0 \<and> array_b ! 0 = 0);
            xs = intersection_array array_a array_b;
            r = finish_list r xs
        in if i = OutNull then r
           else if xs \<noteq> [] then invlist_replace_list_destroys_src old r
           else invlist_clear old)"

abbreviation invlist_subtract :: "invlist option \<Rightarrow> invlist \<Rightarrow> out_arg \<Rightarrow> invlist" where
  "invlist_subtract a b output \<equiv> invlist_intersection_maybe_complement_2nd a b True output"

section \<open>The merge as a sweep\<close>

text \<open>
  Both operations are one sweep over the boundaries of two sets, parametrised by the boolean
  operation \<open>f\<close> and by which side goes first on a tie (\<open>pref\<close>, of whether the first list is
  currently inside its set).  A boundary is kept when it changes \<open>f\<close>.
\<close>

fun sweep :: "(bool \<Rightarrow> bool \<Rightarrow> bool) \<Rightarrow> (bool \<Rightarrow> bool) \<Rightarrow> bool \<Rightarrow> bool \<Rightarrow> u64 list \<Rightarrow> u64 list \<Rightarrow> u64 list" where
  "sweep f pref ia ib [] bs = (if f ia True = f ia False then [] else bs)"
| "sweep f pref ia ib (x # as) [] = (if f True ib = f False ib then [] else x # as)"
| "sweep f pref ia ib (x # as) (y # bs) =
     (if x < y \<or> (x = y \<and> pref ia)
      then (if f ia ib \<noteq> f (\<not> ia) ib then [x] else []) @ sweep f pref (\<not> ia) ib as (y # bs)
      else (if f ia ib \<noteq> f ia (\<not> ib) then [y] else []) @ sweep f pref ia (\<not> ib) (x # as) bs)"

lemma sweep_a:
  "x < y \<or> (x = y \<and> pref ia) \<Longrightarrow> sweep f pref ia ib (x # as) (y # bs) =
     (if f ia ib \<noteq> f (\<not> ia) ib then [x] else []) @ sweep f pref (\<not> ia) ib as (y # bs)"
  by (subst sweep.simps(3)) (simp only: if_True)

lemma sweep_b:
  "\<not> (x < y \<or> (x = y \<and> pref ia)) \<Longrightarrow> sweep f pref ia ib (x # as) (y # bs) =
     (if f ia ib \<noteq> f ia (\<not> ib) then [y] else []) @ sweep f pref ia (\<not> ib) (x # as) bs"
  by (subst sweep.simps(3)) (simp only: if_False)

lemma sweep_induct [case_names nil_a nil_b merge]:
  assumes "\<And>ia ib bs. P ia ib [] bs"
    and "\<And>ia ib x as. P ia ib (x # as) []"
    and "\<And>ia ib x as y bs. P (\<not> ia) ib as (y # bs) \<Longrightarrow> P ia (\<not> ib) (x # as) bs \<Longrightarrow>
      P ia ib (x # as) (y # bs)"
  shows "P (ia :: bool) (ib :: bool) (as :: 'x list) (bs :: 'y list)"
  using assms by induction_schema (pat_completeness, lexicographic_order)

lemma set_sweep: "set (sweep f pref ia ib as bs) \<subseteq> set as \<union> set bs"
  by (induction f pref ia ib as bs rule: sweep.induct) (auto split: if_splits)

text \<open>The contract both operations meet: on a tie only one of the two boundaries changes \<open>f\<close>.\<close>

locale tie_safe =
  fixes f :: "bool \<Rightarrow> bool \<Rightarrow> bool" and pref :: "bool \<Rightarrow> bool"
  assumes first_a: "pref ia \<Longrightarrow> f ia ib = f (\<not> ia) ib \<or> f (\<not> ia) ib = f (\<not> ia) (\<not> ib)"
    and first_b: "\<not> pref ia \<Longrightarrow> f ia ib = f ia (\<not> ib) \<or> f ia (\<not> ib) = f (\<not> ia) (\<not> ib)"
begin

lemma const1: "f ia True = f ia False \<Longrightarrow> f ia x = f ia y"
  by (cases x; cases y) auto

lemma const2: "f True ib = f False ib \<Longrightarrow> f x ib = f y ib"
  by (cases x; cases y) auto

lemma noconst1: "f ia True \<noteq> f ia False \<Longrightarrow> f ia x = f ia y \<longleftrightarrow> x = y"
  by (cases x; cases y) auto

lemma noconst2: "f True ib \<noteq> f False ib \<Longrightarrow> f x ib = f y ib \<longleftrightarrow> x = y"
  by (cases x; cases y) auto

lemma sweep_mem:
  "sorted_wrt (<) as \<Longrightarrow> sorted_wrt (<) bs \<Longrightarrow>
    (in_ranges (sweep f pref ia ib as bs) cp \<noteq> f ia ib) =
      f (in_ranges as cp \<noteq> ia) (in_ranges bs cp \<noteq> ib)"
proof (induction ia ib as bs rule: sweep_induct)
  case (nil_a ia ib bs)
  show ?case
  proof (cases "f ia True = f ia False")
    case True
    then show ?thesis using const1 [OF True, of ib "in_ranges bs cp \<noteq> ib"] by simp
  next
    case False
    then show ?thesis using noconst1 [OF False, of ib "\<not> ib"]
      by (cases "in_ranges bs cp") simp_all
  qed
next
  case (nil_b ia ib x as)
  show ?case
  proof (cases "f True ib = f False ib")
    case True
    then show ?thesis using const2 [OF True, of ia "in_ranges (x # as) cp \<noteq> ia"] by simp
  next
    case False
    then have e: "sweep f pref ia ib (x # as) [] = x # as" by simp
    show ?thesis unfolding e using noconst2 [OF False, of ia "\<not> ia"]
      by (cases "in_ranges (x # as) cp") (simp_all del: in_ranges_simps(2))
  qed
next
  case (merge ia ib x as y bs)
  show ?case
  proof (cases "x < y \<or> (x = y \<and> pref ia)")
    case a: True
    let ?r = "sweep f pref (\<not> ia) ib as (y # bs)"
    have ih: "(in_ranges ?r cp \<noteq> f (\<not> ia) ib) = f (in_ranges as cp \<noteq> (\<not> ia)) (in_ranges (y # bs) cp \<noteq> ib)"
      by (rule merge(1)) (use merge(3,4) in simp_all)
    show ?thesis
    proof (cases "x \<le> cp")
      case True
      then have s: "in_ranges (sweep f pref ia ib (x # as) (y # bs)) cp =
          ((f ia ib \<noteq> f (\<not> ia) ib) \<noteq> in_ranges ?r cp)"
        unfolding sweep_a [of x y pref ia, OF a] in_ranges_append by simp
      have "(in_ranges (sweep f pref ia ib (x # as) (y # bs)) cp \<noteq> f ia ib) =
          (in_ranges ?r cp \<noteq> f (\<not> ia) ib)"
        unfolding s by blast
      moreover have "(in_ranges (x # as) cp \<noteq> ia) = (in_ranges as cp \<noteq> (\<not> ia))"
        using True by simp
      ultimately show ?thesis using ih by (simp only:)
    next
      case False
      have lo: "\<forall>z\<in>set (x # as) \<union> set (y # bs). cp < z"
        using False a merge(3,4) by (auto simp: not_le dest: less_trans)
      have "\<not> in_ranges (x # as) cp" "\<not> in_ranges (y # bs) cp"
        using lo by (intro in_ranges_below, blast)+
      moreover have "\<not> in_ranges (sweep f pref ia ib (x # as) (y # bs)) cp"
        using lo set_sweep [of f pref ia ib "x # as" "y # bs"] by (intro in_ranges_below) blast
      ultimately show ?thesis by (simp only:) simp
    qed
  next
    case b: False
    then have yx: "y \<le> x" by auto
    let ?r = "sweep f pref ia (\<not> ib) (x # as) bs"
    have ih: "(in_ranges ?r cp \<noteq> f ia (\<not> ib)) = f (in_ranges (x # as) cp \<noteq> ia) (in_ranges bs cp \<noteq> (\<not> ib))"
      by (rule merge(2)) (use merge(3,4) in simp_all)
    show ?thesis
    proof (cases "y \<le> cp")
      case True
      then have s: "in_ranges (sweep f pref ia ib (x # as) (y # bs)) cp =
          ((f ia ib \<noteq> f ia (\<not> ib)) \<noteq> in_ranges ?r cp)"
        unfolding sweep_b [of x y pref ia, OF b] in_ranges_append by simp
      have "(in_ranges (sweep f pref ia ib (x # as) (y # bs)) cp \<noteq> f ia ib) =
          (in_ranges ?r cp \<noteq> f ia (\<not> ib))"
        unfolding s by blast
      moreover have "(in_ranges (y # bs) cp \<noteq> ib) = (in_ranges bs cp \<noteq> (\<not> ib))"
        using True by simp
      ultimately show ?thesis using ih by (simp only:)
    next
      case False
      have lo: "\<forall>z\<in>set (x # as) \<union> set (y # bs). cp < z"
        using False yx merge(3,4) by (auto simp: not_le dest: less_trans order.strict_trans2)
      have "\<not> in_ranges (x # as) cp" "\<not> in_ranges (y # bs) cp"
        using lo by (intro in_ranges_below, blast)+
      moreover have "\<not> in_ranges (sweep f pref ia ib (x # as) (y # bs)) cp"
        using lo set_sweep [of f pref ia ib "x # as" "y # bs"] by (intro in_ranges_below) blast
      ultimately show ?thesis by (simp only:) simp
    qed
  qed
qed

text \<open>After a boundary \<open>y\<close> was kept, whatever is kept later is above it.\<close>

definition after :: "u64 \<Rightarrow> bool \<Rightarrow> bool \<Rightarrow> u64 list \<Rightarrow> u64 list \<Rightarrow> bool" where
  "after y ia ib as bs \<longleftrightarrow>
     (\<forall>z\<in>set as. y \<le> z) \<and> (\<forall>z\<in>set bs. y \<le> z) \<and> \<not> (y \<in> set as \<and> y \<in> set bs) \<and>
     (y \<in> set as \<longrightarrow> f ia ib = f (\<not> ia) ib) \<and> (y \<in> set bs \<longrightarrow> f ia ib = f ia (\<not> ib))"

lemma sweep_after:
  "sorted_wrt (<) as \<Longrightarrow> sorted_wrt (<) bs \<Longrightarrow> after y ia ib as bs \<Longrightarrow>
    z \<in> set (sweep f pref ia ib as bs) \<Longrightarrow> y < z"
proof (induction ia ib as bs rule: sweep_induct)
  case (nil_a ia ib bs)
  then show ?case
    using noconst1 [of ia ib "\<not> ib"] by (auto simp: after_def less_le split: if_splits)
next
  case (nil_b ia ib x as)
  then show ?case
    using noconst2 [of ib ia "\<not> ia"] by (auto simp: after_def less_le split: if_splits)
next
  case (merge ia ib x as w bs)
  have gt: "y < z" if "y \<notin> set (x # as) \<union> set (w # bs)"
    using that merge(5,6) set_sweep [of f pref ia ib "x # as" "w # bs"]
    by (auto simp: after_def less_le)
  show ?case
  proof (cases "y \<in> set (x # as) \<union> set (w # bs)")
    case False
    then show ?thesis by (rule gt)
  next
    case True
    have lo: "y \<le> x" "y \<le> w" using merge(5) by (auto simp: after_def)
    then have "y = x \<or> y = w" using True merge(3,4) by (auto dest: leD)
    moreover have "x \<noteq> w" if "y = x \<or> y = w" using that merge(5) by (auto simp: after_def)
    ultimately have "(y = x \<and> x < w) \<or> (y = w \<and> w < x)" using lo by (auto simp: less_le)
    then show ?thesis
    proof
      assume x: "y = x \<and> x < w"
      then have "z \<in> set (sweep f pref (\<not> ia) ib as (w # bs))"
        using merge(5,6) sweep_a [of x w pref ia f ib as bs] by (auto simp: after_def simp del: sweep.simps)
      then have "z \<in> set as \<union> set (w # bs)" using set_sweep by blast
      then show ?thesis using x merge(3,4) by (auto dest: less_trans)
    next
      assume w: "y = w \<and> w < x"
      then have "z \<in> set (sweep f pref ia (\<not> ib) (x # as) bs)"
        using merge(5,6) sweep_b [of x w pref ia f ib as bs] by (auto simp: after_def simp del: sweep.simps)
      then have "z \<in> set (x # as) \<union> set bs" using set_sweep by blast
      then show ?thesis using w merge(3,4) by (auto dest: less_trans)
    qed
  qed
qed

lemma sweep_sorted:
  "sorted_wrt (<) as \<Longrightarrow> sorted_wrt (<) bs \<Longrightarrow> sorted_wrt (<) (sweep f pref ia ib as bs)"
proof (induction ia ib as bs rule: sweep_induct)
  case (merge ia ib x as y bs)
  show ?case
  proof (cases "x < y \<or> (x = y \<and> pref ia)")
    case a: True
    have "after x (\<not> ia) ib as (y # bs)" if "f ia ib \<noteq> f (\<not> ia) ib"
      using a that merge(3,4) first_a [of ia ib] by (auto simp: after_def less_imp_le)
    moreover have "sorted_wrt (<) (sweep f pref (\<not> ia) ib as (y # bs))"
      by (rule merge(1)) (use merge(3,4) in simp_all)
    ultimately show ?thesis unfolding sweep_a [of x y pref ia, OF a]
      using merge(3,4) sweep_after [of as "y # bs" x "\<not> ia" ib] by simp
  next
    case b: False
    then have yx: "y \<le> x" "y = x \<longrightarrow> \<not> pref ia" by auto
    have "after y ia (\<not> ib) (x # as) bs" if "f ia ib \<noteq> f ia (\<not> ib)"
      using yx that merge(3,4) first_b [of ia ib] by (auto simp: after_def less_imp_le)
    moreover have "sorted_wrt (<) (sweep f pref ia (\<not> ib) (x # as) bs)"
      by (rule merge(2)) (use merge(3,4) in simp_all)
    ultimately show ?thesis unfolding sweep_b [of x y pref ia, OF b]
      using merge(3,4) sweep_after [of "x # as" bs y ia "\<not> ib"] by simp
  qed
qed simp_all

end

interpretation union_sweep: tie_safe "(\<or>)" Not
  by unfold_locales auto

interpretation intersection_sweep: tie_safe "(\<and>)" "\<lambda>b. b"
  by unfold_locales auto


section \<open>The loops are sweeps\<close>

lemma sweep_nil2: "sweep f pref ia ib as [] = (if f True ib = f False ib then [] else as)"
  by (cases as) auto

lemma union_loop_sweep:
  assumes "i_a \<le> length a" "i_b \<le> length b" "cnt = of_bool (odd i_a) + of_bool (odd i_b)"
  shows "union_rest a b (union_loop a b i_a i_b cnt u) =
    u @ sweep (\<or>) Not (odd i_a) (odd i_b) (drop i_a a) (drop i_b b)"
  using assms
proof (induction a b i_a i_b cnt u rule: union_loop.induct)
  case (1 a b i_a i_b cnt u)
  show ?case
  proof (cases "i_a < length a \<and> i_b < length b")
    case True
    then have da: "drop i_a a = a ! i_a # drop (Suc i_a) a"
      and db: "drop i_b b = b ! i_b # drop (Suc i_b) b"
      by (simp_all add: Cons_nth_drop_Suc)
    show ?thesis
    proof (cases "a ! i_a < b ! i_b \<or> (a ! i_a = b ! i_b \<and> ELEMENT_RANGE_MATCHES_INVLIST i_a)")
      case first: True
      obtain c u' where cu: "union_take cnt u (a ! i_a) (ELEMENT_RANGE_MATCHES_INVLIST i_a) = (c, u')"
        by fastforce
      have c: "c = of_bool (odd (i_a + 1)) + of_bool (odd i_b)"
        and u': "u' = u @ (if (odd i_a \<or> odd i_b) \<noteq> (\<not> odd i_a \<or> odd i_b) then [a ! i_a] else [])"
        using cu 1(5) by (cases "odd i_a"; cases "odd i_b"; auto simp: union_take_def range_matches_defs split: if_splits)+
      have "union_loop a b i_a i_b cnt u = union_loop a b (i_a + 1) i_b c u'"
        using True first cu by (subst union_loop.simps) auto
      moreover have "union_rest a b (union_loop a b (i_a + 1) i_b c u') =
          u' @ sweep (\<or>) Not (odd (i_a + 1)) (odd i_b) (drop (i_a + 1) a) (drop i_b b)"
        by (rule 1(1) [OF True first cu [symmetric] refl]) (use True c in auto)
      ultimately show ?thesis
        using first unfolding da db u'
        by (subst sweep_a) (auto simp: range_matches_defs)
    next
      case second: False
      obtain c u' where cu: "union_take cnt u (b ! i_b) (ELEMENT_RANGE_MATCHES_INVLIST i_b) = (c, u')"
        by fastforce
      have c: "c = of_bool (odd i_a) + of_bool (odd (i_b + 1))"
        and u': "u' = u @ (if (odd i_a \<or> odd i_b) \<noteq> (odd i_a \<or> \<not> odd i_b) then [b ! i_b] else [])"
        using cu 1(5) by (cases "odd i_a"; cases "odd i_b"; auto simp: union_take_def range_matches_defs split: if_splits)+
      have "union_loop a b i_a i_b cnt u = union_loop a b i_a (i_b + 1) c u'"
        using True second cu by (subst union_loop.simps) auto
      moreover have "union_rest a b (union_loop a b i_a (i_b + 1) c u') =
          u' @ sweep (\<or>) Not (odd i_a) (odd (i_b + 1)) (drop i_a a) (drop (i_b + 1) b)"
        by (rule 1(2) [OF True second cu [symmetric] refl]) (use True c in auto)
      ultimately show ?thesis
        using second unfolding da db u'
        by (subst sweep_b) (auto simp: range_matches_defs)
    qed
  next
    case False
    with 1(3,4) consider "i_a = length a" | "i_a < length a" "i_b = length b" by linarith
    moreover have "union_loop a b i_a i_b cnt u = (i_a, i_b, cnt, u)"
      using False by (subst union_loop.simps) auto
    ultimately show ?thesis
      using 1(4,5) by cases (auto simp: Let_def range_matches_defs sweep_nil2)
  qed
qed

lemma intersection_loop_sweep:
  assumes "i_a \<le> length a" "i_b \<le> length b" "cnt = of_bool (odd i_a) + of_bool (odd i_b)"
  shows "intersection_rest a b (intersection_loop a b i_a i_b cnt u) =
    u @ sweep (\<and>) (\<lambda>b. b) (odd i_a) (odd i_b) (drop i_a a) (drop i_b b)"
  using assms
proof (induction a b i_a i_b cnt u rule: intersection_loop.induct)
  case (1 a b i_a i_b cnt u)
  show ?case
  proof (cases "i_a < length a \<and> i_b < length b")
    case True
    then have da: "drop i_a a = a ! i_a # drop (Suc i_a) a"
      and db: "drop i_b b = b ! i_b # drop (Suc i_b) b"
      by (simp_all add: Cons_nth_drop_Suc)
    show ?thesis
    proof (cases "a ! i_a < b ! i_b \<or> (a ! i_a = b ! i_b \<and> \<not> ELEMENT_RANGE_MATCHES_INVLIST i_a)")
      case first: True
      obtain c u' where cu: "intersection_take cnt u (a ! i_a) (ELEMENT_RANGE_MATCHES_INVLIST i_a) = (c, u')"
        by fastforce
      have c: "c = of_bool (odd (i_a + 1)) + of_bool (odd i_b)"
        and u': "u' = u @ (if (odd i_a \<and> odd i_b) \<noteq> (\<not> odd i_a \<and> odd i_b) then [a ! i_a] else [])"
        using cu 1(5) by (cases "odd i_a"; cases "odd i_b"; auto simp: intersection_take_def range_matches_defs split: if_splits)+
      have "intersection_loop a b i_a i_b cnt u = intersection_loop a b (i_a + 1) i_b c u'"
        using True first cu by (subst intersection_loop.simps) auto
      moreover have "intersection_rest a b (intersection_loop a b (i_a + 1) i_b c u') =
          u' @ sweep (\<and>) (\<lambda>b. b) (odd (i_a + 1)) (odd i_b) (drop (i_a + 1) a) (drop i_b b)"
        by (rule 1(1) [OF True first cu [symmetric] refl]) (use True c in auto)
      ultimately show ?thesis
        using first unfolding da db u'
        by (subst sweep_a) (auto simp: range_matches_defs)
    next
      case second: False
      obtain c u' where cu: "intersection_take cnt u (b ! i_b) (ELEMENT_RANGE_MATCHES_INVLIST i_b) = (c, u')"
        by fastforce
      have c: "c = of_bool (odd i_a) + of_bool (odd (i_b + 1))"
        and u': "u' = u @ (if (odd i_a \<and> odd i_b) \<noteq> (odd i_a \<and> \<not> odd i_b) then [b ! i_b] else [])"
        using cu 1(5) by (cases "odd i_a"; cases "odd i_b"; auto simp: intersection_take_def range_matches_defs split: if_splits)+
      have "intersection_loop a b i_a i_b cnt u = intersection_loop a b i_a (i_b + 1) c u'"
        using True second cu by (subst intersection_loop.simps) auto
      moreover have "intersection_rest a b (intersection_loop a b i_a (i_b + 1) c u') =
          u' @ sweep (\<and>) (\<lambda>b. b) (odd i_a) (odd (i_b + 1)) (drop i_a a) (drop (i_b + 1) b)"
        by (rule 1(2) [OF True second cu [symmetric] refl]) (use True c in auto)
      ultimately show ?thesis
        using second unfolding da db u'
        by (subst sweep_b) (auto simp: range_matches_defs)
    qed
  next
    case False
    with 1(3,4) consider "i_a = length a" | "i_a < length a" "i_b = length b" by linarith
    moreover have "intersection_loop a b i_a i_b cnt u = (i_a, i_b, cnt, u)"
      using False by (subst intersection_loop.simps) auto
    ultimately show ?thesis
      using 1(4,5) by cases (auto simp: Let_def range_matches_defs sweep_nil2)
  qed
qed

lemma union_array_correct:
  assumes "sorted_wrt (<) a" "sorted_wrt (<) b"
  shows "sorted_wrt (<) (union_array a b)"
    and "in_ranges (union_array a b) cp \<longleftrightarrow> in_ranges a cp \<or> in_ranges b cp"
  using union_loop_sweep [of 0 a 0 b 0 "[]"] union_sweep.sweep_sorted [OF assms]
    union_sweep.sweep_mem [OF assms, of False False cp]
  by (simp_all add: union_array_def)

lemma intersection_array_correct:
  assumes "sorted_wrt (<) a" "sorted_wrt (<) b"
  shows "sorted_wrt (<) (intersection_array a b)"
    and "in_ranges (intersection_array a b) cp \<longleftrightarrow> in_ranges a cp \<and> in_ranges b cp"
  using intersection_loop_sweep [of 0 a 0 b 0 "[]"] intersection_sweep.sweep_sorted [OF assms]
    intersection_sweep.sweep_mem [OF assms, of False False cp]
  by (simp_all add: intersection_array_def)


section \<open>Every operation on the object\<close>

text \<open>\<open>il_holds il xs\<close>: a usable list object whose elements are \<open>xs\<close>.\<close>

definition il_holds :: "invlist \<Rightarrow> u64 list \<Rightarrow> bool" where
  "il_holds il xs \<longleftrightarrow> il_repr il xs \<and> il_owned il"

lemma il_holds_iff: "il_holds il xs \<longleftrightarrow> il_wf il \<and> invlist_array il = xs"
  by (auto simp: il_holds_def il_wf_def il_repr_ok il_repr_array dest: il_ok_repr)

lemma il_wf_holds: "il_wf il \<Longrightarrow> il_holds il (invlist_array il)"
  by (simp add: il_holds_iff)

lemma il_holdsD:
  assumes "il_holds il xs"
  shows "il_wf il" "invlist_array il = xs" "il_ok il" "il_owned il" "sorted_wrt (<) xs"
    "invlist_len il = length xs" "il_set il = {cp. in_ranges xs cp}"
  using assms by (auto simp: il_holds_iff il_wf_def il_set_def invlist_array_sorted
      simp flip: length_invlist_array)

lemma il_holds_append_range:
  assumes "il_holds il xs" "start \<le> fin" "xs = [] \<or> last xs \<le> start \<and> even (length xs)"
  obtains il' where "append_range_to_invlist il start fin = Inr il'"
    "il_holds il' (append_spec xs start fin)"
proof -
  have wf: "il_wf il" and a: "invlist_array il = xs" using assms(1) by (auto simp: il_holds_iff)
  show thesis
    by (rule append_range_repr [OF wf assms(2)]) (use a assms(3) that in \<open>auto simp: il_holds_def\<close>)
qed

lemma il_holds_grow:
  assumes "il_owned il \<or> il = newSV_invlist" "8 * (n + 1) \<le> m"
  shows "il_owned (il_grow il m)" "n + 1 \<le> length (il_buf (il_grow il m))"
proof -
  have "n + 1 \<le> SvGROW (il_svlen il) (8 * il_cur il) m div 8"
    using assms(2) SvGROW_ge [of m "il_svlen il" "8 * il_cur il"]
    by (simp add: less_eq_div_iff_mult_less_eq mult.commute)
  then show "il_owned (il_grow il m)" "n + 1 \<le> length (il_buf (il_grow il m))"
    by (auto simp: il_grow_def il_resize_owned)
qed

lemma il_holds_guts:
  assumes "il_owned il \<or> il = newSV_invlist"
  shows "il_holds (initialize_invlist_guts il n) []"
    and "n + 1 \<le> length (il_buf (initialize_invlist_guts il n))"
  using il_holds_grow [OF assms, of n "8 * (n + 1) + 1"]
  by (auto simp: initialize_invlist_guts_def il_holds_def il_repr_def il_owned_def
      invlist_iterfinish_def invlist_set_len_def)

lemma il_holds_new: "il_holds (new_invlist n) []"
  and new_invlist_room: "nat n + 1 \<le> length (il_buf (new_invlist n))"
  using il_holds_guts [of newSV_invlist 10] il_holds_guts [of newSV_invlist "nat n"]
  by (auto simp: new_invlist_def)

lemma expected_size_ge: "n \<le> expected_size n"
  by (auto simp: expected_size_def round_up8_ge)

lemma il_trim:
  assumes "il_owned il" "il_cur il \<le> length (il_buf il)"
  shows "il_owned (invlist_trim il)" "il_cur (invlist_trim il) = il_cur il"
    "il_offset (invlist_trim il) = il_offset il"
    "il_cur il \<le> length (il_buf (invlist_trim il))"
    "take (il_cur il) (il_buf (invlist_trim il)) = take (il_cur il) (il_buf il)"
proof -
  let ?n = "expected_size (max (max PERL_STRLEN_NEW_MIN (8 * 1 + 1)) (8 * il_cur il + 1))"
  have n: "8 * il_cur il \<le> ?n" "8 \<le> ?n"
    using expected_size_ge [of "max (max PERL_STRLEN_NEW_MIN (8 * 1 + 1)) (8 * il_cur il + 1)"]
    by (auto simp: max_def PERL_STRLEN_NEW_MIN_def split: if_splits)
  have d: "il_cur il \<le> ?n div 8" "?n div 8 \<noteq> 0"
    using n by (simp add: less_eq_div_iff_mult_less_eq mult.commute) (use n in linarith)
  have t: "invlist_trim il = (if il_svlen il > ?n + 4 * PTRSIZE then il_resize il ?n else il)"
    by (simp only: invlist_trim_def Let_def)
  show "il_owned (invlist_trim il)" "il_cur (invlist_trim il) = il_cur il"
    "il_offset (invlist_trim il) = il_offset il"
    "il_cur il \<le> length (il_buf (invlist_trim il))"
    "take (il_cur il) (il_buf (invlist_trim il)) = take (il_cur il) (il_buf il)"
    unfolding t using assms d by (auto simp: il_resize_owned il_resize_take)
qed

lemma il_holds_trim: "il_holds il xs \<Longrightarrow> il_holds (invlist_trim il) xs"
proof -
  assume h: "il_holds il xs"
  then have c: "il_owned il" "il_cur il \<le> length (il_buf il)"
    by (auto simp: il_holds_def il_repr_def)
  note t = il_trim [OF c]
  have "il_buf (invlist_trim il) ! 0 = il_buf il ! 0" if "il_cur il = 1"
    using arg_cong [OF t(5), of "\<lambda>l. l ! 0"] that by simp
  with h t show ?thesis by (auto simp: il_holds_def il_repr_def)
qed

lemma il_holds_clear: "il_owned il \<Longrightarrow> il_holds (invlist_clear il) []"
  unfolding invlist_clear_def
  by (rule il_holds_trim) (simp add: il_holds_def il_repr_def invlist_set_len_def il_owned_def)

lemma il_holds_clone:
  assumes "il_ok il" "\<forall>n. new_il = Some n \<longrightarrow> il_owned n \<or> n = newSV_invlist"
  shows "il_holds (invlist_clone il new_il) (invlist_array il)"
proof -
  define g where "g = (case new_il of None \<Rightarrow> new_invlist (int (invlist_len il))
                    | Some n \<Rightarrow> initialize_invlist_guts n (invlist_len il))"
  have g: "il_owned g" "invlist_len il + 1 \<le> length (il_buf g)"
    using assms(2) il_holds_new [of "int (invlist_len il)"] new_invlist_room [of "int (invlist_len il)"]
      il_holds_guts [of _ "invlist_len il"]
    by (auto simp: g_def il_holds_def split: option.splits)
  have cur: "il_cur il \<le> invlist_len il + 1" by (simp add: invlist_len_def)
  have e: "invlist_clone il new_il = g\<lparr>il_offset := il_offset il,
      il_cur := (if invlist_len il = 0 then 0 else invlist_len il + of_bool (il_offset il)),
      il_buf := take (il_cur il) (il_buf il) @ drop (il_cur il) (il_buf g)\<rparr>"
    by (simp add: invlist_clone_def Let_def g_def invlist_set_len_def)
  have r: "il_repr il (invlist_array il)" using assms(1) by (rule il_ok_repr)
  have l: "length (invlist_array il) = invlist_len il" using assms(1) by simp
  have cl: "il_cur il = invlist_len il + of_bool (il_offset il)" if "invlist_len il \<noteq> 0"
    using that by (auto simp: invlist_len_def split: if_splits)
  have "il_owned (invlist_clone il new_il)"
    using g r cur by (auto simp: e il_owned_def il_repr_def)
  moreover have "il_repr (invlist_clone il new_il) (invlist_array il)"
    using r l cl g cur by (auto simp: e il_repr_def)
  ultimately show ?thesis by (simp add: il_holds_def)
qed

lemma il_holds_replace:
  "il_holds src xs \<Longrightarrow> il_holds (invlist_replace_list_destroys_src dest src) xs"
proof -
  assume h: "il_holds src xs"
  then have l: "invlist_len src = length xs" by (rule il_holdsD)
  have "il_cur src = length xs + of_bool (il_offset src)" if "xs \<noteq> []"
    using that l by (auto simp: invlist_len_def split: if_splits)
  with h l show ?thesis
    by (auto simp: il_holds_def il_repr_def il_owned_def invlist_replace_list_destroys_src_def
        Let_def invlist_set_len_def invlist_iterfinish_def)
qed

lemma complement_array_correct:
  assumes "sorted_wrt (<) xs" "xs \<noteq> []"
  shows "sorted_wrt (<) (complement_array xs)"
    and "in_ranges (complement_array xs) cp \<longleftrightarrow> \<not> in_ranges xs cp"
proof -
  obtain y ys where xs: "xs = y # ys" using assms(2) by (cases xs) auto
  have pos: "0 < z" if "y \<noteq> 0" "z \<in> set xs" for z
    using that assms(1) xs by (auto simp: word_neq_0_conv dest: order.strict_trans)
  show "sorted_wrt (<) (complement_array xs)"
    using assms(1) xs pos by (auto simp: complement_array_def)
  show "in_ranges (complement_array xs) cp \<longleftrightarrow> \<not> in_ranges xs cp"
    using xs by (auto simp: complement_array_def)
qed




lemma length_sweep: "length (sweep f pref ia ib as bs) \<le> length as + length bs"
  by (induction f pref ia ib as bs rule: sweep.induct) auto

lemma length_union_array: "length (union_array a b) \<le> length a + length b"
  using union_loop_sweep [of 0 a 0 b 0 "[]"] length_sweep [of _ _ _ _ a b]
  by (simp add: union_array_def)

lemma length_intersection_array: "length (intersection_array a b) \<le> length a + length b"
  using intersection_loop_sweep [of 0 a 0 b 0 "[]"] length_sweep [of _ _ _ _ a b]
  by (simp add: intersection_array_def)

lemma in_ranges_zero:
  assumes "sorted_wrt (<) xs"
  shows "in_ranges xs 0 \<longleftrightarrow> xs \<noteq> [] \<and> xs ! 0 = 0"
proof (cases xs)
  case (Cons y ys)
  with assms have "\<not> in_ranges ys 0" by (intro in_ranges_below) (auto intro: le_less_trans [of 0 y])
  with Cons show ?thesis by auto
qed simp

lemma il_holds_finish:
  assumes "length xs \<le> n" "sorted_wrt (<) xs" "xs \<noteq> [] \<Longrightarrow> h \<longleftrightarrow> xs ! 0 = 0"
  shows "il_holds (finish_list (invlist_array_init (new_invlist (int n)) h) xs) xs"
proof -
  define u where "u = arr_write (invlist_array_init (new_invlist (int n)) h) xs"
  have g: "il_owned (new_invlist (int n))" "n + 1 \<le> length (il_buf (new_invlist (int n)))"
    using il_holds_new [of "int n"] new_invlist_room [of "int n"] by (auto simp: il_holds_def)
  have len: "length (il_buf u) = length (il_buf (new_invlist (int n)))"
    using g assms(1) by (auto simp: u_def arr_write_def invlist_array_init_def Let_def)
  have own: "il_owned u"
    using g len by (auto simp: u_def arr_write_def invlist_array_init_def Let_def il_owned_def)
  have off: "il_offset u = (\<not> h)" "il_cur u = 0"
    using il_holds_new [of "int n"] new_invlist_def [of "int n"]
    by (auto simp: u_def arr_write_def invlist_array_init_def Let_def il_holds_def
        initialize_invlist_guts_def invlist_iterfinish_def invlist_set_len_def)
  have t: "take (length xs + of_bool (\<not> h)) (il_buf u) = il_phys (\<not> h) xs"
    using g assms(1) by (cases "il_buf (new_invlist (int n))")
      (auto simp: u_def arr_write_def invlist_array_init_def Let_def il_phys_def)
  have e: "finish_list (invlist_array_init (new_invlist (int n)) h) xs =
      (if xs \<noteq> [] then invlist_trim (invlist_set_len u (length xs) (\<not> h)) else u)"
    using off by (simp add: finish_list_def Let_def u_def [symmetric] invlist_len_def)
  show ?thesis
  proof (cases "xs = []")
    case True
    with own off show ?thesis unfolding e by (simp add: il_holds_def il_repr_def)
  next
    case False
    have "il_holds (invlist_set_len u (length xs) (\<not> h)) xs"
      using own off t False assms len g
      by (auto simp: il_holds_def il_repr_def invlist_set_len_def il_owned_def hd_conv_nth)
    then show ?thesis using False unfolding e by (simp add: il_holds_trim)
  qed
qed

text \<open>The operand sets, with a null first operand as the empty set.\<close>

definition opt_set :: "invlist option \<Rightarrow> u64 set" where
  "opt_set a = (case a of None \<Rightarrow> {} | Some a \<Rightarrow> il_set a)"

definition second_set :: "invlist \<Rightarrow> bool \<Rightarrow> u64 set" where
  "second_set b complement_b = (if complement_b then - il_set b else il_set b)"

definition args_ok :: "invlist option \<Rightarrow> invlist \<Rightarrow> out_arg \<Rightarrow> bool" where
  "args_ok a b output \<longleftrightarrow> il_wf b \<and> (case a of None \<Rightarrow> output \<noteq> OutA | Some a \<Rightarrow> il_wf a)
     \<and> (case output of Out l \<Rightarrow> il_wf l | _ \<Rightarrow> True)"

lemma invlist_array_Nil: "il_ok il \<Longrightarrow> invlist_array il = [] \<longleftrightarrow> invlist_len il = 0"
  by (metis length_0_conv length_invlist_array)

lemma il_set_empty: "invlist_len il = 0 \<Longrightarrow> il_ok il \<Longrightarrow> il_set il = {}"
  using invlist_array_Nil [of il] by (simp add: il_set_def)

lemma append_all:
  obtains e where "append_range_to_invlist (new_invlist n) 0 UV_MAX = Inr e" "il_holds e [0]"
  using il_holds_append_range [OF il_holds_new, of 0 UV_MAX n]
  by (auto simp: append_spec_def range_list_def)

lemma invlist_invert_correct:
  assumes "il_wf il"
  obtains r where "invlist_invert il = Inr r" "il_wf r" "il_set r = - il_set il"
proof (cases "invlist_len il = 0")
  case True
  have h: "il_holds il []"
    using il_wf_holds [OF assms] True il_wfD [OF assms] invlist_array_Nil [of il] by simp
  obtain r where "append_range_to_invlist il 0 UV_MAX = Inr r" "il_holds r [0]"
    using il_holds_append_range [OF h, of 0 UV_MAX] by (auto simp: append_spec_def range_list_def)
  with True that [of r] il_holdsD [of r "[0]"] il_holdsD(7) [OF h] show thesis
    by (auto simp: invlist_invert_def)
next
  case False
  let ?xs = "invlist_array il" and ?r = "il\<lparr>il_offset := \<not> il_offset il\<rparr>"
  have h: "il_holds il ?xs" using assms by (rule il_wf_holds)
  have ne: "?xs \<noteq> []" using False il_holdsD(6) [OF h] by auto
  have phys: "take (il_cur il) (il_buf il) = il_phys (il_offset il) ?xs"
    and c: "il_cur il \<le> length (il_buf il)" and hd: "il_offset il \<longleftrightarrow> hd ?xs \<noteq> 0"
    using h ne by (auto simp: il_holds_def il_repr_def)
  have cur: "il_cur il = length ?xs + of_bool (il_offset il)"
    using arg_cong [OF phys, of length] c by simp
  have ca: "complement_array ?xs = (if il_offset il then 0 # ?xs else tl ?xs)"
    using hd ne by (auto simp: complement_array_def hd_conv_nth)
  have s: "sorted_wrt (<) ?xs" using h by (rule il_holdsD)
  have s': "sorted_wrt (<) (complement_array ?xs)" using complement_array_correct(1) [OF s ne] .
  have "il_holds ?r (complement_array ?xs)"
  proof (cases "complement_array ?xs = []")
    case True
    then have "\<not> il_offset il" "length ?xs = 1" using ca ne
      by (auto split: if_splits) (cases ?xs; auto)
    moreover have "il_buf il ! 0 = 0"
      using assms False by (auto simp: il_wf_def il_ok_def invlist_len_def split: if_splits)
    ultimately show ?thesis
      using True cur c h by (auto simp: il_holds_def il_repr_def il_owned_def)
  next
    case ne': False
    have "take (il_cur il) (il_buf il) = il_phys (\<not> il_offset il) (complement_array ?xs)"
      using phys ca hd ne by (cases ?xs) (auto simp: il_phys_def)
    moreover have "(\<not> il_offset il) \<longleftrightarrow> hd (complement_array ?xs) \<noteq> 0"
      using ca hd ne ne' s by (cases ?xs; cases "tl ?xs") (auto simp: word_neq_0_conv intro: le_less_trans [OF word_zero_le])
    ultimately show ?thesis
      using ne' s' c h by (auto simp: il_holds_def il_repr_def il_owned_def)
  qed
  then show thesis
    using that [of ?r] False il_holdsD complement_array_correct(2) [OF s ne]
    by (auto simp: invlist_invert_def il_set_def)
qed


lemma out_list_owned: "args_ok a b output \<Longrightarrow> output \<noteq> OutNull \<Longrightarrow> il_owned (out_list a b output)"
  by (auto simp: args_ok_def out_list_def il_wf_def split: out_arg.splits option.splits)

lemma first_merge:
  assumes "il_wf a"
  shows "sorted_wrt (<) (invlist_array a)" "il_set a = {cp. in_ranges (invlist_array a) cp}"
  using assms by (auto simp: il_wf_def invlist_array_sorted il_set_def)

lemma second_merge:
  fixes complement_b :: bool
  assumes "il_wf b" "invlist_len b \<noteq> 0"
    and "xb = (if complement_b then complement_array (invlist_array b) else invlist_array b)"
  shows "sorted_wrt (<) xb" "second_set b complement_b = {cp. in_ranges xb cp}"
proof -
  have "invlist_array b \<noteq> []" "sorted_wrt (<) (invlist_array b)"
    using assms(1,2) by (auto simp: invlist_array_Nil il_wf_def invlist_array_sorted)
  then show "sorted_wrt (<) xb" "second_set b complement_b = {cp. in_ranges xb cp}"
    using complement_array_correct [of "invlist_array b"]
    by (auto simp: assms(3) second_set_def il_set_def)
qed

lemma out_cases:
  assumes "il_holds u xs"
  shows "il_holds (if output = OutNull then u else invlist_replace_list_destroys_src old u) xs"
  using assms il_holds_replace by simp

lemma union_holds:
  assumes ok: "args_ok a b output"
  obtains u xs where "invlist_union_maybe_complement_2nd a b complement_b output = Inr u"
    "il_holds u xs" "{cp. in_ranges xs cp} = opt_set a \<union> second_set b complement_b"
proof -
  have wb: "il_wf b" "il_ok b" using ok by (auto simp: args_ok_def il_wf_def)
  have wa: "il_wf x" "il_ok x" if "a = Some x" for x
    using ok that by (auto simp: args_ok_def il_wf_def)
  let ?old = "out_list a b output"
  have clr: "il_holds (if output = OutNull then new_invlist 0 else invlist_clear ?old) []"
    using out_list_owned [OF ok] by (simp add: il_holds_new il_holds_clear)
  show thesis
  proof (cases "invlist_len b = 0")
    case b0: True
    then have sb: "il_set b = {}" using wb by (simp add: il_set_empty)
    show thesis
    proof (cases complement_b)
      case True
      obtain e where e: "append_range_to_invlist (new_invlist 2) 0 UV_MAX = Inr e" "il_holds e [0]"
        by (rule append_all)
      show thesis
        by (rule that [OF _ out_cases [OF e(2)]])
          (use b0 True e(1) sb in \<open>auto simp: invlist_union_maybe_complement_2nd_def second_set_def\<close>)
    next
      case nc: False
      show thesis
      proof (cases "\<exists>x. a = Some x \<and> invlist_len x \<noteq> 0")
        case True
        then obtain x where x: "a = Some x" "invlist_len x \<noteq> 0" by blast
        have h: "il_holds (invlist_clone x None) (invlist_array x)"
          using wa [OF x(1)] by (intro il_holds_clone) auto
        have s: "{cp. in_ranges (invlist_array x) cp} = opt_set a \<union> second_set b complement_b"
          using x sb nc by (simp add: opt_set_def second_set_def il_set_def)
        show thesis
        proof (cases "output = OutA")
          case True
          show thesis
            by (rule that [OF _ il_wf_holds [OF wa(1) [OF x(1)]] s])
              (use x b0 nc True in \<open>auto simp: invlist_union_maybe_complement_2nd_def Let_def\<close>)
        next
          case False
          show thesis
            by (rule that [OF _ out_cases [OF h] s])
              (use x b0 nc False in \<open>auto simp: invlist_union_maybe_complement_2nd_def Let_def\<close>)
        qed
      next
        case False
        then have "opt_set a = {}" using wa
          by (auto simp: opt_set_def il_set_empty split: option.splits)
        show thesis
          by (rule that [OF _ clr])
            (use b0 nc False sb \<open>opt_set a = {}\<close> in
              \<open>auto simp: invlist_union_maybe_complement_2nd_def Let_def second_set_def split: option.splits\<close>)
      qed
    qed
  next
    case b1: False
    show thesis
    proof (cases "case a of None \<Rightarrow> True | Some a \<Rightarrow> invlist_len a = 0")
      case a0: True
      then have sa: "opt_set a = {}" using wa
        by (auto simp: opt_set_def il_set_empty split: option.splits)
      have h: "il_holds (invlist_clone b None) (invlist_array b)"
        using wb by (intro il_holds_clone) auto
      have "\<exists>u. (if complement_b then invlist_invert (invlist_clone b None)
                 else Inr (invlist_clone b None)) = Inr u \<and> il_wf u \<and> il_set u = second_set b complement_b"
      proof (cases complement_b)
        case True
        then show ?thesis using invlist_invert_correct [OF il_holdsD(1) [OF h]] il_holdsD(7) [OF h]
          by (metis il_set_def second_set_def)
      next
        case False
        then show ?thesis using il_holdsD [OF h] by (simp add: second_set_def il_set_def)
      qed
      then obtain u where u: "(if complement_b then invlist_invert (invlist_clone b None)
                 else Inr (invlist_clone b None)) = Inr u" "il_wf u" "il_set u = second_set b complement_b"
        by blast
      show thesis
        by (rule that [OF _ out_cases [OF il_wf_holds [OF u(2)]]])
          (use a0 b1 u sa in \<open>auto simp: invlist_union_maybe_complement_2nd_def Let_def il_set_def\<close>)
    next
      case a1: False
      then obtain x where x: "a = Some x" "invlist_len x \<noteq> 0" by (auto split: option.splits)
      define xa where "xa = invlist_array x"
      define xb where "xb = (if complement_b then complement_array (invlist_array b) else invlist_array b)"
      note ma = first_merge [OF wa(1) [OF x(1)], folded xa_def] and mb = second_merge [OF wb(1) b1 xb_def]
      note m = ma(1) mb(1) ma(2) mb(2)
      have z: "(length xa > 0 \<and> xa ! 0 = 0) \<or> (length xb > 0 \<and> xb ! 0 = 0) \<longleftrightarrow> union_array xa xb ! 0 = 0"
        if "union_array xa xb \<noteq> []"
        using that in_ranges_zero [OF m(1)] in_ranges_zero [OF m(2)]
          in_ranges_zero [OF union_array_correct(1) [OF m(1,2)]] union_array_correct(2) [OF m(1,2), of 0]
        by auto
      have h: "il_holds (finish_list (invlist_array_init (new_invlist (int (length xa + length xb)))
          ((length xa > 0 \<and> xa ! 0 = 0) \<or> (length xb > 0 \<and> xb ! 0 = 0))) (union_array xa xb)) (union_array xa xb)"
        by (rule il_holds_finish [OF length_union_array union_array_correct(1) [OF m(1,2)] z])
      have s: "{cp. in_ranges (union_array xa xb) cp} = opt_set a \<union> second_set b complement_b"
        using m union_array_correct(2) [OF m(1,2)] x by (auto simp: opt_set_def)
      show thesis
        by (rule that [OF _ out_cases [OF h, of "output" "?old"] s])
          (use x b1 in \<open>simp add: invlist_union_maybe_complement_2nd_def Let_def xa_def [symmetric] xb_def [symmetric]\<close>)
    qed
  qed
qed

lemma intersection_holds:
  assumes ok: "args_ok a b output"
  obtains xs where "il_holds (invlist_intersection_maybe_complement_2nd a b complement_b output) xs"
    "{cp. in_ranges xs cp} = opt_set a \<inter> second_set b complement_b"
proof -
  have wb: "il_wf b" "il_ok b" using ok by (auto simp: args_ok_def il_wf_def)
  have wa: "il_wf x" "il_ok x" if "a = Some x" for x
    using ok that by (auto simp: args_ok_def il_wf_def)
  let ?old = "out_list a b output"
  let ?res = "invlist_intersection_maybe_complement_2nd a b complement_b output"
  have clr: "il_holds (if output = OutNull then new_invlist 0 else invlist_clear ?old) []"
    using out_list_owned [OF ok] by (simp add: il_holds_new il_holds_clear)
  show thesis
  proof (cases "(case a of None \<Rightarrow> 0 | Some a \<Rightarrow> invlist_len a) = 0 \<or> invlist_len b = 0")
    case e: True
    show thesis
    proof (cases "(case a of None \<Rightarrow> 0 | Some a \<Rightarrow> invlist_len a) \<noteq> 0 \<and> complement_b")
      case True
      then obtain x where x: "a = Some x" "invlist_len x \<noteq> 0" complement_b
        by (auto split: option.splits)
      then have b0: "invlist_len b = 0" using e by simp
      have h: "il_holds (invlist_clone x None) (invlist_array x)"
        using wa [OF x(1)] by (intro il_holds_clone) auto
      have "?res = (if output = OutA then x else if output = OutNull then invlist_clone x None
          else invlist_replace_list_destroys_src ?old (invlist_clone x None))"
        using x b0 by (auto simp: invlist_intersection_maybe_complement_2nd_def Let_def)
      then have "il_holds ?res (invlist_array x)"
        using il_wf_holds [OF wa(1) [OF x(1)]] h il_holds_replace by simp
      then show thesis
      proof (rule that)
        have "il_set b = {}" using b0 wb by (simp add: il_set_empty)
        then show "{cp. in_ranges (invlist_array x) cp} = opt_set a \<inter> second_set b complement_b"
          using x by (simp add: opt_set_def second_set_def il_set_def)
      qed
    next
      case False
      have "?res = (if output = OutNull then new_invlist 0 else invlist_clear ?old)"
        using e False by (auto simp: invlist_intersection_maybe_complement_2nd_def Let_def)
      moreover have "opt_set a \<inter> second_set b complement_b = {}"
        using e False wa wb by (auto simp: opt_set_def second_set_def il_set_empty split: option.splits if_splits)
      ultimately show thesis using that [of "[]"] clr by simp
    qed
  next
    case False
    then obtain x where x: "a = Some x" "invlist_len x \<noteq> 0" and b1: "invlist_len b \<noteq> 0"
      by (auto split: option.splits)
    define xa where "xa = invlist_array x"
    define xb where "xb = (if complement_b then complement_array (invlist_array b) else invlist_array b)"
    note ma = first_merge [OF wa(1) [OF x(1)], folded xa_def] and mb = second_merge [OF wb(1) b1 xb_def]
      note m = ma(1) mb(1) ma(2) mb(2)
    let ?xs = "intersection_array xa xb"
    have z: "length xa > 0 \<and> xa ! 0 = 0 \<and> length xb > 0 \<and> xb ! 0 = 0 \<longleftrightarrow> ?xs ! 0 = 0"
      if "?xs \<noteq> []"
      using that in_ranges_zero [OF m(1)] in_ranges_zero [OF m(2)]
        in_ranges_zero [OF intersection_array_correct(1) [OF m(1,2)]]
        intersection_array_correct(2) [OF m(1,2), of 0] by auto
    let ?r = "finish_list (invlist_array_init (new_invlist (int (length xa + length xb)))
        (length xa > 0 \<and> xa ! 0 = 0 \<and> length xb > 0 \<and> xb ! 0 = 0)) ?xs"
    have h: "il_holds ?r ?xs"
      by (rule il_holds_finish [OF length_intersection_array intersection_array_correct(1) [OF m(1,2)] z])
    have s: "{cp. in_ranges ?xs cp} = opt_set a \<inter> second_set b complement_b"
      using m intersection_array_correct(2) [OF m(1,2)] x by (auto simp: opt_set_def)
    have "?res = (if output = OutNull then ?r
           else if ?xs \<noteq> [] then invlist_replace_list_destroys_src ?old ?r else invlist_clear ?old)"
      using x b1 by (simp add: invlist_intersection_maybe_complement_2nd_def Let_def
          xa_def [symmetric] xb_def [symmetric])
    then have "il_holds ?res ?xs"
      using h il_holds_replace [OF h] clr by (auto split: if_splits)
    then show thesis using that s by blast
  qed
qed


end
