(* ===== verification/Invlist_Edit.thy ===== *)
theory Invlist_Edit
  imports Invlist_Ops
begin

text \<open>
  Insertion into an inversion list: \<open>add_range_to_invlist_\<close>, \<open>add_cp_to_invlist\<close>,
  \<open>setup_canned_invlist_\<close> and the conversions from and to bitmaps.

  The C function edits the list through a local pointer \<open>array\<close>.  The model hands the memory
  behind that pointer (the buffer from the first element on, spare room included) to
  \<open>add_range_merge\<close>, which returns it edited together with the new length, and stores it back.
\<close>

section \<open>The memory behind the array pointer\<close>

definition arr_view :: "invlist \<Rightarrow> u64 list" where
  "arr_view il = drop (of_bool (il_offset il)) (il_buf il)"

definition arr_put :: "invlist \<Rightarrow> u64 list \<Rightarrow> invlist" where
  "arr_put il array = il\<lparr>il_buf := take (of_bool (il_offset il)) (il_buf il) @ array\<rparr>"

text \<open>\<open>Move (array + src, array + dst, n, UV)\<close>\<close>

definition Move :: "'a list \<Rightarrow> nat \<Rightarrow> nat \<Rightarrow> nat \<Rightarrow> 'a list" where
  "Move array src dst n = take dst array @ take n (drop src array) @ drop (dst + n) array"

section \<open>Adding a range\<close>

text \<open>How the code goes on: the list is final with a length, or room for two elements is needed.\<close>

datatype merge_result = SetLen "u64 list" nat | SpliceAt "u64 list" nat u64

text \<open>The end of the new range, once its start lies in a range of the set.\<close>

definition add_range_end ::
  "u64 list \<Rightarrow> nat \<Rightarrow> nat \<Rightarrow> nat \<Rightarrow> u64 \<Rightarrow> u64 \<Rightarrow> merge_result" where
  "add_range_end array len i_s i_e start fin =
     (if fin = UV_MAX then SetLen array (i_s + 1)
      else
        let (array, i_e) =
          (if \<not> ELEMENT_RANGE_MATCHES_INVLIST i_e then
             if fin + 1 = array ! (i_e + 1) then (array[i_e + 1 := start], i_e + 1)
             else if start \<le> array ! i_e then (array[i_e := fin + 1], i_e - 1)
             else (array, i_e)
           else (array, i_e))
        in if i_s = i_e then
             if ELEMENT_RANGE_MATCHES_INVLIST i_s then SetLen array len
             else SpliceAt array (i_e + 1) start
           else SetLen (Move array (i_e + 1) (i_s + 1) (len - i_e - 1)) (len + i_s - i_e))"

definition add_range_merge ::
  "u64 list \<Rightarrow> nat \<Rightarrow> nat \<Rightarrow> nat \<Rightarrow> u64 \<Rightarrow> u64 \<Rightarrow> merge_result" where
  "add_range_merge array len i_s i_e start fin =
     (if \<not> ELEMENT_RANGE_MATCHES_INVLIST i_s then
        let extends_the_range_above = (fin = UV_MAX \<or> fin + 1 \<ge> array ! (i_s + 1)) in
        if start = array ! i_s then
          if i_e \<le> i_s + 1 \<and> extends_the_range_above
          then SetLen (Move array (i_s + 2) i_s (len - i_s - 2)) (len - 2)
          else
            let i_e = (if i_e \<le> i_s + 1 then i_e - 1 else i_e);
                array = array[i_s := (if fin = UV_MAX then UV_MAX else fin + 1)];
                i_s = i_s - 1
            in add_range_end array len i_s i_e (array ! i_s) fin
        else if extends_the_range_above then
          let i_e = (if i_e = i_s then i_e + 1 else i_e);
              i_s = i_s + 1
          in add_range_end (array[i_s := start]) len i_s i_e start fin
        else add_range_end array len i_s i_e start fin
      else add_range_end array len i_s i_e start fin)"

text \<open>The label \<open>splice_in_new_range\<close>, for the slots \<open>at\<close> and \<open>at + 1\<close>.\<close>

definition splice_in_new_range :: "invlist \<Rightarrow> nat \<Rightarrow> nat \<Rightarrow> u64 \<Rightarrow> u64 \<Rightarrow> invlist" where
  "splice_in_new_range il len at start fin =
     (let il = invlist_extend il (len + 2);
          array = Move (arr_view il) at (at + 2) (len - at)
      in invlist_set_len (arr_put il (array[at := start, at + 1 := fin + 1])) (len + 2) (il_offset il))"

definition add_range_rest :: "invlist \<Rightarrow> nat \<Rightarrow> nat \<Rightarrow> nat \<Rightarrow> u64 \<Rightarrow> u64 \<Rightarrow> invlist" where
  "add_range_rest il len i_s i_e start fin =
     (let (i_e, il) =
        (if i_e = 0 then
           if start = fin then (i_s, il)
           else (let (i, il) = invlist_search il fin in (nat i, il))
         else (i_e, il))
      in case add_range_merge (arr_view il) len i_s i_e start fin of
           SetLen array n \<Rightarrow> invlist_set_len (arr_put il array) n (il_offset il)
         | SpliceAt array at start \<Rightarrow> splice_in_new_range (arr_put il array) len at start fin)"

text \<open>The middle of the function: prepend, or find where \<open>start\<close> lies.\<close>

definition add_range_locate :: "invlist \<Rightarrow> nat \<Rightarrow> nat \<Rightarrow> u64 \<Rightarrow> u64 \<Rightarrow> il_error + invlist" where
  "add_range_locate il len i_e start fin =
     (if start < arr_get il 0 then
        if start = 0 then
          attempt (append_range_to_invlist (new_invlist 2) start fin) (\<lambda>range_invlist.
            invlist_union (Some il) range_invlist OutA)
        else if fin < arr_get il 0 - 1 then Inr (splice_in_new_range il len 0 start fin)
        else Inr (add_range_rest (arr_set il 0 start) len 0 i_e start fin)
      else
        let (i_s, il) = invlist_search il start
        in Inr (add_range_rest il len (nat i_s) i_e start fin))"

definition add_range_to_invlist :: "invlist option \<Rightarrow> u64 \<Rightarrow> u64 \<Rightarrow> il_error + invlist" where
  "add_range_to_invlist invlist start fin =
     (case invlist of
        None \<Rightarrow> append_range_to_invlist (new_invlist 2) start fin
      | Some il \<Rightarrow>
          let len = invlist_len il in
          if len = 0 then append_range_to_invlist il start fin
          else
            let cur_highest = invlist_highest il in
            if fin > cur_highest then
              if start > cur_highest then append_range_to_invlist il start fin
              else
                attempt (append_range_to_invlist il (cur_highest + 1) fin) (\<lambda>il.
                  add_range_locate il len (if fin = UV_MAX then len else len - 2) start fin)
            else add_range_locate il len 0 start fin)"

definition add_cp_to_invlist :: "invlist option \<Rightarrow> u64 \<Rightarrow> il_error + invlist" where
  "add_cp_to_invlist il cp = add_range_to_invlist il cp cp"

text \<open>The list and the pointer to its second element, where the caller puts the other elements.\<close>

definition setup_canned_invlist :: "nat \<Rightarrow> u64 \<Rightarrow> il_error + invlist" where
  "setup_canned_invlist n element0 =
     attempt (add_cp_to_invlist (Some (new_invlist (int n))) element0)
       (\<lambda>il. Inr (invlist_set_len il n (il_offset il)))"

section \<open>The list a new range leaves\<close>

text \<open>
  The first \<open>p\<close> elements, the start of the range when it lies outside the set, its end likewise,
  and the elements from \<open>q\<close> on.
\<close>

definition spliced :: "u64 list \<Rightarrow> nat \<Rightarrow> nat \<Rightarrow> u64 \<Rightarrow> u64 \<Rightarrow> u64 list" where
  "spliced xs p q s e =
     take p xs @ (if even p then [s] else []) @
       (if e = UV_MAX then [] else (if even q then [e + 1] else []) @ drop q xs)"

definition splice_ok :: "u64 list \<Rightarrow> nat \<Rightarrow> nat \<Rightarrow> u64 \<Rightarrow> u64 \<Rightarrow> bool" where
  "splice_ok xs p q s e \<longleftrightarrow> p \<le> length xs \<and>
     (p > 0 \<longrightarrow> xs ! (p - 1) \<le> s \<and> (even p \<longrightarrow> xs ! (p - 1) < s)) \<and>
     (p < length xs \<longrightarrow> s \<le> xs ! p) \<and>
     (e \<noteq> UV_MAX \<longrightarrow> p \<le> q \<and> q \<le> length xs \<and>
        (q > 0 \<longrightarrow> xs ! (q - 1) \<le> e + 1) \<and>
        (q < length xs \<longrightarrow> e + 1 \<le> xs ! q \<and> (even q \<longrightarrow> e + 1 < xs ! q)))"

lemma sorted_below:
  fixes xs :: "u64 list"
  assumes "sorted_wrt (<) xs" "p \<le> length xs" "x \<in> set (take p xs)"
  shows "x \<le> xs ! (p - 1)"
proof -
  obtain i where i: "i < p" "x = xs ! i" using assms(3) by (auto simp: in_set_conv_nth)
  then show ?thesis using assms(1,2)
    by (cases "i = p - 1") (auto simp: sorted_wrt_iff_nth_less intro: less_imp_le)
qed

lemma sorted_above:
  fixes xs :: "u64 list"
  assumes "sorted_wrt (<) xs" "x \<in> set (drop q xs)"
  shows "q < length xs \<and> xs ! q \<le> x"
proof -
  obtain i where i: "i < length xs - q" "x = xs ! (q + i)" using assms(2)
    by (auto simp: in_set_conv_nth)
  then show ?thesis using assms(1)
    by (cases "i = 0") (auto simp: sorted_wrt_iff_nth_less intro: less_imp_le)
qed

lemma splice_okD:
  assumes "sorted_wrt (<) xs" "splice_ok xs p q s e"
  shows "\<forall>x\<in>set (take p xs). x \<le> s \<and> (even p \<longrightarrow> x < s)" "\<forall>x\<in>set (drop p xs). s \<le> x" "p \<le> length xs"
    "e \<noteq> UV_MAX \<longrightarrow> p \<le> q \<and> q \<le> length xs \<and> (\<forall>x\<in>set (take q xs). x \<le> e + 1) \<and> (\<forall>x\<in>set (drop q xs). e + 1 \<le> x \<and> (even q \<longrightarrow> e + 1 < x))"
proof -
  have p: "p \<le> length xs" using assms(2) by (simp add: splice_ok_def)
  show "p \<le> length xs" by (rule p)
  show "\<forall>x\<in>set (take p xs). x \<le> s \<and> (even p \<longrightarrow> x < s)"
  proof
    fix x assume x: "x \<in> set (take p xs)"
    then have "p > 0" by (cases p) auto
    with sorted_below [OF assms(1) p x] assms(2)
    show "x \<le> s \<and> (even p \<longrightarrow> x < s)" unfolding splice_ok_def by (meson le_less_trans order.trans)
  qed
  show "\<forall>x\<in>set (drop p xs). s \<le> x"
    using sorted_above [OF assms(1)] assms(2) unfolding splice_ok_def by (meson order.trans)
  show "e \<noteq> UV_MAX \<longrightarrow> p \<le> q \<and> q \<le> length xs \<and> (\<forall>x\<in>set (take q xs). x \<le> e + 1) \<and> (\<forall>x\<in>set (drop q xs). e + 1 \<le> x \<and> (even q \<longrightarrow> e + 1 < x))"
  proof (intro impI conjI ballI)
    assume e: "e \<noteq> UV_MAX"
    with assms(2) show q: "q \<le> length xs" "p \<le> q" by (simp_all add: splice_ok_def)
    { fix x assume x: "x \<in> set (take q xs)"
      then have "q > 0" by (cases q) auto
      with sorted_below [OF assms(1) q(1) x] assms(2) e
      show "x \<le> e + 1" unfolding splice_ok_def by (meson order.trans) }
    { fix x assume x: "x \<in> set (drop q xs)"
      with sorted_above [OF assms(1) x] assms(2) e
      show "e + 1 \<le> x" "even q \<Longrightarrow> e + 1 < x" unfolding splice_ok_def by (meson less_le_trans order.trans)+ }
  qed
qed

lemma spliced_sorted:
  assumes "sorted_wrt (<) xs" "splice_ok xs p q s e" "s \<le> e"
  shows "sorted_wrt (<) (spliced xs p q s e)"
proof -
  note d = splice_okD [OF assms(1,2)]
  have srt: "sorted_wrt (<) (take p xs)" "sorted_wrt (<) (drop q xs)"
    using assms(1) by (simp_all add: sorted_wrt_take sorted_wrt_drop)
  show ?thesis
  proof (cases "e = UV_MAX")
    case True
    with srt d show ?thesis by (auto simp: spliced_def sorted_wrt_append)
  next
    case False
    have se: "s < e + 1" using assms(3) False by (simp add: word_less_plus_one)
    have "x < e + 1" if "x \<in> set (take p xs)" for x using d(1) that se by (meson le_less_trans)
    moreover have "x < y" if "x \<in> set (take p xs)" "y \<in> set (drop q xs)" for x y
      using d(1,4) that se False by (meson le_less_trans less_le_trans)
    moreover have "s < y" if "y \<in> set (drop q xs)" for y
      using d(4) that se False by (meson less_le_trans)
    ultimately show ?thesis using srt d se False
      by (auto simp: spliced_def sorted_wrt_append)
  qed
qed

lemma spliced_mem:
  assumes "sorted_wrt (<) xs" "splice_ok xs p q s e" "s \<le> e"
  shows "in_ranges (spliced xs p q s e) cp \<longleftrightarrow> in_ranges xs cp \<or> s \<le> cp \<and> cp \<le> e"
proof -
  note d = splice_okD [OF assms(1,2)]
  have split: "il_rank xs cp = il_rank (take k xs) cp + il_rank (drop k xs) cp" for k
    by (metis append_take_drop_id il_rank_append)
  have below: "il_rank (drop p xs) cp = 0" if "cp < s"
    using d(2) that by (intro il_rank_eq_0) (auto intro: less_le_trans)
  have atp: "il_rank (take p xs) cp = p" if "s \<le> cp"
  proof -
    have "\<forall>x\<in>set (take p xs). x \<le> cp" using d(1) that by (meson order.trans)
    then show ?thesis using d(3) by (simp add: il_rank_eq_length)
  qed
  have above: "il_rank (drop q xs) cp = 0" if "cp \<le> e" "e \<noteq> UV_MAX"
  proof (rule il_rank_eq_0)
    have "cp < e + 1" using that by (simp add: word_less_plus_one)
    with d(4) that show "\<forall>x\<in>set (drop q xs). cp < x" by (meson less_le_trans)
  qed
  have atq: "il_rank (take q xs) cp = q" if "e < cp" "e \<noteq> UV_MAX"
  proof -
    have "e + 1 \<le> cp" using that by (simp add: word_plus_one_le)
    with d(4) that have "\<forall>x\<in>set (take q xs). x \<le> cp" "q \<le> length xs" by (meson order.trans)+
    then show ?thesis by (simp add: il_rank_eq_length)
  qed
  have e: "e = UV_MAX \<Longrightarrow> cp \<le> e" by simp
  consider "cp < s" "\<not> s \<le> cp" "cp \<le> e" | "s \<le> cp" "cp \<le> e" | "e < cp" "s \<le> cp" "\<not> cp \<le> e" "e \<noteq> UV_MAX"
  proof -
    show thesis if "\<lbrakk>cp < s; \<not> s \<le> cp; cp \<le> e\<rbrakk> \<Longrightarrow> thesis" "\<lbrakk>s \<le> cp; cp \<le> e\<rbrakk> \<Longrightarrow> thesis"
      "\<lbrakk>e < cp; s \<le> cp; \<not> cp \<le> e; e \<noteq> UV_MAX\<rbrakk> \<Longrightarrow> thesis"
    proof (cases "s \<le> cp")
      case True
      then show thesis
      proof (cases "cp \<le> e")
        case gt: False
        then have "e \<noteq> UV_MAX" by auto
        with gt that(3) True show thesis by (simp add: not_le)
      qed (rule that(2) [OF True])
    next
      case False
      with assms(3) that(1) show thesis by (simp add: not_le)
    qed
  qed
  then show ?thesis
  proof cases
    case 1
    then have "\<not> e + 1 \<le> cp" if "e \<noteq> UV_MAX" using that by (simp add: word_plus_one_le)
    then show ?thesis using 1 below above split [of p]
      by (cases "e = UV_MAX") (simp_all add: spliced_def in_ranges_def)
  next
    case 2
    then have "\<not> e + 1 \<le> cp" if "e \<noteq> UV_MAX" using that by (simp add: word_plus_one_le)
    then show ?thesis using 2 atp above
      by (cases "e = UV_MAX") (simp_all add: spliced_def in_ranges_def)
  next
    case 3
    then have "e + 1 \<le> cp" by (simp add: word_plus_one_le)
    then show ?thesis using 3 atp atq split [of q]
      by (simp add: spliced_def in_ranges_def)
  qed
qed



section \<open>The edit computes that list\<close>

lemma length_Move: "src + n \<le> length array \<Longrightarrow> dst \<le> src \<Longrightarrow> length (Move array src dst n) = length array"
  by (simp add: Move_def)

lemma take_Move:
  "dst \<le> src \<Longrightarrow> src \<le> len \<Longrightarrow> len \<le> length array \<Longrightarrow>
   take (dst + (len - src)) (Move array src dst (len - src)) = take dst array @ drop src (take len array)"
proof -
  assume a: "dst \<le> src" "src \<le> len" "len \<le> length array"
  have "Move array src dst (len - src) =
    (take dst array @ drop src (take len array)) @ drop (dst + (len - src)) array"
    using a by (simp add: Move_def drop_take)
  moreover have "length (take dst array @ drop src (take len array)) = dst + (len - src)"
    using a by simp
  ultimately show ?thesis by simp
qed

definition end_q :: "u64 list \<Rightarrow> nat \<Rightarrow> u64 \<Rightarrow> nat" where
  "end_q array i_e fin = (if odd i_e \<and> fin + 1 = array ! (i_e + 1) then i_e + 2 else i_e + 1)"

definition set_len_to :: "merge_result \<Rightarrow> u64 list \<Rightarrow> nat \<Rightarrow> bool" where
  "set_len_to r xs n = (case r of SetLen array k \<Rightarrow> length array = n \<and> k \<le> n \<and> take k array = xs
     | SpliceAt _ _ _ \<Rightarrow> False)"

lemma take_split_at: "i < len \<Longrightarrow> len \<le> length array \<Longrightarrow>
   take len array = take i array @ array ! i # drop (Suc i) (take len array)"
  by (metis (no_types, lifting) Cons_nth_drop_Suc append_take_drop_id length_take min.absorb2
      nth_take take_take min.absorb1 less_imp_le)

lemma set_len_to_Move:
  assumes "i < j" "j \<le> len" "len \<le> length array"
  shows "set_len_to (SetLen (Move array j i (len - j)) (len + i - j)) (take i array @ drop j (take len array)) (length array)"
proof -
  have "len + i - j = i + (len - j)" using assms by simp
  with assms take_Move [of i j len array] length_Move [of j "len - j" array i]
  show ?thesis by (simp add: set_len_to_def)
qed

lemma take_update_above: "n \<le> m \<Longrightarrow> take n (xs[m := y]) = take n xs"
  by simp

lemma add_range_end_eq:
  assumes fin: "fin \<noteq> UV_MAX" and ev: "even i_s" and le: "i_s \<le> i_e" "i_e < len" "len \<le> length array"
    and e: "odd i_e \<Longrightarrow> i_e + 1 < len \<and> start \<le> array ! i_e"
  shows "set_len_to (add_range_end array len i_s i_e start fin)
    (take (i_s + 1) array @ (if even (end_q array i_e fin) then [fin + 1] else []) @
      drop (end_q array i_e fin) (take len array)) (length array)"
proof (cases "even i_e")
  case even: True
  then have q: "end_q array i_e fin = i_e + 1" by (simp add: end_q_def)
  show ?thesis
  proof (cases "i_s = i_e")
    case True
    have "add_range_end array len i_s i_e start fin = SetLen array len"
      using fin even True by (simp add: add_range_end_def range_matches_defs)
    moreover have "take (i_s + 1) array @ drop (i_s + 1) (take len array) = take len array"
      using le True by (metis append_take_drop_id take_take min.absorb1 Suc_eq_plus1 Suc_leI)
    ultimately show ?thesis using even True le(3) by (simp add: set_len_to_def q)
  next
    case False
    have "add_range_end array len i_s i_e start fin =
      SetLen (Move array (i_e + 1) (i_s + 1) (len - (i_e + 1))) (len + (i_s + 1) - (i_e + 1))"
      using fin even False by (simp add: add_range_end_def range_matches_defs)
    then show ?thesis using even False le set_len_to_Move [of "i_s + 1" "i_e + 1" len array] by (simp add: q)
  qed
next
  case odd: False
  then have lt: "i_s < i_e" using ev le by (cases "i_s = i_e") auto
  have e: "i_e + 1 < len" "start \<le> array ! i_e" using e odd by auto
  show ?thesis
  proof (cases "fin + 1 = array ! (i_e + 1)")
    case adj: True
    then have q: "end_q array i_e fin = i_e + 2" using odd by (simp add: end_q_def)
    let ?a = "array[i_e + 1 := start]"
    have r: "add_range_end array len i_s i_e start fin =
      SetLen (Move ?a (i_e + 2) (i_s + 1) (len - (i_e + 2))) (len + (i_s + 1) - (i_e + 2))"
      using fin odd adj lt by (simp add: add_range_end_def range_matches_defs)
    have "take (i_s + 1) ?a = take (i_s + 1) array" using lt by (intro take_update_above) simp
    moreover have "drop (i_e + 2) (take len ?a) = drop (i_e + 2) (take len array)"
      using e by (simp add: take_update_swap)
    ultimately show ?thesis
      using odd lt e le(3) set_len_to_Move [of "i_s + 1" "i_e + 2" len ?a] unfolding r q by simp
  next
    case na: False
    then have q: "end_q array i_e fin = i_e + 1" using odd by (simp add: end_q_def)
    let ?a = "array[i_e := fin + 1]"
    have r: "add_range_end array len i_s i_e start fin =
      (if i_s = i_e - 1 then SetLen ?a len
       else SetLen (Move ?a i_e (i_s + 1) (len - i_e)) (len + (i_s + 1) - i_e))"
      using fin odd na lt e ev by (auto simp: add_range_end_def range_matches_defs)
    have d: "drop i_e (take len ?a) = (fin + 1) # drop (Suc i_e) (take len array)"
      using e le(3) by (simp add: Cons_nth_drop_Suc [symmetric] take_update_swap)
    have t: "take (i_s + 1) ?a = take (i_s + 1) array" using lt by (intro take_update_above) simp
    have "take (i_s + 1) ?a @ drop i_e (take len ?a) =
      take (i_s + 1) array @ [fin + 1] @ drop (i_e + 1) (take len array)"
      using t d by simp
    moreover have "take len ?a = take (i_s + 1) ?a @ drop i_e (take len ?a)" if "i_s + 1 = i_e"
    proof -
      have "i_e \<le> len" using e by simp
      with that have "take (i_s + 1) ?a = take i_e (take len ?a)" by (simp only: take_take min.absorb1)
      with that show ?thesis by (simp only: append_take_drop_id)
    qed
    moreover have "set_len_to (add_range_end array len i_s i_e start fin)
        (take (i_s + 1) ?a @ drop i_e (take len ?a)) (length array)"
    proof (cases "i_s + 1 = i_e")
      case True
      then have "i_s = i_e - 1" by simp
      then have "add_range_end array len i_s i_e start fin = SetLen ?a len" unfolding r by simp
      with calculation(2) [OF True] le(3) show ?thesis by (simp add: set_len_to_def)
    next
      case False
      then have "i_s \<noteq> i_e - 1" "i_s + 1 < i_e" "i_e \<le> len" using lt e by simp_all
      then show ?thesis
        using set_len_to_Move [of "i_s + 1" "i_e" len ?a] le(3) by (simp only: r if_False length_list_update)
    qed
    ultimately show ?thesis using odd unfolding q by simp
  qed
qed


lemma end_q_ok:
  assumes "sorted_wrt (<) xs" "xs = take n array" "n \<le> length array" "fin \<noteq> UV_MAX"
    and "i_e + 1 = il_rank xs fin" "even n \<Longrightarrow> i_e + 1 < n"
  defines "q \<equiv> end_q array i_e fin"
  shows "i_e < q \<and> q \<le> n \<and> xs ! (q - 1) \<le> fin + 1 \<and>
    (q < length xs \<longrightarrow> fin + 1 \<le> xs ! q \<and> (even q \<longrightarrow> fin + 1 < xs ! q))"
proof -
  have n: "length xs = n" using assms(2,3) by simp
  have g: "i < n \<Longrightarrow> array ! i = xs ! i" for i using assms(2) by simp
  have lo: "xs ! i_e \<le> fin" using il_rank_lower [OF assms(1), of i_e fin] assms(5) by simp
  have hi: "fin + 1 \<le> xs ! i" if "i_e < i" "i < n" for i
    using il_rank_upper [OF assms(1), of fin i] assms(4,5) that n by (simp add: word_plus_one_le)
  have "fin < fin + 1" using assms(4) by (simp add: word_less_plus_one)
  with lo have lo': "xs ! i_e \<le> fin + 1" by simp
  have en: "i_e < n" using assms(5) il_rank_le [of xs fin] n by simp
  show ?thesis
  proof (cases "odd i_e \<and> fin + 1 = array ! (i_e + 1)")
    case True
    then have "i_e + 1 < n" using assms(6) en by (cases "i_e + 1 = n") auto
    moreover have "xs ! (i_e + 1) < xs ! (i_e + 2)" if "i_e + 2 < n"
      using assms(1) that n by (simp add: sorted_wrt_iff_nth_less)
    ultimately show ?thesis using True g n hi by (auto simp: q_def end_q_def)
  next
    case False
    then have q: "q = i_e + 1" by (auto simp: q_def end_q_def)
    have "fin + 1 \<noteq> xs ! q" if "even q" "q < n" using False that q g by auto
    with q lo' hi [of q] en n show ?thesis by (auto simp: less_le)
  qed
qed


lemma splice_okI:
  assumes "p \<le> length xs" "p > 0" "xs ! (p - 1) \<le> s" "even p \<Longrightarrow> xs ! (p - 1) < s"
    "p < length xs \<Longrightarrow> s \<le> xs ! p"
    and "e \<noteq> UV_MAX \<Longrightarrow> p \<le> q \<and> q \<le> length xs \<and> xs ! (q - 1) \<le> e + 1 \<and>
        (q < length xs \<longrightarrow> e + 1 \<le> xs ! q \<and> (even q \<longrightarrow> e + 1 < xs ! q))"
  shows "splice_ok xs p q s e"
  using assms by (simp add: splice_ok_def)

definition merge_ok :: "merge_result \<Rightarrow> u64 list \<Rightarrow> nat \<Rightarrow> u64 \<Rightarrow> u64 \<Rightarrow> bool" where
  "merge_ok r array n start fin = (\<exists>p q. splice_ok (take n array) p q start fin \<and>
     (set_len_to r (spliced (take n array) p q start fin) (length array) \<or>
      r = SpliceAt array p start \<and> p = q \<and> even p \<and> fin \<noteq> UV_MAX))"

lemma merge_okI:
  "splice_ok xs p q s e \<Longrightarrow> xs = take n array \<Longrightarrow> set_len_to r (spliced xs p q s e) (length array) \<Longrightarrow>
   merge_ok r array n s e"
  by (auto simp: merge_ok_def)

lemma add_range_merge_fin:
  assumes srt: "sorted_wrt (<) xs" and xs: "xs = take n array" "n \<le> length array"
    and fin: "fin \<noteq> UV_MAX" and se: "start \<le> fin"
    and i_s: "i_s + 1 = il_rank xs start" and i_e: "i_e + 1 = il_rank xs fin"
    and room: "even n \<Longrightarrow> i_e + 1 < n"
  shows "merge_ok (add_range_merge array n i_s i_e start fin) array n start fin"
proof -
  define q where "q = end_q array i_e fin"
  note qok = end_q_ok [OF srt xs fin i_e room, folded q_def]
  have n: "length xs = n" using xs by simp
  have g: "array ! i = xs ! i" if "i < n" for i using xs that by simp
  have s_lo: "xs ! i_s \<le> start" using il_rank_lower [OF srt, of i_s start] i_s by simp
  have s_hi: "start < xs ! i" if "i_s < i" "i < n" for i
    using il_rank_upper [OF srt, of start i] i_s that n by simp
  have e_lo: "xs ! i \<le> fin" if "i \<le> i_e" for i using il_rank_lower [OF srt, of i fin] i_e that by simp
  have e_hi: "fin < xs ! i" if "i_e < i" "i < n" for i
    using il_rank_upper [OF srt, of fin i] i_e that n by simp
  have en: "i_e < n" using i_e il_rank_le [of xs fin] n by simp
  have sn: "i_s < n" using i_s il_rank_le [of xs start] n by simp
  have le: "i_s \<le> i_e"
  proof (rule ccontr)
    assume "\<not> i_s \<le> i_e"
    with e_hi [of i_s] sn s_lo se show False by auto
  qed
  have eo: "i_e + 1 < n" if "odd i_e" using room that en by (cases "i_e + 1 = n") auto
  have ok1: "splice_ok xs (i_s + 1) q start fin" if "odd i_s \<Longrightarrow> xs ! i_s \<noteq> start"
    using that s_lo s_hi [of "i_s + 1"] sn qok le n
    by (intro splice_okI) (auto simp: less_le less_imp_le)
  have ok0: "splice_ok xs i_s q start fin" if "odd i_s" "xs ! i_s = start"
  proof -
    have "xs ! (i_s - 1) < xs ! i_s" using that(1) srt sn n by (cases i_s) (auto simp: sorted_wrt_iff_nth_less)
    then show ?thesis using that qok le n sn by (intro splice_okI) (auto intro: Nat.gr0I less_imp_le)
  qed
  show ?thesis
  proof (cases "odd i_s")
    case even: False
    have "start \<le> array ! i_e" if "odd i_e"
      using that even le s_hi [of i_e] en g by (cases "i_s = i_e") (auto simp: less_imp_le)
    with add_range_end_eq [OF fin _ le en xs(2), of start] even eo sn
    show ?thesis
      by (intro merge_okI [OF ok1 xs(1)])
        (simp_all add: add_range_merge_def range_matches_defs spliced_def fin q_def xs(1) min_def)
  next
    case odd: True
    then have i1: "i_s + 1 < n" using le en eo by (cases "i_s = i_e") auto
    define ext where "ext = (fin + 1 \<ge> array ! (i_s + 1))"
    have ext: "i_e = i_s \<Longrightarrow> ext \<Longrightarrow> array ! (i_s + 1) = fin + 1" "i_e \<noteq> i_s \<Longrightarrow> ext"
    proof -
      show "array ! (i_s + 1) = fin + 1" if "i_e = i_s" ext
        using e_hi [of "i_s + 1"] that i1 g [of "i_s + 1"] fin
        by (auto simp: ext_def word_plus_one_le [symmetric] intro: order.antisym)
      show ext if "i_e \<noteq> i_s"
      proof -
        have "array ! (i_s + 1) \<le> fin" using e_lo [of "i_s + 1"] that le i1 g by simp
        also have "fin \<le> fin + 1" using fin by (simp add: word_less_plus_one less_imp_le)
        finally show ?thesis by (simp add: ext_def)
      qed
    qed
    show ?thesis
    proof (cases "start = array ! i_s")
      case adj: True
      then have p: "splice_ok xs i_s q start fin" using ok0 odd g sn by simp
      obtain j where j: "i_s = Suc j" "even j" using odd by (cases i_s) auto
      let ?a = "array[i_s := fin + 1]" and ?i = "if i_e \<le> i_s + 1 then i_e - 1 else i_e"
      have spl: "spliced xs i_s q start fin = take i_s array @ (if even q then [fin + 1] else []) @ drop q xs"
        using odd fin sn xs(2) by (simp add: spliced_def xs(1))
      show ?thesis
      proof (cases "i_e \<le> i_s + 1 \<and> ext")
        case True
        then have "i_e = i_s \<or> i_e = i_s + 1" using le by linarith
        then have "q = i_s + 2" using ext(1) True odd by (auto simp: q_def end_q_def)
        moreover have "add_range_merge array n i_s i_e start fin =
            SetLen (Move array (i_s + 2) i_s (n - (i_s + 2))) (n + i_s - (i_s + 2))"
          using True odd adj by (simp add: add_range_merge_def range_matches_defs ext_def)
        ultimately show ?thesis
          using set_len_to_Move [of i_s "i_s + 2" n array] i1 xs(2) odd
          by (intro merge_okI [OF p xs(1)]) (unfold spl, simp add: xs(1))
      next
        case False
        have r: "add_range_merge array n i_s i_e start fin = add_range_end ?a n j ?i (?a ! j) fin"
        proof -
          have "i_s - 1 = j" using j by simp
          with False odd adj fin show ?thesis
            by (simp only: add_range_merge_def range_matches_defs ext_def Let_def if_False if_True
                not_False_eq_True not_not simp_thms)
        qed
        have t: "take i_s ?a = take i_s array" by simp
        show ?thesis
        proof (cases "i_e = i_s")
          case True
          then have "\<not> ext" using False by simp
          then have q: "q = i_s + 1" using True odd by (auto simp: q_def end_q_def ext_def)
          have d: "drop i_s (take n ?a) = (fin + 1) # drop (i_s + 1) xs"
            using sn xs by (simp add: Cons_nth_drop_Suc [symmetric] take_update_swap)
          have "set_len_to (add_range_end ?a n j j (?a ! j) fin)
             (take i_s array @ drop i_s (take n ?a)) (length array)"
            using add_range_end_eq [OF fin j(2), of j n ?a "?a ! j"] j sn xs(2) by (simp add: end_q_def)
          then show ?thesis
            using True j q d odd by (intro merge_okI [OF p xs(1)]) (unfold spl r, simp)
        next
          case ne: False
          then have ge: "i_s + 2 \<le> i_e" using False ext(2) le by simp
          have "end_q ?a i_e fin = q" using ge by (simp add: q_def end_q_def)
          moreover have "drop q (take n ?a) = drop q xs" using ge qok xs by (simp add: take_update_swap)
          moreover have "?a ! j \<le> ?a ! i_e" if "odd i_e"
            using ge j en g srt n by (simp add: sorted_wrt_iff_nth_less less_imp_le)
          ultimately show ?thesis
            using add_range_end_eq [OF fin j(2), of i_e n ?a "?a ! j"] ge j en eo xs(2) t
            by (intro merge_okI [OF p xs(1)]) (unfold spl r, simp)
        qed
      qed
    next
      case nadj: False
      then have p: "splice_ok xs (i_s + 1) q start fin" using ok1 g sn by simp
      show ?thesis
      proof (cases ext)
        case True
        let ?a = "array[i_s + 1 := start]" and ?i = "if i_e = i_s then i_e + 1 else i_e"
        have r: "add_range_merge array n i_s i_e start fin = add_range_end ?a n (i_s + 1) ?i start fin"
          using True odd nadj by (simp add: add_range_merge_def range_matches_defs ext_def Let_def)
        have q: "end_q ?a ?i fin = q" "i_s + 2 \<le> q"
        proof -
          show "end_q ?a ?i fin = q"
            using ext(1) True odd le by (cases "i_e = i_s") (auto simp: q_def end_q_def)
          show "i_s + 2 \<le> q"
          proof (cases "i_e = i_s")
            case True
            with ext(1) \<open>ext\<close> odd show ?thesis by (simp add: q_def end_q_def)
          next
            case False
            with le qok show ?thesis by linarith
          qed
        qed
        have t: "take (i_s + 2) ?a = take (i_s + 1) xs @ [start]"
          using i1 xs by (simp add: take_update_Suc)
        have d: "drop q (take n ?a) = drop q xs" using q(2) xs by (simp add: take_update_swap)
        have m: "start \<le> ?a ! ?i" if "odd ?i"
        proof -
          have "i_s + 2 \<le> i_e" using that odd le by (cases "i_e = i_s"; cases "i_e = i_s + 1") auto
          then show ?thesis using s_hi [of i_e] en g by (simp add: less_imp_le)
        qed
        have "odd ?i \<Longrightarrow> ?i + 1 < n" using eo odd by (auto split: if_splits)
        then show ?thesis
          using add_range_end_eq [OF fin _ _ _ _, of "i_s + 1" ?i n ?a start] odd i1 le en xs(2) q(1) t d m
          by (intro merge_okI [OF p xs(1)]) (simp add: r spliced_def fin split: if_splits)
      next
        case False
        then have ie: "i_e = i_s" using ext(2) by blast
        have "\<not> start \<le> array ! i_s" using s_lo nadj g sn by (auto simp: not_le less_le)
        moreover have na: "fin + 1 \<noteq> array ! (i_s + 1)" using False by (auto simp: ext_def)
        ultimately have "add_range_merge array n i_s i_e start fin = SpliceAt array (i_s + 1) start"
          using False odd nadj ie fin
          by (simp add: add_range_merge_def add_range_end_def range_matches_defs ext_def)
        moreover have "q = i_s + 1" using ie na by (simp add: q_def end_q_def)
        ultimately show ?thesis unfolding merge_ok_def using p odd fin xs(1)
          by (intro exI [of _ "i_s + 1"]) auto
      qed
    qed
  qed
qed


lemma add_range_merge_infinite:
  assumes srt: "sorted_wrt (<) xs" and xs: "xs = take n array" "n \<le> length array"
    and fin: "fin = UV_MAX" and n: "odd n"
    and i_s: "i_s + 1 = il_rank xs start" and len: "i_e + 1 = n \<and> len = n \<or> n < i_e"
  shows "merge_ok (add_range_merge array len i_s i_e start fin) array n start fin"
proof -
  have l: "length xs = n" using xs by simp
  have g: "array ! i = xs ! i" if "i < n" for i using xs that by simp
  have s_lo: "xs ! i_s \<le> start" using il_rank_lower [OF srt, of i_s start] i_s by simp
  have s_hi: "start < xs ! i" if "i_s < i" "i < n" for i
    using il_rank_upper [OF srt, of start i] i_s that l by simp
  have sn: "i_s < n" using i_s il_rank_le [of xs start] l by simp
  have ok1: "splice_ok xs (i_s + 1) q start fin" if "odd i_s \<Longrightarrow> xs ! i_s \<noteq> start" for q
    using that s_lo s_hi [of "i_s + 1"] sn l fin
    by (intro splice_okI) (auto simp: less_le less_imp_le)
  show ?thesis
  proof (cases "odd i_s")
    case False
    then show ?thesis
      using sn xs(2) by (intro merge_okI [OF ok1 xs(1)])
        (auto simp: add_range_merge_def add_range_end_def range_matches_defs spliced_def fin xs(1) set_len_to_def)
  next
    case odd: True
    then have i1: "i_s + 1 < n" using sn n by (cases "i_s + 1 = n") auto
    show ?thesis
    proof (cases "start = array ! i_s")
      case adj: True
      have "xs ! (i_s - 1) < xs ! i_s" using odd srt sn l by (cases i_s) (auto simp: sorted_wrt_iff_nth_less)
      then have p: "splice_ok xs i_s 0 start fin" using adj g sn l fin odd
        by (intro splice_okI) (auto intro: Nat.gr0I less_imp_le)
      have spl: "spliced xs i_s 0 start fin = take i_s array"
        using odd fin sn xs(2) by (simp add: spliced_def xs(1))
      show ?thesis
      proof (cases "i_e \<le> i_s + 1")
        case True
        then have e: "n = i_s + 2" "len = n" using len i1 by auto
        have "add_range_merge array len i_s i_e start fin = SetLen (Move array n i_s 0) i_s"
          using True odd adj fin e by (simp add: add_range_merge_def range_matches_defs)
        then show ?thesis using e xs(2)
          by (intro merge_okI [OF p xs(1)]) (unfold spl, simp add: set_len_to_def Move_def)
      next
        case False
        have "add_range_merge array len i_s i_e start fin = SetLen (array[i_s := UV_MAX]) i_s"
          using False odd adj fin
          by (cases i_s) (auto simp: add_range_merge_def add_range_end_def range_matches_defs)
        then show ?thesis using sn xs(2)
          by (intro merge_okI [OF p xs(1)]) (unfold spl, simp add: set_len_to_def)
      qed
    next
      case nadj: False
      then have p: "splice_ok xs (i_s + 1) 0 start fin" using ok1 g sn by simp
      have "add_range_merge array len i_s i_e start fin = SetLen (array[i_s + 1 := start]) (i_s + 2)"
        using odd nadj fin by (simp add: add_range_merge_def add_range_end_def range_matches_defs)
      then show ?thesis using i1 xs odd
        by (intro merge_okI [OF p xs(1)]) (auto simp: set_len_to_def spliced_def fin take_update_Suc)
    qed
  qed
qed




section \<open>Storing the edited array back\<close>

lemma il_view:
  assumes "il_holds il xs" "xs \<noteq> []"
  shows "take (length xs) (arr_view il) = xs" "length xs \<le> length (arr_view il)"
    "il_offset il \<longleftrightarrow> hd xs \<noteq> 0" "il_owned il" "il_buf il ! 0 = 0"
    "of_bool (il_offset il) + length (arr_view il) = length (il_buf il)"
    "il_cur il = length xs + of_bool (il_offset il)"
proof -
  have r: "il_repr il xs" and o: "il_owned il" using assms by (auto simp: il_holds_def)
  have t: "take (il_cur il) (il_buf il) = il_phys (il_offset il) xs"
    and c: "il_cur il \<le> length (il_buf il)" and h: "il_offset il \<longleftrightarrow> hd xs \<noteq> 0"
    using r assms(2) by (auto simp: il_repr_def)
  show "il_offset il \<longleftrightarrow> hd xs \<noteq> 0" "il_owned il" by (fact h, fact o)
  have l: "il_cur il = length xs + of_bool (il_offset il)"
    using arg_cong [OF t, of length] c by simp
  then show "il_cur il = length xs + of_bool (il_offset il)" .
  show "take (length xs) (arr_view il) = xs"
    using arg_cong [OF t, of "drop (of_bool (il_offset il))"] l
    by (simp add: arr_view_def il_phys_def drop_take)
  show "length xs \<le> length (arr_view il)" using l c by (simp add: arr_view_def)
  show "of_bool (il_offset il) + length (arr_view il) = length (il_buf il)"
    using l c by (simp add: arr_view_def)
  have "il_buf il ! 0 = take (il_cur il) (il_buf il) ! 0"
    using l assms(2) by (cases xs) auto
  then show "il_buf il ! 0 = 0" using assms(2) h by (cases xs) (auto simp: t il_phys_def)
qed

lemma il_put:
  assumes h: "il_holds il xs" "xs \<noteq> []"
    and a: "length array = length (arr_view il)" "k \<le> length array" "take k array = ys"
    and ys: "sorted_wrt (<) ys" "ys \<noteq> []" "hd ys = 0 \<longleftrightarrow> hd xs = 0"
  shows "il_holds (invlist_set_len (arr_put il array) k (il_offset il)) ys"
proof -
  note v = il_view [OF h]
  let ?o = "of_bool (il_offset il) :: nat"
  have k: "k \<noteq> 0" using a ys by auto
  have o: "length (take ?o (il_buf il)) = ?o" using v(6) by (simp add: min_def)
  have "take (k + ?o) (take ?o (il_buf il) @ array) = il_phys (il_offset il) ys"
    using a o v(5) by (cases "il_buf il") (auto simp: il_phys_def)
  then show ?thesis
    using v a k ys o
    by (auto simp: il_holds_def il_repr_def invlist_set_len_def arr_put_def il_owned_def)
qed

lemma il_extend_holds:
  assumes "il_holds il xs" "xs \<noteq> []"
  shows "il_holds (invlist_extend il n) xs" "n + 1 \<le> length (il_buf (invlist_extend il n))"
    "il_offset (invlist_extend il n) = il_offset il"
proof -
  have o: "il_owned il" and r: "il_repr il xs" using assms by (auto simp: il_holds_def)
  show "n + 1 \<le> length (il_buf (invlist_extend il n))" "il_offset (invlist_extend il n) = il_offset il"
    using il_extend [OF o] by auto
  show "il_holds (invlist_extend il n) xs"
    using r assms(2) il_extend [OF o, where m = n] by (auto simp: il_holds_def il_repr_def)
qed

lemma il_splice:
  assumes h: "il_holds il xs" "xs \<noteq> []" and p: "even p" "splice_ok xs p p start fin"
    and fin: "fin \<noteq> UV_MAX" "start \<le> fin" and nz: "start \<noteq> 0"
  shows "il_holds (splice_in_new_range il (length xs) p start fin) (spliced xs p p start fin)"
proof -
  define e where "e = invlist_extend il (length xs + 2)"
  note x = il_extend_holds [OF h, of "length xs + 2", folded e_def]
  note v = il_view [OF x(1) h(2)]
  have pl: "p \<le> length xs" using p(2) by (simp add: splice_ok_def)
  have srt: "sorted_wrt (<) xs" using h(1) by (rule il_holdsD)
  have room: "length xs + 2 \<le> length (arr_view e)" using x(2) v(6) by (cases "il_offset e") auto
  let ?m = "Move (arr_view e) p (p + 2) (length xs - p)"
  have s: "spliced xs p p start fin = take p xs @ [start, fin + 1] @ drop p xs"
    using p fin by (simp add: spliced_def)
  have m: "?m = take (p + 2) (arr_view e) @ drop p xs @ drop (length xs + 2) (arr_view e)"
    using pl v(1) by (simp add: Move_def drop_take [symmetric])
  have w: "?m[p := start, p + 1 := fin + 1] =
      take p xs @ [start, fin + 1] @ drop p xs @ drop (length xs + 2) (arr_view e)"
  proof -
    have "take p xs = take p (arr_view e)" using pl v(1) by (metis min.absorb1 take_take)
    moreover have "take (p + 2) (arr_view e) = take p (arr_view e) @ [arr_view e ! p, arr_view e ! (p + 1)]"
      using room pl by (simp add: take_Suc_conv_app_nth)
    ultimately show ?thesis using room pl unfolding m
      by (simp add: list_update_append)
  qed
  have "hd (spliced xs p p start fin) = 0 \<longleftrightarrow> hd xs = 0"
    using in_ranges_zero [OF spliced_sorted [OF srt p(2) fin(2)]] in_ranges_zero [OF srt]
      spliced_mem [OF srt p(2) fin(2), of 0] nz h(2) s
    by (auto simp: hd_conv_nth)
  moreover have "sorted_wrt (<) (spliced xs p p start fin)" by (rule spliced_sorted [OF srt p(2) fin(2)])
  ultimately have "il_holds (invlist_set_len (arr_put e (?m[p := start, p + 1 := fin + 1]))
      (length xs + 2) (il_offset e)) (spliced xs p p start fin)"
  proof (intro il_put [OF x(1) h(2)])
    show "length (?m[p := start, p + 1 := fin + 1]) = length (arr_view e)"
      using room pl unfolding w by simp
    then show "length xs + 2 \<le> length (?m[p := start, p + 1 := fin + 1])" using room by simp
    show "take (length xs + 2) (?m[p := start, p + 1 := fin + 1]) = spliced xs p p start fin"
      unfolding w s using pl by (simp only: append_assoc [symmetric]) (subst append_eq_conv_conj [THEN iffD1], auto)
    show "spliced xs p p start fin \<noteq> []" by (simp add: s)
  qed
  then show ?thesis using x(3)
    by (simp add: splice_in_new_range_def Let_def e_def)
qed

lemma il_holds_prev: "il_holds (il\<lparr>il_prev := p\<rparr>) xs = il_holds il xs"
  by (simp add: il_holds_iff)

lemma search_holds:
  assumes "il_holds il xs"
  obtains il' where "invlist_search il cp = (int (il_rank xs cp) - 1, il')" "il_holds il' xs"
proof -
  obtain p where "snd (invlist_search il cp) = il\<lparr>il_prev := p\<rparr>" using invlist_search_state by blast
  with that [of "snd (invlist_search il cp)"] invlist_search_rank [of il cp] il_holdsD [OF assms] assms
  show thesis by (cases "invlist_search il cp") (simp add: il_holds_prev)
qed

definition holds_union :: "invlist \<Rightarrow> u64 list \<Rightarrow> u64 \<Rightarrow> u64 \<Rightarrow> bool" where
  "holds_union il xs s e = (\<exists>ys. il_holds il ys \<and> (\<forall>cp. in_ranges ys cp \<longleftrightarrow> in_ranges xs cp \<or> s \<le> cp \<and> cp \<le> e))"

lemma merge_store:
  assumes h: "il_holds il xs" "xs \<noteq> []" and se: "start \<le> fin" and nz: "start \<noteq> 0 \<or> hd xs = 0"
    and m: "merge_ok r (arr_view il) (length xs) start fin" and len: "fin \<noteq> UV_MAX \<Longrightarrow> len = length xs"
  shows "holds_union (case r of
           SetLen array n \<Rightarrow> invlist_set_len (arr_put il array) n (il_offset il)
         | SpliceAt array at start \<Rightarrow> splice_in_new_range (arr_put il array) len at start fin) xs start fin"
proof -
  note v = il_view [OF h]
  have srt: "sorted_wrt (<) xs" using h(1) by (rule il_holdsD)
  obtain p q where ok: "splice_ok xs p q start fin"
    and r: "set_len_to r (spliced xs p q start fin) (length (arr_view il)) \<or>
      r = SpliceAt (arr_view il) p start \<and> p = q \<and> even p \<and> fin \<noteq> UV_MAX"
    using m by (auto simp: merge_ok_def v(1))
  note mem = spliced_mem [OF srt ok se]
  have z: "in_ranges xs 0 \<longleftrightarrow> hd xs = 0" using in_ranges_zero [OF srt] h(2) by (simp add: hd_conv_nth)
  show ?thesis using r
  proof (elim disjE conjE)
    assume r: "set_len_to r (spliced xs p q start fin) (length (arr_view il))"
    then obtain array k where rk: "r = SetLen array k" "length array = length (arr_view il)"
      "k \<le> length array" "take k array = spliced xs p q start fin"
      by (auto simp: set_len_to_def split: merge_result.splits)
    have ne: "spliced xs p q start fin \<noteq> []" using mem [of start] se by auto
    then have "hd (spliced xs p q start fin) = 0 \<longleftrightarrow> hd xs = 0"
      using in_ranges_zero [OF spliced_sorted [OF srt ok se]] mem [of 0] z nz
      by (auto simp: hd_conv_nth)
    then show ?thesis
      using il_put [OF h rk(2-4) spliced_sorted [OF srt ok se] ne] mem rk(1) by (auto simp: holds_union_def)
  next
    assume r: "r = SpliceAt (arr_view il) p start" and pq: "p = q" "even p" "fin \<noteq> UV_MAX"
    have put: "arr_put il (arr_view il) = il" by (simp add: arr_put_def arr_view_def)
    have nz': "start \<noteq> 0"
    proof
      assume s0: "start = 0"
      then have "hd xs = 0" using nz by simp
      then have "xs ! 0 = 0" using h(2) by (simp add: hd_conv_nth)
      with ok s0 pq h(2) se show False
        by (cases "p = 0") (auto simp: splice_ok_def dest: le_less_trans [OF word_zero_le])
    qed
    show ?thesis using il_splice [OF h pq(2) _ pq(3) se nz'] ok r pq mem len put
      by (auto simp: holds_union_def)
  qed
qed




section \<open>Adding a range gives the union\<close>

text \<open>What the middle of the function knows of \<open>len\<close> and of the index where \<open>fin\<close> lies (0: not known).\<close>

definition idx_ok :: "u64 list \<Rightarrow> nat \<Rightarrow> nat \<Rightarrow> u64 \<Rightarrow> bool" where
  "idx_ok xs len i_e fin =
     (if fin = UV_MAX then odd (length xs) \<and> (i_e = 0 \<and> len = length xs \<or> length xs < i_e)
      else len = length xs \<and> (even len \<longrightarrow> fin < last xs) \<and> (i_e = 0 \<or> i_e + 1 = il_rank xs fin))"

lemma rank_last: "sorted_wrt (<) xs \<Longrightarrow> xs \<noteq> [] \<Longrightarrow> fin < last xs \<Longrightarrow> il_rank xs fin < length xs"
proof (rule ccontr)
  assume a: "sorted_wrt (<) xs" "xs \<noteq> []" "fin < last xs" "\<not> il_rank xs fin < length xs"
  then have "il_rank xs fin = length xs" using il_rank_le [of xs fin] by linarith
  with il_rank_lower [OF a(1), of "length xs - 1" fin] a(2,3) show False
    by (simp add: last_conv_nth)
qed

lemma add_range_rest_holds:
  assumes h: "il_holds il xs" "xs \<noteq> []" and se: "start \<le> fin" and nz: "start \<noteq> 0 \<or> hd xs = 0"
    and i_s: "i_s + 1 = il_rank xs start" and ix: "idx_ok xs len i_e fin"
  shows "holds_union (add_range_rest il len i_s i_e start fin) xs start fin"
proof -
  have srt: "sorted_wrt (<) xs" using h(1) by (rule il_holdsD)
  have rs: "il_rank xs start \<le> il_rank xs fin"
    unfolding il_rank_def using se by (induction xs) auto
  obtain ie il' where e: "(if i_e = 0 then if start = fin then (i_s, il)
         else (let (i, il) = invlist_search il fin in (nat i, il)) else (i_e, il)) = (ie, il')"
    and h': "il_holds il' xs" and ie: "i_e = 0 \<and> ie + 1 = il_rank xs fin \<or> ie = i_e \<and> i_e \<noteq> 0"
  proof -
    obtain il2 where s: "invlist_search il fin = (int (il_rank xs fin) - 1, il2)" "il_holds il2 xs"
      using search_holds [OF h(1)] by blast
    have "nat (int (il_rank xs fin) - 1) + 1 = il_rank xs fin" using rs i_s by simp
    then show thesis
      using that [of "if i_e = 0 then if start = fin then i_s else nat (int (il_rank xs fin) - 1) else i_e"
          "if i_e = 0 \<and> start \<noteq> fin then il2 else il"] s h(1) i_s
      by (cases "i_e = 0"; cases "start = fin") auto
  qed
  note v = il_view [OF h' h(2)]
  have "merge_ok (add_range_merge (arr_view il') len i_s ie start fin) (arr_view il') (length xs) start fin"
  proof (cases "fin = UV_MAX")
    case True
    have "il_rank xs fin = length xs" using True by (intro il_rank_eq_length) simp
    then show ?thesis
      using ix ie True by (intro add_range_merge_infinite [OF srt _ v(2) True _ i_s])
        (auto simp: idx_ok_def v(1))
  next
    case False
    then have "ie + 1 = il_rank xs fin" "len = length xs" "even len \<Longrightarrow> fin < last xs"
      using ix ie by (auto simp: idx_ok_def)
    then show ?thesis
      using rank_last [OF srt h(2)] False
      by (auto intro!: add_range_merge_fin [OF srt _ v(2) _ se i_s] simp: v(1))
  qed
  then have "holds_union (case add_range_merge (arr_view il') len i_s ie start fin of
      SetLen array n \<Rightarrow> invlist_set_len (arr_put il' array) n (il_offset il')
      | SpliceAt array at start \<Rightarrow> splice_in_new_range (arr_put il' array) len at start fin) xs start fin"
    using ix by (intro merge_store [OF h' h(2) se nz]) (simp_all add: idx_ok_def)
  then show ?thesis unfolding add_range_rest_def e by simp
qed

lemma arr_set_0_holds:
  assumes h: "il_holds il (x # xs)" and s: "0 < start" "start < x"
  shows "il_holds (arr_set il 0 start) (start # xs)"
proof -
  note v = il_view [OF h]
  have srt: "sorted_wrt (<) (start # xs)" using il_holdsD(5) [OF h] s by (auto intro: less_trans)
  have "x \<noteq> 0" using s by auto
  with v have off: "il_offset il" by simp
  obtain y b where b: "il_buf il = y # b" using v(6) off by (cases "il_buf il") auto
  have t: "take (length (x # xs)) b = x # xs" using v(1) off b by (simp add: arr_view_def)
  then obtain b' where b': "b = x # b'" by (cases b) auto
  with t have "take (length xs) b' = xs" by simp
  then show ?thesis
    using srt s v off b b' by (auto simp: arr_set_def il_holds_def il_repr_def il_owned_def il_phys_def arr_view_def)
qed

lemma locate_holds:
  assumes h: "il_holds il xs" "xs \<noteq> []" and se: "start \<le> fin" and ix: "idx_ok xs len i_e fin"
  shows "\<exists>r. add_range_locate il len i_e start fin = Inr r \<and> holds_union r xs start fin"
proof -
  have srt: "sorted_wrt (<) xs" and ok: "il_ok il" and len: "invlist_len il = length xs"
    and arr: "invlist_array il = xs" and wf: "il_wf il" and set: "il_set il = {cp. in_ranges xs cp}"
    using il_holdsD [OF h(1)] by auto
  have a0: "arr_get il 0 = hd xs" using h(2) ok len arr by (simp add: arr_get_nth hd_conv_nth)
  obtain x ys where xs: "xs = x # ys" using h(2) by (cases xs) auto
  show ?thesis
  proof (cases "start < hd xs")
    case lt: True
    show ?thesis
    proof (cases "start = 0")
      case True
      obtain r where r: "append_range_to_invlist (new_invlist 2) start fin = Inr r"
        "il_holds r (append_spec [] start fin)"
        using il_holds_append_range [OF il_holds_new se] by blast
      have rs: "il_set r = {cp. start \<le> cp \<and> cp \<le> fin}"
        using il_holdsD(7) [OF r(2)] append_spec_set [OF se, of "[]"] by simp
      obtain u us where "invlist_union (Some il) r OutA = Inr u" "il_holds u us"
        "{cp. in_ranges us cp} = opt_set (Some il) \<union> second_set r False"
        by (rule union_holds [of "Some il" r OutA False])
          (use wf il_holdsD(1) [OF r(2)] in \<open>auto simp: args_ok_def\<close>)
      then show ?thesis using True lt r(1) rs set a0
        by (auto simp: add_range_locate_def holds_union_def opt_set_def second_set_def set_eq_iff)
    next
      case s0: False
      then have pos: "0 < start" by (simp add: word_gt_0)
      show ?thesis
      proof (cases "fin < hd xs - 1")
        case True
        have nz: "hd xs \<noteq> 0" using lt by (metis word_not_simps(1))
        have nm: "fin \<noteq> UV_MAX" "fin + 1 < hd xs"
          using True word_less_minus_one [OF nz, of fin] by simp_all
        then have ok: "splice_ok xs 0 0 start fin" using lt h(2)
          by (auto simp: splice_ok_def hd_conv_nth less_imp_le)
        have "il_holds (splice_in_new_range il (length xs) 0 start fin) (spliced xs 0 0 start fin)"
          by (rule il_splice [OF h _ ok nm(1) se s0]) simp
        moreover have "len = length xs" using ix nm by (simp add: idx_ok_def)
        ultimately show ?thesis using True lt s0 a0 spliced_mem [OF srt ok se]
          by (auto simp: add_range_locate_def holds_union_def)
      next
        case False
        have h': "il_holds (arr_set il 0 start) (start # ys)"
          using arr_set_0_holds [of il x ys start] h(1) xs pos lt by simp
        have srt': "sorted_wrt (<) (start # ys)" using h' by (rule il_holdsD)
        have r1: "0 + 1 = il_rank (start # ys) start"
          using srt' by (simp add: il_rank_eq_0)
        have "fin < last (start # ys)" if "even (length xs)" "fin \<noteq> UV_MAX"
          using ix that xs by (cases ys) (auto simp: idx_ok_def)
        moreover have "i_e = 0 \<or> i_e + 1 = il_rank (start # ys) fin" if "fin \<noteq> UV_MAX"
        proof (cases "i_e = 0")
          case False
          then have r: "i_e + 1 = il_rank xs fin" using ix that by (simp add: idx_ok_def)
          have "x \<le> fin"
          proof (rule ccontr)
            assume "\<not> x \<le> fin"
            then have "il_rank xs fin = 0" using srt xs by (intro il_rank_eq_0) auto
            with r show False by simp
          qed
          with r se xs show ?thesis by simp
        qed simp
        ultimately have ix': "idx_ok (start # ys) len i_e fin" using ix xs by (auto simp: idx_ok_def)
        have "holds_union (add_range_rest (arr_set il 0 start) len 0 i_e start fin) (start # ys) start fin"
          by (rule add_range_rest_holds [OF h' _ se _ r1 ix']) (use s0 in auto)
        moreover have "in_ranges (start # ys) cp \<or> start \<le> cp \<and> cp \<le> fin \<longleftrightarrow>
            in_ranges xs cp \<or> start \<le> cp \<and> cp \<le> fin" for cp
        proof -
          have nz: "x \<noteq> 0" using lt xs by (metis list.sel(1) word_not_simps(1))
          have "x - 1 \<le> fin" using False xs by simp
          then have "cp \<le> fin" if "cp < x" using that word_le_minus_one [OF nz, of cp] by (meson order.trans)
          then show ?thesis using lt xs by (auto simp: not_le)
        qed
        ultimately show ?thesis using False lt s0 a0
          by (auto simp: add_range_locate_def holds_union_def)
      qed
    qed
  next
    case False
    obtain il' where s: "invlist_search il start = (int (il_rank xs start) - 1, il')" "il_holds il' xs"
      using search_holds [OF h(1)] by blast
    have "il_rank xs start > 0" using False xs by (simp add: not_less)
    then have "nat (int (il_rank xs start) - 1) + 1 = il_rank xs start" by simp
    moreover have "start \<noteq> 0 \<or> hd xs = 0" using False by (metis not_less word_not_simps(1) word_neq_0_conv)
    ultimately have "holds_union (add_range_rest il' len (nat (int (il_rank xs start) - 1)) i_e start fin) xs start fin"
      using add_range_rest_holds [OF s(2) h(2) se _ _ ix] by blast
    then show ?thesis using False a0 s(1) by (simp add: add_range_locate_def)
  qed
qed


lemma invlist_highest_holds:
  assumes "il_holds il xs"
  shows "invlist_highest il = (if xs = [] then 0 else if odd (length xs) then UV_MAX else last xs - 1)"
proof (cases "xs = []")
  case True
  then show ?thesis using il_holdsD(6) [OF assms] by (simp add: invlist_highest_def)
next
  case False
  have "arr_get il (length xs - 1) = last xs"
    using False il_holdsD [OF assms] by (simp add: arr_get_nth last_conv_nth)
  moreover have "even (length xs - 1) \<longleftrightarrow> odd (length xs)" using False by (cases xs) auto
  ultimately show ?thesis
    using False il_holdsD(6) [OF assms] by (simp add: invlist_highest_def range_matches_defs Let_def)
qed

lemma add_range_holds:
  assumes h: "il_holds il xs" and se: "start \<le> fin"
  shows "\<exists>r. add_range_to_invlist (Some il) start fin = Inr r \<and> holds_union r xs start fin"
proof -
  have srt: "sorted_wrt (<) xs" and len: "invlist_len il = length xs" using il_holdsD [OF h] by auto
  have app: "\<exists>r. append_range_to_invlist il s fin = Inr r \<and> il_holds r (append_spec xs s fin) \<and>
      holds_union r xs s fin"
    if "s \<le> fin" "xs = [] \<or> last xs \<le> s \<and> even (length xs)" for s
    using il_holds_append_range [OF h that] append_spec_set [OF that(1) srt that(2)]
    by (metis holds_union_def)
  note high = invlist_highest_holds [OF h]
  show ?thesis
  proof (cases "xs = []")
    case True
    then show ?thesis using app [OF se] len by (auto simp: add_range_to_invlist_def)
  next
    case ne: False
    have len0: "invlist_len il \<noteq> 0" using len ne by simp
    show ?thesis
    proof (cases "fin > invlist_highest il")
      case False
      have "idx_ok xs (length xs) 0 fin"
      proof (cases "even (length xs)")
        case True
        then have "length xs > 1" using ne by (cases xs; cases "tl xs") auto
        then have "xs ! 0 < last xs" using srt ne by (simp add: last_conv_nth sorted_wrt_iff_nth_less)
        then have nz: "last xs \<noteq> 0" by (metis word_not_simps(1))
        have "fin < last xs" using False high True ne word_le_minus_one [OF nz, of fin] by (simp add: not_less)
        moreover then have "fin \<noteq> UV_MAX" by auto
        ultimately show ?thesis by (simp add: idx_ok_def)
      qed (simp add: idx_ok_def)
      from locate_holds [OF h ne se this] show ?thesis
        using len0 False len by (simp add: add_range_to_invlist_def Let_def)
    next
      case hi: True
      have ev: "even (length xs)"
      proof (rule ccontr)
        assume "odd (length xs)"
        with hi high ne have "UV_MAX < fin" by simp
        then show False by (simp add: not_less [symmetric] leD)
      qed
      obtain zs z where xs: "xs = zs @ [z]" using ne by (metis rev_exhaust)
      have zs: "zs \<noteq> []" "odd (length zs)" using ev xs by auto
      have "hd zs < z" using srt xs zs(1) by (simp add: sorted_wrt_append)
      then have nz: "z \<noteq> 0" by (metis word_not_simps(1))
      have cur: "invlist_highest il = z - 1" "invlist_highest il + 1 = z" using high ev xs by auto
      show ?thesis
      proof (cases "start > invlist_highest il")
        case True
        then have "last xs \<le> start" using cur(1) xs word_le_minus_one [OF nz, of start] by (simp add: not_less [symmetric])
        then show ?thesis using app [OF se] ev hi True len0 by (auto simp: add_range_to_invlist_def Let_def)
      next
        case False
        have zf: "z \<le> fin" using hi cur(1) word_le_minus_one [OF nz, of fin] by (simp add: not_less [symmetric])
        let ?ys = "zs @ (if fin = UV_MAX then [] else [fin + 1])"
        obtain r where r: "append_range_to_invlist il z fin = Inr r" "il_holds r ?ys"
          "holds_union r xs z fin"
          using app [OF zf] xs ev by (auto simp: append_spec_def)
        have ys: "?ys \<noteq> []" using zs by simp
        have "idx_ok ?ys (length xs) (if fin = UV_MAX then length xs else length xs - 2) fin"
        proof (cases "fin = UV_MAX")
          case True
          with xs zs show ?thesis by (simp add: idx_ok_def)
        next
          case fm: False
          have "x \<le> fin" if "x \<in> set zs" for x
            using that srt xs zf by (auto simp: sorted_wrt_append intro: less_imp_le less_le_trans)
          then have "il_rank zs fin = length zs" by (simp add: il_rank_eq_length)
          then show ?thesis using fm xs zs
            by (simp add: idx_ok_def word_less_plus_one word_plus_one_le)
        qed
        from locate_holds [OF r(2) ys se this] obtain u where
          u: "add_range_locate r (length xs) (if fin = UV_MAX then length xs else length xs - 2) start fin = Inr u"
          "holds_union u ?ys start fin" by blast
        have "in_ranges ?ys cp \<or> start \<le> cp \<and> cp \<le> fin \<longleftrightarrow> in_ranges xs cp \<or> start \<le> cp \<and> cp \<le> fin" for cp
        proof -
          have "start \<le> z" using False cur(1) word_le_minus_one [OF nz, of start] by (simp add: not_less less_imp_le)
          moreover have "in_ranges ?ys cp \<longleftrightarrow> in_ranges xs cp \<or> z \<le> cp \<and> cp \<le> fin"
            using r(2,3) by (auto simp: holds_union_def il_holds_iff)
          ultimately show ?thesis by auto
        qed
        then have "holds_union u xs start fin" using u(2) by (simp add: holds_union_def)
        then show ?thesis using hi False len0 r(1) u(1) cur(2) len
          by (auto simp: add_range_to_invlist_def Let_def)
      qed
    qed
  qed
qed

lemma add_range_set:
  assumes "case il of None \<Rightarrow> True | Some l \<Rightarrow> il_wf l" "start \<le> fin"
  shows "\<exists>r. add_range_to_invlist il start fin = Inr r \<and> il_wf r \<and> il_set r = opt_set il \<union> {start..fin}"
proof (cases il)
  case None
  obtain r where "append_range_to_invlist (new_invlist 2) start fin = Inr r"
    "il_holds r (append_spec [] start fin)"
    using il_holds_append_range [OF il_holds_new assms(2)] by blast
  with None show ?thesis using append_spec_set [OF assms(2), of "[]"] il_holdsD [of r]
    by (auto simp: add_range_to_invlist_def opt_set_def)
next
  case (Some l)
  then have "il_holds l (invlist_array l)" using assms(1) by (simp add: il_wf_holds)
  from add_range_holds [OF this assms(2)] Some show ?thesis
    using il_holdsD by (fastforce simp: holds_union_def opt_set_def il_set_def)
qed



end
