(* ===== verification/Invlist_Iter.thy ===== *)
theory Invlist_Iter
  imports Invlist_Edit
begin

text \<open>
  Walking an inversion list range by range, and its exchange with bitmaps: the conversions
  \<open>populate_bitmap_from_invlist\<close> and \<open>populate_invlist_from_bitmap\<close> of \<open>regcomp_invlist.c\<close>.
\<close>

section \<open>The loop over the ranges\<close>

text \<open>
  \<open>while (invlist_iternext (il, &start, &end)) body\<close>, with fuel; a body that does not end is
  \<open>None\<close>, as is a loop that runs out of fuel.  A list of \<open>n\<close> elements needs \<open>n div 2 + 2\<close> rounds.
\<close>

fun while_iternext :: "nat \<Rightarrow> (u64 \<Rightarrow> u64 \<Rightarrow> 's \<Rightarrow> 's option) \<Rightarrow> invlist \<Rightarrow> 's \<Rightarrow> ('s \<times> invlist) option" where
  "while_iternext 0 body il s = None"
| "while_iternext (Suc n) body il s =
     (case invlist_iternext il of
        (None, il) \<Rightarrow> Some (s, il)
      | (Some (start, fin), il) \<Rightarrow>
          (case body start fin s of None \<Rightarrow> None | Some s \<Rightarrow> while_iternext n body il s))"

definition iter_fuel :: "invlist \<Rightarrow> nat" where
  "iter_fuel il = invlist_len il div 2 + 2"

text \<open>The ranges a loop visits.\<close>

definition invlist_ranges :: "invlist \<Rightarrow> ((u64 \<times> u64) list \<times> invlist) option" where
  "invlist_ranges il =
     while_iternext (iter_fuel il) (\<lambda>start fin rs. Some (rs @ [(start, fin)])) (invlist_iterinit il) []"

section \<open>Bitmaps\<close>

definition BITMAP_BIT :: "u64 \<Rightarrow> u8" where
  "BITMAP_BIT c = push_bit (unat (c AND 7)) 1"

definition BITMAP_SET :: "u8 list \<Rightarrow> u64 \<Rightarrow> u8 list" where
  "BITMAP_SET p c = (let i = unat (drop_bit 3 c) in p[i := p ! i OR BITMAP_BIT c])"

definition BITMAP_TEST :: "u8 list \<Rightarrow> u64 \<Rightarrow> bool" where
  "BITMAP_TEST p c = (p ! unat (drop_bit 3 c) AND BITMAP_BIT c \<noteq> 0)"

text \<open>\<open>for (UV i = start; i <= end; i++)\<close>: with \<open>end\<close> the largest \<open>UV\<close> the loop does not end.\<close>

partial_function (option) set_bits :: "u64 \<Rightarrow> u64 \<Rightarrow> u64 \<Rightarrow> u8 list \<Rightarrow> u8 list option" where
  "set_bits offset i fin bitmap =
     (if i \<le> fin then set_bits offset (i + 1) fin (BITMAP_SET bitmap (i - offset)) else Some bitmap)"

definition populate_bitmap_from_invlist :: "invlist \<Rightarrow> u64 \<Rightarrow> nat \<Rightarrow> (u8 list \<times> invlist) option" where
  "populate_bitmap_from_invlist il offset len =
     (case while_iternext (iter_fuel il) (set_bits offset) (invlist_iterinit il) (replicate len 0) of
        None \<Rightarrow> None
      | Some (bitmap, il) \<Rightarrow> Some (bitmap, invlist_iterfinish il))"

text \<open>\<open>while (i < bitmap_len && BITMAP_TEST (bitmap, i)) i++\<close>\<close>

function run_end :: "u8 list \<Rightarrow> nat \<Rightarrow> nat \<Rightarrow> nat" where
  "run_end bitmap bitmap_len i =
     (if i < bitmap_len \<and> BITMAP_TEST bitmap (of_nat i) then run_end bitmap bitmap_len (i + 1) else i)"
  by pat_completeness auto
termination by (relation "measure (\<lambda>(b, n, i). n - i)") auto

declare run_end.simps [simp del]

lemma run_end_ge: "i \<le> run_end bitmap n i"
  by (induction bitmap n i rule: run_end.induct) (subst run_end.simps, auto)

text \<open>The first bit of a run is kept in an \<open>int\<close>: \<open>i\<close> loses its bits from 32 on, and the
  addition of the \<open>UV\<close> \<open>offset\<close> extends its sign.\<close>

definition int_start :: "nat \<Rightarrow> u64" where
  "int_start i = scast (of_nat i :: u32)"

function invlist_from_bitmap :: "u8 list \<Rightarrow> nat \<Rightarrow> u64 \<Rightarrow> nat \<Rightarrow> invlist option \<Rightarrow> il_error + invlist option" where
  "invlist_from_bitmap bitmap bitmap_len offset i il =
     (if i < bitmap_len then
        if BITMAP_TEST bitmap (of_nat i) then
          let start = i; i = run_end bitmap bitmap_len (i + 1)
          in attempt (add_range_to_invlist il (int_start start + offset) (of_nat i + offset - 1))
               (\<lambda>il. invlist_from_bitmap bitmap bitmap_len offset (i + 1) (Some il))
        else invlist_from_bitmap bitmap bitmap_len offset (i + 1) il
      else Inr il)"
  by pat_completeness auto
termination
proof (relation "measure (\<lambda>(b, n, offset, i, il). n - i)", goal_cases)
  case (2 bitmap bitmap_len offset i il x xa xb)
  then show ?case using run_end_ge [of "i + 1" bitmap bitmap_len] by auto
qed auto

declare invlist_from_bitmap.simps [simp del]

definition populate_invlist_from_bitmap :: "u8 list \<Rightarrow> nat \<Rightarrow> invlist option \<Rightarrow> u64 \<Rightarrow> il_error + invlist option" where
  "populate_invlist_from_bitmap bitmap bitmap_len il offset =
     invlist_from_bitmap bitmap bitmap_len offset 0 il"

section \<open>The ranges of a list\<close>

fun pairs_of :: "u64 list \<Rightarrow> (u64 \<times> u64) list" where
  "pairs_of [] = []"
| "pairs_of [x] = [(x, UV_MAX)]"
| "pairs_of (x # y # zs) = (x, y - 1) # pairs_of zs"

fun fold_ranges :: "(u64 \<Rightarrow> u64 \<Rightarrow> 's \<Rightarrow> 's option) \<Rightarrow> (u64 \<times> u64) list \<Rightarrow> 's \<Rightarrow> 's option" where
  "fold_ranges body [] s = Some s"
| "fold_ranges body ((a, b) # rs) s = (case body a b s of None \<Rightarrow> None | Some s \<Rightarrow> fold_ranges body rs s)"

lemma in_ranges_pairs:
  "sorted_wrt (<) xs \<Longrightarrow> in_ranges xs cp \<longleftrightarrow> (\<exists>(a, b) \<in> set (pairs_of xs). a \<le> cp \<and> cp \<le> b)"
proof (induction xs rule: pairs_of.induct)
  case (3 x y zs)
  have nz: "y \<noteq> 0" using 3(2) by (metis sorted_wrt.simps(2) list.set_intros(1) word_not_simps(1))
  have z: "\<not> in_ranges zs cp" if "cp < y" using that 3(2) by (intro in_ranges_below) (auto intro: less_trans)
  have "cp \<le> y - 1 \<longleftrightarrow> cp < y" using nz by (rule word_le_minus_one)
  moreover have "x \<le> cp" if "y \<le> cp" using that 3(2) by (auto intro: less_imp_le less_le_trans)
  ultimately show ?case using 3 z by (auto simp: not_le)
qed auto

lemma pairs_of_ordered:
  "sorted_wrt (<) xs \<Longrightarrow> (a, b) \<in> set (pairs_of xs) \<Longrightarrow> a \<le> b"
proof (induction xs rule: pairs_of.induct)
  case (3 x y zs)
  have nz: "y \<noteq> 0" using 3(2) by (metis sorted_wrt.simps(2) list.set_intros(1) word_not_simps(1))
  then show ?case using 3 word_le_minus_one [OF nz] by auto
qed auto

text \<open>Successive ranges do not touch: between two of them lies at least one code point.\<close>

definition apart :: "u64 \<times> u64 \<Rightarrow> u64 \<times> u64 \<Rightarrow> bool" where
  "apart r r' \<longleftrightarrow> snd r \<noteq> UV_MAX \<and> snd r + 1 < fst r'"

lemma pairs_of_starts: "(a, b) \<in> set (pairs_of xs) \<Longrightarrow> a \<in> set xs"
  by (induction xs rule: pairs_of.induct) auto

lemma pairs_of_apart: "sorted_wrt (<) xs \<Longrightarrow> sorted_wrt apart (pairs_of xs)"
proof (induction xs rule: pairs_of.induct)
  case (3 x y zs)
  then have nz: "y \<noteq> 0" by (metis sorted_wrt.simps(2) list.set_intros(1) word_not_simps(1))
  have "apart (x, y - 1) r" if "r \<in> set (pairs_of zs)" for r
    using that 3(2) nz pairs_of_starts [of "fst r" "snd r" zs] by (auto simp: apart_def)
  with 3 show ?case by auto
qed auto

lemma while_iternext_pairs:
  assumes "il_holds il xs" "il_iter il = of_nat (2 * k)" "2 * k \<le> length xs + 1" "length xs < 2 ^ 63"
    and "length xs div 2 + 2 \<le> n + k"
  shows "while_iternext n body il s = (case fold_ranges body (pairs_of (drop (2 * k) xs)) s of
      None \<Rightarrow> None | Some s \<Rightarrow> Some (s, il\<lparr>il_iter := UV_MAX\<rparr>))"
  using assms
proof (induction n arbitrary: k il s)
  case 0
  then show ?case by simp
next
  case (Suc n)
  have len: "invlist_len il = length xs" and ok: "il_ok il" and arr: "invlist_array il = xs"
    using il_holdsD [OF Suc.prems(1)] by auto
  have get: "arr_get il i = xs ! i" if "i < length xs" for i
    using that ok len arr by (simp add: arr_get_nth)
  have u: "unat (il_iter il) = 2 * k"
  proof -
    have "2 * k < 2 ^ LENGTH(64)" using Suc.prems(3,4) by simp
    then show ?thesis unfolding Suc.prems(2) by (subst unat_of_nat) (rule mod_less)
  qed
  show ?case
  proof (cases "2 * k < length xs")
    case False
    then show ?thesis using u len by (simp add: invlist_iternext_def Let_def)
  next
    case lt: True
    show ?thesis
    proof (cases "2 * k + 1 < length xs")
      case True
      then have d: "drop (2 * k) xs = xs ! (2 * k) # xs ! (2 * k + 1) # drop (2 * (k + 1)) xs"
      proof -
        have "drop (2 * k) xs = xs ! (2 * k) # drop (Suc (2 * k)) xs" using lt by (simp add: Cons_nth_drop_Suc)
        also have "drop (Suc (2 * k)) xs = xs ! Suc (2 * k) # drop (Suc (Suc (2 * k))) xs"
          using True by (simp add: Cons_nth_drop_Suc)
        finally show ?thesis by simp
      qed
      define il' where "il' = il\<lparr>il_iter := of_nat (2 * (k + 1))\<rparr>"
      have it: "invlist_iternext il = (Some (xs ! (2 * k), xs ! (2 * k + 1) - 1), il')"
        using True lt u len get by (simp add: invlist_iternext_def Let_def il'_def)
      have "while_iternext n body il' s' = (case fold_ranges body (pairs_of (drop (2 * (k + 1)) xs)) s' of
        None \<Rightarrow> None | Some s \<Rightarrow> Some (s, il'\<lparr>il_iter := UV_MAX\<rparr>))" for s'
        by (rule Suc.IH) (use Suc.prems True in \<open>auto simp: il'_def il_holds_def il_repr_def il_owned_def\<close>)
      then show ?thesis unfolding d by (simp add: it il'_def split: option.splits)
    next
      case False
      then have e: "length xs = 2 * k + 1" using lt by simp
      then have d: "drop (2 * k) xs = [xs ! (2 * k)]" "drop (2 * (k + 1)) xs = []"
        by (simp_all flip: Cons_nth_drop_Suc)
      define il' where "il' = il\<lparr>il_iter := of_nat (2 * k + 1)\<rparr>"
      have it: "invlist_iternext il = (Some (xs ! (2 * k), UV_MAX), il')"
        using False lt u len get by (simp add: invlist_iternext_def Let_def il'_def)
      have l: "invlist_len il' = 2 * k + 1" using len e by (auto simp: il'_def invlist_len_def split: if_splits)
      have u': "unat (il_iter il') = 2 * k + 1"
      proof -
        have "2 * k + 1 < 2 ^ LENGTH(64)" using Suc.prems(4) e by simp
        then have "unat (of_nat (2 * k + 1) :: u64) = 2 * k + 1" by (subst unat_of_nat) (rule mod_less)
        then show ?thesis by (simp add: il'_def)
      qed
      obtain n' where n: "n = Suc n'" using Suc.prems(5) e by (cases n) auto
      have "while_iternext n body il' s' = Some (s', il\<lparr>il_iter := UV_MAX\<rparr>)" for s'
        using u' l n by (simp add: invlist_iternext_def Let_def) (simp add: il'_def)
      then show ?thesis unfolding d by (simp add: it split: option.splits)
    qed
  qed
qed

lemma fold_ranges_collect:
  "fold_ranges (\<lambda>a b rs. Some (rs @ [(a, b)])) ps rs = Some (rs @ ps)"
  by (induction ps arbitrary: rs) auto

lemma while_iternext_all:
  assumes "il_holds il xs" "length xs < 2 ^ 63"
  shows "while_iternext (iter_fuel il) body (invlist_iterinit il) s =
    (case fold_ranges body (pairs_of xs) s of
      None \<Rightarrow> None | Some s \<Rightarrow> Some (s, il\<lparr>il_iter := UV_MAX\<rparr>))"
proof -
  have h: "il_holds (il\<lparr>il_iter := 0\<rparr>) xs"
    using assms(1) by (auto simp: il_holds_def il_repr_def il_owned_def)
  have "while_iternext (iter_fuel il) body (il\<lparr>il_iter := 0\<rparr>) s =
    (case fold_ranges body (pairs_of (drop (2 * 0) xs)) s of
      None \<Rightarrow> None | Some s \<Rightarrow> Some (s, il\<lparr>il_iter := 0\<rparr>\<lparr>il_iter := UV_MAX\<rparr>))"
    by (rule while_iternext_pairs [OF h])
      (use assms il_holdsD(6) [OF assms(1)] in \<open>simp_all add: iter_fuel_def\<close>)
  then show ?thesis by (simp add: invlist_iterinit_def split: option.splits)
qed

lemma invlist_ranges_holds:
  assumes "il_holds il xs" "length xs < 2 ^ 63"
  shows "invlist_ranges il = Some (pairs_of xs, il\<lparr>il_iter := UV_MAX\<rparr>)"
  unfolding invlist_ranges_def while_iternext_all [OF assms] fold_ranges_collect by simp



section \<open>Bitmap from a list\<close>

lemma and_7: "unat (c AND 7 :: u64) = unat c mod 8"
proof -
  have "c AND 7 = take_bit 3 c" by (simp add: take_bit_eq_mask mask_eq_exp_minus_1)
  then show ?thesis by (simp add: take_bit_eq_mod unat_mod)
qed

lemma drop_3: "unat (drop_bit 3 c :: u64) = unat c div 8"
  by (simp add: drop_bit_eq_div unat_div)

lemma BITMAP_BIT_bit: "bit (BITMAP_BIT c) n \<longleftrightarrow> n = unat c mod 8"
proof -
  have "n < 8" if "n = unat c mod 8" using that by simp
  then show ?thesis by (auto simp: BITMAP_BIT_def and_7 bit_exp_iff)
qed

lemma BITMAP_TEST_bit: "BITMAP_TEST p c \<longleftrightarrow> bit (p ! (unat c div 8)) (unat c mod 8)"
proof -
  have "BITMAP_TEST p c \<longleftrightarrow> (\<exists>n. bit (p ! (unat c div 8)) n \<and> n = unat c mod 8)"
    by (simp add: BITMAP_TEST_def drop_3 bit_eq_iff [of _ "0 :: u8"] bit_and_iff BITMAP_BIT_bit)
  then show ?thesis by simp
qed

lemma BITMAP_TEST_SET:
  assumes "unat c div 8 < length p"
  shows "BITMAP_TEST (BITMAP_SET p c) d \<longleftrightarrow> BITMAP_TEST p d \<or> d = c"
proof -
  have "d = c \<longleftrightarrow> unat d div 8 = unat c div 8 \<and> unat d mod 8 = unat c mod 8"
    by (metis div_mult_mod_eq word_unat_eq_iff)
  then show ?thesis
    using assms by (auto simp: BITMAP_TEST_bit BITMAP_SET_def Let_def drop_3 nth_list_update bit_or_iff BITMAP_BIT_bit)
qed

lemma length_BITMAP_SET [simp]: "length (BITMAP_SET p c) = length p"
  by (simp add: BITMAP_SET_def Let_def)

lemma set_bits_correct:
  assumes "fin \<noteq> UV_MAX" "\<And>cp. i \<le> cp \<Longrightarrow> cp \<le> fin \<Longrightarrow> unat (cp - offset) div 8 < length p"
  shows "\<exists>q. set_bits offset i fin p = Some q \<and> length q = length p \<and>
    (\<forall>d. BITMAP_TEST q d \<longleftrightarrow> BITMAP_TEST p d \<or> (\<exists>cp. i \<le> cp \<and> cp \<le> fin \<and> d = cp - offset))"
  using assms
proof (induction "unat fin + 1 - unat i" arbitrary: i p)
  case 0
  then have "\<not> i \<le> fin" by (simp add: word_le_nat_alt)
  then show ?case by (subst set_bits.simps) (auto dest: order.trans)
next
  case (Suc n)
  have le: "i \<le> fin" using Suc.hyps(2) by (simp add: word_le_nat_alt)
  have nm: "i \<noteq> UV_MAX" using le Suc.prems(1) word_order.extremum_uniqueI by blast
  have step: "i + 1 \<le> cp \<longleftrightarrow> i < cp" for cp using nm by (rule word_plus_one_le)
  have "n = unat fin + 1 - unat (i + 1)" using Suc.hyps(2) nm by (simp add: unat_plus_one)
  from Suc.hyps(1) [OF this Suc.prems(1), of "BITMAP_SET p (i - offset)"] Suc.prems(2)
  obtain q where q: "set_bits offset (i + 1) fin (BITMAP_SET p (i - offset)) = Some q" "length q = length p"
    "\<forall>d. BITMAP_TEST q d \<longleftrightarrow> BITMAP_TEST (BITMAP_SET p (i - offset)) d \<or>
       (\<exists>cp. i + 1 \<le> cp \<and> cp \<le> fin \<and> d = cp - offset)"
    by (auto simp: step less_imp_le)
  have "BITMAP_TEST (BITMAP_SET p (i - offset)) d \<longleftrightarrow> BITMAP_TEST p d \<or> d = i - offset" for d
    using Suc.prems(2) [of i] le by (intro BITMAP_TEST_SET) simp
  moreover have "i \<le> cp \<longleftrightarrow> cp = i \<or> i < cp" for cp by auto
  ultimately show ?case using q le by (subst set_bits.simps) (auto simp: step)
qed

lemma fold_set_bits:
  assumes "\<And>a b. (a, b) \<in> set ps \<Longrightarrow> b \<noteq> UV_MAX \<and> (\<forall>cp. a \<le> cp \<and> cp \<le> b \<longrightarrow> unat (cp - offset) div 8 < length p)"
  shows "\<exists>q. fold_ranges (set_bits offset) ps p = Some q \<and> length q = length p \<and>
    (\<forall>d. BITMAP_TEST q d \<longleftrightarrow> BITMAP_TEST p d \<or> (\<exists>(a, b) \<in> set ps. \<exists>cp. a \<le> cp \<and> cp \<le> b \<and> d = cp - offset))"
  using assms
proof (induction ps arbitrary: p)
  case (Cons r ps)
  obtain a b where r: "r = (a, b)" by fastforce
  obtain q where q: "set_bits offset a b p = Some q" "length q = length p"
    "\<forall>d. BITMAP_TEST q d \<longleftrightarrow> BITMAP_TEST p d \<or> (\<exists>cp. a \<le> cp \<and> cp \<le> b \<and> d = cp - offset)"
    using set_bits_correct [of b a offset p] Cons.prems [of a b] r by auto
  obtain q' where q': "fold_ranges (set_bits offset) ps q = Some q'" "length q' = length q"
    "\<forall>d. BITMAP_TEST q' d \<longleftrightarrow> BITMAP_TEST q d \<or> (\<exists>(a, b) \<in> set ps. \<exists>cp. a \<le> cp \<and> cp \<le> b \<and> d = cp - offset)"
    using Cons.IH [of q] Cons.prems q(2) by auto
  show ?case using q q' r by auto
qed simp

lemma populate_bitmap_holds:
  assumes h: "il_holds il xs" "length xs < 2 ^ 63"
    and room: "\<And>cp. in_ranges xs cp \<Longrightarrow> cp \<noteq> UV_MAX \<and> unat (cp - offset) div 8 < len"
  shows "\<exists>bitmap. populate_bitmap_from_invlist il offset len = Some (bitmap, il\<lparr>il_iter := UV_MAX\<rparr>) \<and>
    length bitmap = len \<and> (\<forall>d. unat d div 8 < len \<longrightarrow> (BITMAP_TEST bitmap d \<longleftrightarrow> in_ranges xs (d + offset)))"
proof -
  have srt: "sorted_wrt (<) xs" using h(1) by (rule il_holdsD)
  have "b \<noteq> UV_MAX \<and> (\<forall>cp. a \<le> cp \<and> cp \<le> b \<longrightarrow> unat (cp - offset) div 8 < length (replicate len (0 :: u8)))"
    if "(a, b) \<in> set (pairs_of xs)" for a b
    using room that pairs_of_ordered [OF srt that] in_ranges_pairs [OF srt] by fastforce
  from fold_set_bits [where ps = "pairs_of xs", OF this] obtain q where q: "fold_ranges (set_bits offset) (pairs_of xs) (replicate len 0) = Some q"
    "length q = len" "\<And>d. BITMAP_TEST q d \<longleftrightarrow> BITMAP_TEST (replicate len 0) d \<or>
      (\<exists>(a, b) \<in> set (pairs_of xs). \<exists>cp. a \<le> cp \<and> cp \<le> b \<and> d = cp - offset)"
    by auto
  have z: "\<not> BITMAP_TEST (replicate len 0) d" if "unat d div 8 < len" for d
    using that by (simp add: BITMAP_TEST_bit)
  have "BITMAP_TEST q d \<longleftrightarrow> in_ranges xs (d + offset)" if "unat d div 8 < len" for d
    unfolding q(3) in_ranges_pairs [OF srt]
    using z [OF that] by (auto simp: eq_diff_eq)
  with q show ?thesis
    unfolding populate_bitmap_from_invlist_def while_iternext_all [OF h]
    by (simp add: invlist_iterfinish_def)
qed




section \<open>A list from a bitmap\<close>

lemma run_end_stop:
  "run_end bitmap n i \<le> max i n" "\<And>j. i \<le> j \<Longrightarrow> j < run_end bitmap n i \<Longrightarrow> BITMAP_TEST bitmap (of_nat j)"
  "run_end bitmap n i < n \<Longrightarrow> \<not> BITMAP_TEST bitmap (of_nat (run_end bitmap n i))"
proof (induction bitmap n i rule: run_end.induct)
  case (1 bitmap n i)
  note IH = "1.IH"
  { case 1 show ?case using IH(1) by (subst run_end.simps) (auto simp: max_def split: if_splits) }
  { case (2 j)
    show ?case
    proof (cases "i < n \<and> BITMAP_TEST bitmap (of_nat i)")
      case True
      then have "run_end bitmap n i = run_end bitmap n (i + 1)" by (subst run_end.simps) simp
      with True 2 IH(2) [OF True, of j] show ?thesis by (cases "j = i") auto
    next
      case False
      with 2 show ?thesis by (subst (asm) run_end.simps) (auto split: if_splits)
    qed }
  { case 3 then show ?case using IH(3) by (subst run_end.simps, subst (asm) run_end.simps) (auto split: if_splits) }
qed

lemma word_interval_nat:
  fixes offset :: u64
  assumes "a < b" "unat offset + b \<le> 2 ^ 64"
  shows "of_nat a + offset \<le> of_nat b + offset - 1"
    and "of_nat a + offset \<le> cp \<and> cp \<le> of_nat b + offset - 1 \<longleftrightarrow> (\<exists>j. a \<le> j \<and> j < b \<and> cp = of_nat j + offset)"
proof -
  have u: "unat (of_nat j + offset) = unat offset + j" if "j < b" for j
  proof -
    have "of_nat j + offset = of_nat (j + unat offset)" by simp
    moreover have "j + unat offset < 2 ^ LENGTH(64)" using assms that by simp
    ultimately show ?thesis by (metis unat_of_nat mod_less add.commute)
  qed
  have e: "of_nat b + offset - 1 = of_nat (b - 1) + offset" using assms(1) by (cases b) auto
  have ub: "unat (of_nat b + offset - 1) = unat offset + (b - 1)" unfolding e using assms(1) by (intro u) simp
  show "of_nat a + offset \<le> of_nat b + offset - 1"
    unfolding word_le_nat_alt ub u [OF assms(1)] using assms(1) by simp
  show "of_nat a + offset \<le> cp \<and> cp \<le> of_nat b + offset - 1 \<longleftrightarrow> (\<exists>j. a \<le> j \<and> j < b \<and> cp = of_nat j + offset)"
  proof
    assume "of_nat a + offset \<le> cp \<and> cp \<le> of_nat b + offset - 1"
    then have c: "unat offset + a \<le> unat cp" "unat cp \<le> unat offset + (b - 1)"
      unfolding word_le_nat_alt ub u [OF assms(1)] by simp_all
    have "unat (of_nat (unat cp - unat offset) + offset) = unat cp"
      using c assms(1) by (subst u) auto
    then have "cp = of_nat (unat cp - unat offset) + offset" by (simp only: word_unat_eq_iff)
    then show "\<exists>j. a \<le> j \<and> j < b \<and> cp = of_nat j + offset"
      using c assms(1) by (intro exI [of _ "unat cp - unat offset"]) auto
  next
    assume "\<exists>j. a \<le> j \<and> j < b \<and> cp = of_nat j + offset"
    then obtain j where "a \<le> j" "j < b" "cp = of_nat j + offset" by blast
    then show "of_nat a + offset \<le> cp \<and> cp \<le> of_nat b + offset - 1"
      unfolding word_le_nat_alt ub u [OF assms(1)] using u [of j] by simp
  qed
qed

definition some_wf :: "invlist option \<Rightarrow> bool" where
  "some_wf il = (case il of None \<Rightarrow> True | Some l \<Rightarrow> il_wf l)"

text \<open>The code points of the bits \<open>i \<le> j < n\<close> that are set.\<close>

definition bitmap_set :: "u8 list \<Rightarrow> u64 \<Rightarrow> nat \<Rightarrow> nat \<Rightarrow> u64 set" where
  "bitmap_set bitmap offset i n = (\<lambda>j. of_nat j + offset) ` {j. i \<le> j \<and> j < n \<and> BITMAP_TEST bitmap (of_nat j)}"

text \<open>An \<open>int\<close> holds the number of a bit below \<open>2 ^ 31\<close>; beyond, the number is lost.\<close>

lemma int_start_small:
  assumes "i < 2 ^ 31"
  shows "int_start i = of_nat i"
proof -
  have "sint (of_nat i :: u32) = int i"
    using assms by (simp add: sint_uint unsigned_of_nat of_nat_take_bit take_bit_int_eq_self signed_take_bit_int_eq_self)
  then show ?thesis by (simp add: int_start_def scast_eq)
qed

lemma int_start_wraps: "int_start (2 ^ 31) = - (2 ^ 31)" "int_start (2 ^ 32) = 0"
  by (simp_all add: int_start_def scast_eq)

lemma invlist_from_bitmap_correct:
  assumes "unat offset + n \<le> 2 ^ 64" "some_wf il" "n \<le> 2 ^ 31"
  shows "\<exists>r. invlist_from_bitmap bitmap n offset i il = Inr r \<and> some_wf r \<and>
    opt_set r = opt_set il \<union> bitmap_set bitmap offset i n"
  using assms
proof (induction bitmap n offset i il rule: invlist_from_bitmap.induct)
  case (1 bitmap n offset i il)
  show ?case
  proof (cases "i < n")
    case False
    then show ?thesis using 1(4) by (subst invlist_from_bitmap.simps) (auto simp: bitmap_set_def)
  next
    case lt: True
    show ?thesis
    proof (cases "BITMAP_TEST bitmap (of_nat i)")
      case False
      then have "j \<noteq> i" if "BITMAP_TEST bitmap (of_nat j)" for j using that by auto
      then have "{j. i \<le> j \<and> j < n \<and> BITMAP_TEST bitmap (of_nat j)} =
          {j. i + 1 \<le> j \<and> j < n \<and> BITMAP_TEST bitmap (of_nat j)}"
        by (auto simp: Suc_le_eq le_eq_less_or_eq)
      then have "bitmap_set bitmap offset i n = bitmap_set bitmap offset (i + 1) n"
        by (simp only: bitmap_set_def)
      with lt False 1(2) [OF lt False 1(3-5)] show ?thesis
        by (subst invlist_from_bitmap.simps) simp
    next
      case True
      define e where "e = run_end bitmap n (i + 1)"
      note r = run_end_stop [where bitmap = bitmap and n = n and i = "i + 1", folded e_def]
      have e: "i < e" "e \<le> n" using run_end_ge [of "i + 1" bitmap n] r(1) lt by (auto simp: e_def)
      have b: "unat offset + e \<le> 2 ^ 64" using 1(3) e by simp
      have i: "int_start i = of_nat i" using 1(5) lt by (intro int_start_small) simp
      note w = word_interval_nat [OF e(1) b]
      obtain l where l: "add_range_to_invlist il (of_nat i + offset) (of_nat e + offset - 1) = Inr l" "il_wf l"
        "il_set l = opt_set il \<union> {of_nat i + offset .. of_nat e + offset - 1}"
        using add_range_set [of il, OF _ w(1)] 1(4) by (auto simp: some_wf_def)
      obtain r' where r': "invlist_from_bitmap bitmap n offset (e + 1) (Some l) = Inr r'" "some_wf r'"
        "opt_set r' = opt_set (Some l) \<union> bitmap_set bitmap offset (e + 1) n"
        using 1(1) [OF lt True refl e_def 1(3), of l] l(2) 1(5) by (auto simp: some_wf_def)
      have "BITMAP_TEST bitmap (of_nat j)" if "i \<le> j" "j < e" for j
        using r(2) [of j] that True by (cases "j = i") auto
      moreover have "\<not> BITMAP_TEST bitmap (of_nat e)" if "e < n" using r(3) that by simp
      ultimately have "{j. i \<le> j \<and> j < n \<and> BITMAP_TEST bitmap (of_nat j)} =
          {j. i \<le> j \<and> j < e} \<union> {j. e + 1 \<le> j \<and> j < n \<and> BITMAP_TEST bitmap (of_nat j)}"
        using e by (auto simp: Suc_le_eq) (metis linorder_neqE_nat)
      then have "bitmap_set bitmap offset i n =
        (\<lambda>j. of_nat j + offset) ` {j. i \<le> j \<and> j < e} \<union>
        bitmap_set bitmap offset (e + 1) n"
        by (simp only: bitmap_set_def image_Un)
      moreover have "{of_nat i + offset .. of_nat e + offset - 1} = (\<lambda>j. of_nat j + offset) ` {j. i \<le> j \<and> j < e}"
        using w(2) by (auto simp: set_eq_iff)
      moreover have "invlist_from_bitmap bitmap n offset i il = Inr r'"
        using lt True l(1) r'(1) by (subst invlist_from_bitmap.simps) (simp add: e_def Let_def i)
      ultimately show ?thesis using r' l(3) by (auto simp: opt_set_def)
    qed
  qed
qed

section \<open>Equality\<close>

lemma in_ranges_inj:
  "sorted_wrt (<) xs \<Longrightarrow> sorted_wrt (<) ys \<Longrightarrow> (\<forall>cp. in_ranges xs cp = in_ranges ys cp) \<Longrightarrow> xs = ys"
proof (induction xs arbitrary: ys)
  case Nil
  show ?case
  proof (cases ys)
    case (Cons y ys')
    then have "in_ranges ys y" using Nil.prems(2) in_ranges_below [of ys' y] by auto
    with Nil.prems(3) show ?thesis by simp
  qed simp
next
  case (Cons x xs)
  have x: "\<not> in_ranges xs x" "in_ranges (x # xs) x" using Cons.prems(1) in_ranges_below [of xs x] by auto
  obtain y ys' where ys: "ys = y # ys'" using x(2) Cons.prems(3) [rule_format, of x] by (cases ys) simp_all
  have y: "\<not> in_ranges ys' y" "in_ranges ys y" using Cons.prems(2) ys in_ranges_below [of ys' y] by auto
  have "x \<le> y"
  proof (rule ccontr)
    assume "\<not> x \<le> y"
    then have "\<not> in_ranges (x # xs) y" using Cons.prems(1) by (intro in_ranges_below) (auto simp: not_le intro: less_trans)
    with y(2) Cons.prems(3) [rule_format, of y] show False by simp
  qed
  moreover have "y \<le> x"
  proof (rule ccontr)
    assume "\<not> y \<le> x"
    then have "\<not> in_ranges ys x" using Cons.prems(2) ys by (intro in_ranges_below) (auto simp: not_le intro: less_trans)
    with x(2) Cons.prems(3) [rule_format, of x] show False by simp
  qed
  ultimately have xy: "x = y" by simp
  have "in_ranges xs cp = in_ranges ys' cp" for cp
    using Cons.prems(3) ys xy by (cases "x \<le> cp") (auto dest!: spec [of _ cp])
  then show ?case using Cons.IH [of ys'] Cons.prems(1,2) ys xy by simp
qed

lemma invlistEQ_array:
  assumes "il_ok a" "il_ok b"
  shows "invlistEQ a b complement_b \<longleftrightarrow> invlist_array a =
    (if complement_b then (if invlist_array b = [] then [0] else complement_array (invlist_array b))
     else invlist_array b)"
proof -
  have len: "invlist_len a = length (invlist_array a)" "invlist_len b = length (invlist_array b)"
    using assms by simp_all
  show ?thesis
  proof (cases "invlist_array b = []")
    case True
    have "length (invlist_array a) = 1 \<and> arr_get a 0 = 0 \<longleftrightarrow> invlist_array a = [0]"
      using arr_get_nth [of 0 a] assms(1) len(1) by (cases "invlist_array a") auto
    then show ?thesis using True len by (simp add: invlistEQ_def Let_def)
  next
    case False
    have "length xs = length ys \<and> xs = ys \<longleftrightarrow> xs = ys" for xs ys :: "u64 list" by auto
    with False len show ?thesis by (simp add: invlistEQ_def Let_def)
  qed
qed

lemma invlistEQ_correct:
  assumes "il_wf a" "il_wf b"
  shows "invlistEQ a b complement_b \<longleftrightarrow> il_set a = second_set b complement_b"
proof -
  let ?a = "invlist_array a" and ?b = "invlist_array b"
  have ok: "il_ok a" "il_ok b" using assms by (auto simp: il_wf_def)
  have srt: "sorted_wrt (<) ?a" "sorted_wrt (<) ?b" using ok by (auto intro: invlist_array_sorted)
  define c where "c = (if complement_b then (if ?b = [] then [0] else complement_array ?b) else ?b)"
  have c: "sorted_wrt (<) c" "second_set b complement_b = {cp. in_ranges c cp}"
    using srt(2) complement_array_correct [OF srt(2)]
    by (auto simp: c_def second_set_def il_set_def)
  have "il_set a = second_set b complement_b \<longleftrightarrow> ?a = c"
    using in_ranges_inj [OF srt(1) c(1)] unfolding c(2) il_set_def set_eq_iff mem_Collect_eq by metis
  then show ?thesis using invlistEQ_array [OF ok] by (simp add: c_def)
qed


end
