(* ===== verification/Invlist_Props.thy ===== *)
theory Invlist_Props
  imports Invlist_Iter
begin

text \<open>
  What the inversion lists of \<open>regcomp_invlist.c\<close> promise, over the set \<open>il_set\<close> of code points
  a list stands for.  Each property is followed by an instance on concrete lists:
  \<open>upper_list\<close> is \<open>A-Z\<close>, \<open>low_list\<close> is \<open>0-2\<close>.
\<close>

definition upper_list :: invlist where
  "upper_list = \<lparr>il_svlen = 32, il_buf = [0, 65, 91, 0], il_cur = 3, il_offset = True,
     il_prev = 1, il_iter = UV_MAX\<rparr>"

definition low_list :: invlist where
  "low_list = \<lparr>il_svlen = 32, il_buf = [0, 3, 7, 7], il_cur = 2, il_offset = False,
     il_prev = 0, il_iter = UV_MAX\<rparr>"

lemma example_lists: "il_wf upper_list" "il_wf low_list"
  "invlist_array upper_list = [65, 91]" "invlist_array low_list = [0, 3]"
  by (simp_all add: upper_list_def low_list_def il_wf_def il_ok_def il_owned_def
      invlist_array_def invlist_len_def)

lemma example_sets: "cp \<in> il_set upper_list \<longleftrightarrow> 65 \<le> cp \<and> cp < 91" "cp \<in> il_set low_list \<longleftrightarrow> cp < 3"
  by (auto simp: il_set_def example_lists word_le_nat_alt word_less_nat_alt)

text \<open>C1: the cached binary search decides membership: whatever index the cache holds,
  \<open>invlist_contains_cp_\<close> answers whether the code point lies in the set, and changes nothing but
  the cache.\<close>

theorem contains_cp_decides:
  assumes "il_ok il"
  shows "(fst (invlist_contains_cp il cp) \<longleftrightarrow> cp \<in> il_set il) \<and>
    (\<exists>p. snd (invlist_contains_cp il cp) = il\<lparr>il_prev := p\<rparr>)"
  using invlist_contains_cp_iff [OF assms, of cp] invlist_search_state [of il cp]
  by (simp add: invlist_contains_cp_def split_beta)

theorem contains_cp_decides_witness:
  "fst (invlist_contains_cp upper_list 66) \<and> \<not> fst (invlist_contains_cp upper_list 91)"
  using contains_cp_decides [of upper_list 66] contains_cp_decides [of upper_list 91]
    example_lists(1) by (simp add: il_wf_def example_sets)

text \<open>C2: the union merge, for every operand (null, empty or not, the second one complemented or
  not) and every destination, ends without an error in a well-formed list for exactly the union
  of the two sets.\<close>

theorem union_correct:
  assumes "args_ok a b output"
  shows "\<exists>u. invlist_union_maybe_complement_2nd a b complement_b output = Inr u \<and> il_wf u \<and>
    il_set u = opt_set a \<union> second_set b complement_b"
  by (rule union_holds [OF assms]) (use il_holdsD in auto)

theorem union_correct_witness:
  "\<exists>u. invlist_union_maybe_complement_2nd (Some upper_list) low_list True OutA = Inr u \<and> il_wf u \<and>
    il_set u = opt_set (Some upper_list) \<union> second_set low_list True"
  using union_correct [of "Some upper_list" low_list OutA True]
  by (simp add: args_ok_def example_lists)

text \<open>C3: the intersection merge likewise yields a well-formed list for exactly the intersection
  of the first set with the second one or, for a subtraction, with its complement.\<close>

theorem intersection_correct:
  assumes "args_ok a b output"
  shows "il_wf (invlist_intersection_maybe_complement_2nd a b complement_b output) \<and>
    il_set (invlist_intersection_maybe_complement_2nd a b complement_b output) =
      opt_set a \<inter> second_set b complement_b"
  by (rule intersection_holds [OF assms, of complement_b]) (use il_holdsD in auto)

theorem intersection_correct_witness:
  "il_wf (invlist_subtract (Some upper_list) low_list OutNull)"
  using intersection_correct [of "Some upper_list" low_list OutNull True]
  by (simp add: args_ok_def example_lists)

text \<open>C4: \<open>add_range_to_invlist_\<close>, which edits the list in place through all its cases (append,
  prepend, extend a range downwards or upwards, merge the ranges it bridges, splice in a new
  one), adds exactly the code points from \<open>start\<close> to \<open>end\<close> and never fails.\<close>

theorem add_range_correct:
  assumes "case il of None \<Rightarrow> True | Some l \<Rightarrow> il_wf l" "start \<le> fin"
  shows "\<exists>r. add_range_to_invlist il start fin = Inr r \<and> il_wf r \<and> il_set r = opt_set il \<union> {start..fin}"
  using assms by (rule add_range_set)

theorem add_range_correct_witness:
  "\<exists>r. add_range_to_invlist (Some upper_list) 70 120 = Inr r \<and> il_wf r \<and>
    il_set r = opt_set (Some upper_list) \<union> {70..120}"
  using add_range_correct [of "Some upper_list" 70 120] by (simp add: example_lists)

text \<open>C5: appending a range fails exactly when the list's last element lies above the start or the
  list is open at its end; otherwise the set gains exactly the range.\<close>

theorem append_range_correct:
  assumes "il_wf il" "start \<le> fin"
  shows "((\<exists>e. append_range_to_invlist il start fin = Inl e) \<longleftrightarrow>
      invlist_array il \<noteq> [] \<and> (last (invlist_array il) > start \<or> odd (length (invlist_array il)))) \<and>
    (\<forall>r. append_range_to_invlist il start fin = Inr r \<longrightarrow> il_wf r \<and> il_set r = il_set il \<union> {start..fin})"
proof -
  have ok: "il_ok il" using assms(1) by (simp add: il_wf_def)
  have err: "(\<exists>e. append_range_to_invlist il start fin = Inl e) \<longleftrightarrow>
      invlist_array il \<noteq> [] \<and> (last (invlist_array il) > start \<or> odd (length (invlist_array il)))"
    by (rule append_range_error_iff [OF ok])
  have "il_wf r \<and> il_set r = il_set il \<union> {start..fin}" if r: "append_range_to_invlist il start fin = Inr r" for r
  proof -
  have c: "invlist_array il = [] \<or> last (invlist_array il) \<le> start \<and> even (length (invlist_array il))"
    using err unfolding r by (simp add: not_less)
  obtain r' where "append_range_to_invlist il start fin = Inr r'"
    "il_holds r' (append_spec (invlist_array il) start fin)"
    by (rule il_holds_append_range [OF il_wf_holds [OF assms(1)] assms(2) c])
  with r have h: "il_holds r (append_spec (invlist_array il) start fin)" by simp
  have "il_set r = {cp. in_ranges (invlist_array il) cp \<or> start \<le> cp \<and> cp \<le> fin}"
    unfolding il_holdsD(7) [OF h] append_spec_set [OF assms(2) invlist_array_sorted [OF ok] c] ..
  also have "\<dots> = il_set il \<union> {start..fin}" by (auto simp: il_set_def)
  finally show ?thesis using il_holdsD(1) [OF h] by blast
  qed
  with err show ?thesis by blast
qed

theorem append_range_correct_witness:
  "(\<exists>e. append_range_to_invlist upper_list 70 80 = Inl e) \<and> \<not> (\<exists>e. append_range_to_invlist upper_list 91 92 = Inl e)"
  using append_range_correct [of upper_list 70 80] append_range_correct [of upper_list 91 92]
  by (simp add: example_lists)

text \<open>C6: inverting a list in place, by flipping one flag, complements its set.\<close>

theorem invert_complements:
  assumes "il_wf il"
  shows "\<exists>r. invlist_invert il = Inr r \<and> il_wf r \<and> il_set r = - il_set il"
  by (rule invlist_invert_correct [OF assms]) auto

theorem invert_complements_witness:
  "\<exists>r. invlist_invert low_list = Inr r \<and> il_wf r \<and> il_set r = - il_set low_list"
  using invert_complements [of low_list] by (simp add: example_lists)



text \<open>C8: \<open>invlistEQ_\<close> compares arrays, and thereby decides equality of the sets, the second one
  complemented on request.\<close>

theorem EQ_decides_set_equality:
  assumes "il_wf a" "il_wf b"
  shows "invlistEQ a b complement_b \<longleftrightarrow> il_set a = second_set b complement_b"
  using assms by (rule invlistEQ_correct)

theorem EQ_decides_set_equality_witness:
  "\<not> invlistEQ upper_list low_list True"
  using EQ_decides_set_equality [of upper_list low_list True] example_lists
    example_sets [of 3] by (auto simp: second_set_def)

text \<open>C9: a bitmap and an inversion list carry the same set: a list filled into a bitmap and read
  back into a fresh list stands for the same code points, for bitmaps of up to \<open>2 ^ 31\<close> bits, whose
  numbers the \<open>int\<close> of the code holds.\<close>

theorem bitmap_roundtrip:
  assumes "il_wf il" "invlist_len il < 2 ^ 63" "unat offset + 8 * len \<le> 2 ^ 64" "8 * len \<le> 2 ^ 31"
    and "\<forall>cp \<in> il_set il. cp \<noteq> UV_MAX \<and> offset \<le> cp \<and> unat (cp - offset) < 8 * len"
  shows "\<exists>bitmap il' r. populate_bitmap_from_invlist il offset len = Some (bitmap, il') \<and>
    populate_invlist_from_bitmap bitmap (8 * len) None offset = Inr r \<and> opt_set r = il_set il"
proof -
  let ?xs = "invlist_array il"
  have set: "il_set il = {cp. in_ranges ?xs cp}" by (simp add: il_set_def)
  have room: "cp \<noteq> UV_MAX \<and> unat (cp - offset) div 8 < len" if "in_ranges ?xs cp" for cp
    using assms(5) that set by (auto simp: div_less_iff_less_mult mult.commute)
  have len: "length ?xs < 2 ^ 63" using assms by (auto simp: il_wf_def)
  obtain bitmap where b: "populate_bitmap_from_invlist il offset len = Some (bitmap, il\<lparr>il_iter := UV_MAX\<rparr>)"
    "\<And>d. unat d div 8 < len \<Longrightarrow> BITMAP_TEST bitmap d \<longleftrightarrow> in_ranges ?xs (d + offset)"
    using populate_bitmap_holds [OF il_wf_holds [OF assms(1)] len room] by blast
  obtain r where r: "populate_invlist_from_bitmap bitmap (8 * len) None offset = Inr r"
    "opt_set r = bitmap_set bitmap offset 0 (8 * len)"
    using invlist_from_bitmap_correct [OF assms(3) _ assms(4), of None bitmap 0]
    by (auto simp: populate_invlist_from_bitmap_def some_wf_def opt_set_def)
  have u: "unat (of_nat j :: u64) = j" if "j < 8 * len" for j
    using that assms(3) by (subst unat_of_nat) (rule mod_less, simp)
  have t: "BITMAP_TEST bitmap (of_nat j) \<longleftrightarrow> of_nat j + offset \<in> il_set il" if "j < 8 * len" for j
    using b(2) [of "of_nat j"] u [OF that] that by (simp add: set)
  have "il_set il \<subseteq> bitmap_set bitmap offset 0 (8 * len)"
  proof
    fix cp assume cp: "cp \<in> il_set il"
    let ?j = "unat (cp - offset)"
    have "?j < 8 * len" "of_nat ?j + offset = cp" using assms(5) cp by auto
    then show "cp \<in> bitmap_set bitmap offset 0 (8 * len)" using cp t [of ?j]
      unfolding bitmap_set_def by (intro image_eqI [of _ _ ?j]) auto
  qed
  moreover have "bitmap_set bitmap offset 0 (8 * len) \<subseteq> il_set il" using t by (auto simp: bitmap_set_def)
  ultimately show ?thesis using b(1) r by blast
qed

theorem bitmap_roundtrip_witness:
  "\<exists>bitmap il' r. populate_bitmap_from_invlist upper_list 64 4 = Some (bitmap, il') \<and>
    populate_invlist_from_bitmap bitmap (8 * 4) None 64 = Inr r \<and> opt_set r = il_set upper_list"
proof (rule bitmap_roundtrip)
  show "il_wf upper_list" by (rule example_lists)
  show "invlist_len upper_list < 2 ^ 63" by (simp add: upper_list_def invlist_len_def)
  show "\<forall>cp \<in> il_set upper_list. cp \<noteq> UV_MAX \<and> 64 \<le> cp \<and> unat (cp - 64) < 8 * 4"
  proof (unfold example_sets Ball_def mem_Collect_eq, intro allI impI)
    fix cp :: u64 assume a: "65 \<le> cp \<and> cp < 91"
    have "64 \<le> cp" using a by (auto intro: order.trans [of "64 :: u64" 65])
    then have "unat (cp - 64) = unat cp - 64" by (simp add: unat_sub)
    with a \<open>64 \<le> cp\<close> show "cp \<noteq> UV_MAX \<and> 64 \<le> cp \<and> unat (cp - 64) < 8 * 4"
      by (auto simp: word_le_nat_alt word_less_nat_alt)
  qed
qed simp_all

end
