(* ===== verification/Hv_Index.thy ===== *)
theory Hv_Index
  imports Prelude
begin

text \<open>
  The index of an ordinary hash (\<open>hv.h\<close>, \<open>inline.h\<close>, the integer-chain configuration that is the
  default): the sizing rules, the packed array of 1, 2 or 4 byte cells, and the chains threaded
  through it.

  Cell \<open>b\<close> below the bucket count is the head of bucket \<open>b\<close>; cell \<open>buckets + i\<close> is the link that
  follows entry \<open>i\<close>.  A cell holds 0 (end of the chain) or an entry number plus one.
\<close>

section \<open>Sizes\<close>

definition U32_MAX :: nat where "U32_MAX = 2 ^ 32 - 1"
definition I32_MAX :: nat where "I32_MAX = 2 ^ 31 - 1"
definition MEM_SIZE_MAX :: nat where "MEM_SIZE_MAX = 2 ^ 64 - 1"
definition HV_MAX_BUCKETS :: nat where "HV_MAX_BUCKETS = 2 ^ 30"
definition HV_MAX_KEYS :: nat where
  "HV_MAX_KEYS = HV_MAX_BUCKETS div 3 * 2 + HV_MAX_BUCKETS mod 3 * 2 div 3"

definition OA_ENTRY_CAPACITY :: "nat \<Rightarrow> nat" where
  "OA_ENTRY_CAPACITY capacity = capacity div 3 * 2 + capacity mod 3 * 2 div 3"

text \<open>\<open>sizeof (HE)\<close> and the bytes of \<open>struct hv_oa\<close> before its \<open>indices\<close>, on a 64-bit build.\<close>

definition sizeof_HE :: nat where "sizeof_HE = 16"
definition hv_oa_header :: nat where "hv_oa_header = 20"

definition is_pow2 :: "nat \<Rightarrow> bool" where
  "is_pow2 n = (n AND (n - 1) = 0)"

definition HvOA_INDEX_WIDTH_FOR :: "nat \<Rightarrow> nat" where
  "HvOA_INDEX_WIDTH_FOR capacity = (if capacity \<le> 255 then 1 else if capacity \<le> 65535 then 2 else 4)"

definition HvOA_RECORD_WIDTH_FOR :: "nat \<Rightarrow> nat" where
  "HvOA_RECORD_WIDTH_FOR capacity = HvOA_INDEX_WIDTH_FOR capacity"

definition HvOA_STORAGE_BYTES :: "nat \<Rightarrow> nat \<Rightarrow> nat" where
  "HvOA_STORAGE_BYTES buckets entries = (buckets + entries) * HvOA_INDEX_WIDTH_FOR entries"

function capacity_loop :: "nat \<Rightarrow> nat \<Rightarrow> nat" where
  "capacity_loop capacity target =
     (if capacity < target \<and> capacity < HV_MAX_BUCKETS \<and> capacity \<noteq> 0
      then capacity_loop (capacity * 2) target else capacity)"
  by pat_completeness auto
termination by (relation "measure (\<lambda>(c, t). t - c)") auto

declare capacity_loop.simps [simp del]

text \<open>0 stands for a request that cannot be met.\<close>

definition hv_oa_capacity_for :: "nat \<Rightarrow> nat \<Rightarrow> nat" where
  "hv_oa_capacity_for live minimum =
     (if live > HV_MAX_KEYS \<or> minimum = 0 \<or> minimum > HV_MAX_BUCKETS \<or> \<not> is_pow2 minimum then 0
      else capacity_loop (max minimum 8) (live * 3))"

definition hv_oa_size_valid :: "nat \<Rightarrow> nat \<Rightarrow> bool" where
  "hv_oa_size_valid buckets entries =
     (let available = MEM_SIZE_MAX - hv_oa_header; width = HvOA_INDEX_WIDTH_FOR entries in
      if buckets = 0 \<or> buckets > HV_MAX_BUCKETS \<or> \<not> is_pow2 buckets \<or> entries > I32_MAX
         \<or> (entries \<noteq> 0 \<and> sizeof_HE > MEM_SIZE_MAX div entries) \<or> buckets > available div width
      then False
      else
        let available = available - buckets * width in
        if entries > U32_MAX - buckets \<or> entries > available div HvOA_RECORD_WIDTH_FOR entries
        then False else True)"

section \<open>Cells\<close>

text \<open>Integers of \<open>w\<close> bytes in memory, least significant byte first.\<close>

fun read_le :: "u8 list \<Rightarrow> nat" where
  "read_le [] = 0"
| "read_le (b # bs) = unat b + 256 * read_le bs"

fun write_le :: "nat \<Rightarrow> nat \<Rightarrow> u8 list" where
  "write_le 0 v = []"
| "write_le (Suc w) v = of_nat (v mod 256) # write_le w (v div 256)"

text \<open>The byte where a cell starts.\<close>

definition cell_offset :: "nat \<Rightarrow> nat \<Rightarrow> nat \<Rightarrow> nat" where
  "cell_offset capacity buckets pos =
     (let width = HvOA_INDEX_WIDTH_FOR capacity in
      if pos < buckets then pos * width
      else buckets * width + (pos - buckets) * HvOA_RECORD_WIDTH_FOR capacity)"

definition hv_oa_index_get :: "u8 list \<Rightarrow> nat \<Rightarrow> nat \<Rightarrow> nat \<Rightarrow> nat" where
  "hv_oa_index_get indices capacity buckets pos =
     read_le (take (HvOA_INDEX_WIDTH_FOR capacity) (drop (cell_offset capacity buckets pos) indices))"

definition hv_oa_index_set :: "u8 list \<Rightarrow> nat \<Rightarrow> nat \<Rightarrow> nat \<Rightarrow> nat \<Rightarrow> u8 list" where
  "hv_oa_index_set indices capacity buckets pos value =
     (let width = HvOA_INDEX_WIDTH_FOR capacity; region = cell_offset capacity buckets pos
      in take region indices @ write_le width value @ drop (region + width) indices)"

lemma length_write_le [simp]: "length (write_le w v) = w"
  by (induction w arbitrary: v) auto

lemma read_write_le: "v < 256 ^ w \<Longrightarrow> read_le (write_le w v) = v"
proof (induction w arbitrary: v)
  case (Suc w)
  have "unat (of_nat (v mod 256) :: u8) = v mod 256"
    by (simp add: unat_of_nat)
  moreover have "v div 256 < 256 ^ w" using Suc.prems by (simp add: less_mult_imp_div_less mult.commute)
  ultimately show ?case using Suc.IH by simp
qed simp

lemma read_le_zeros: "\<forall>b\<in>set bs. b = 0 \<Longrightarrow> read_le bs = 0"
  by (induction bs) auto

lemma width_pos [simp]: "0 < HvOA_INDEX_WIDTH_FOR c"
  by (simp add: HvOA_INDEX_WIDTH_FOR_def)

lemma width_bound: "v \<le> c \<Longrightarrow> c < 2 ^ 32 \<Longrightarrow> v < 256 ^ HvOA_INDEX_WIDTH_FOR c"
  by (auto simp: HvOA_INDEX_WIDTH_FOR_def)

lemma cell_offset_eq: "cell_offset c b pos = pos * HvOA_INDEX_WIDTH_FOR c"
  by (auto simp: cell_offset_def Let_def HvOA_RECORD_WIDTH_FOR_def diff_mult_distrib)

definition index_ok :: "u8 list \<Rightarrow> nat \<Rightarrow> nat \<Rightarrow> bool" where
  "index_ok indices capacity buckets \<longleftrightarrow> capacity < 2 ^ 32 \<and> length indices = HvOA_STORAGE_BYTES buckets capacity"

lemma cell_bound:
  "index_ok ix c b \<Longrightarrow> pos < b + c \<Longrightarrow> pos * HvOA_INDEX_WIDTH_FOR c + HvOA_INDEX_WIDTH_FOR c \<le> length ix"
proof -
  assume a: "index_ok ix c b" "pos < b + c"
  then have "(pos + 1) * HvOA_INDEX_WIDTH_FOR c \<le> (b + c) * HvOA_INDEX_WIDTH_FOR c"
    by (intro mult_le_mono1) simp
  with a show ?thesis by (simp add: index_ok_def HvOA_STORAGE_BYTES_def algebra_simps)
qed

lemma drop_past: "length xs = n \<Longrightarrow> n \<le> m \<Longrightarrow> drop m (xs @ ys) = drop (m - n) ys"
  by simp

lemma index_get_set:
  assumes "index_ok ix c b" "pos < b + c" "pos' < b + c" "v \<le> c"
  shows "hv_oa_index_get (hv_oa_index_set ix c b pos v) c b pos' =
    (if pos' = pos then v else hv_oa_index_get ix c b pos')"
proof -
  let ?w = "HvOA_INDEX_WIDTH_FOR c"
  let ?ix = "take (pos * ?w) ix @ write_le ?w v @ drop (pos * ?w + ?w) ix"
  have b: "pos * ?w + ?w \<le> length ix" "pos' * ?w + ?w \<le> length ix"
    using assms cell_bound by auto
  consider "pos' = pos" | "pos' < pos" | "pos < pos'" by linarith
  then have "read_le (take ?w (drop (pos' * ?w) ?ix)) =
    (if pos' = pos then v else read_le (take ?w (drop (pos' * ?w) ix)))"
  proof cases
    case 1
    then show ?thesis using b read_write_le [OF width_bound [OF assms(4)]] assms(1)
      by (simp add: index_ok_def)
  next
    case 2
    then have "(pos' + 1) * ?w \<le> pos * ?w" by (intro mult_le_mono1) simp
    then have l: "pos' * ?w + ?w \<le> pos * ?w" by simp
    have "take ?w (drop (pos' * ?w) ?ix) = take ?w (drop (pos' * ?w) ix)"
      using l b by (simp add: take_drop)
    then show ?thesis using 2 by simp
  next
    case 3
    then have "(pos + 1) * ?w \<le> pos' * ?w" by (intro mult_le_mono1) simp
    then have l: "pos * ?w + ?w \<le> pos' * ?w" by simp
    have "drop (pos' * ?w) ?ix = drop (pos' * ?w) ix"
    proof -
      have "length (take (pos * ?w) ix @ write_le ?w v) = pos * ?w + ?w" using b by simp
      from drop_past [OF this l] have "drop (pos' * ?w) ?ix = drop (pos' * ?w - (pos * ?w + ?w)) (drop (pos * ?w + ?w) ix)"
        by (simp only: append_assoc)
      also have "\<dots> = drop (pos' * ?w) ix" using l by (simp only: drop_drop le_add_diff_inverse2)
      finally show ?thesis .
    qed
    then show ?thesis using 3 by simp
  qed
  then show ?thesis
    unfolding hv_oa_index_get_def hv_oa_index_set_def Let_def cell_offset_eq .
qed

lemma index_set_ok: "index_ok ix c b \<Longrightarrow> pos < b + c \<Longrightarrow> index_ok (hv_oa_index_set ix c b pos v) c b"
  using cell_bound [of ix c b pos] by (simp add: index_ok_def hv_oa_index_set_def cell_offset_eq Let_def)

lemma index_get_zero:
  "index_ok ix c b \<Longrightarrow> \<forall>x\<in>set ix. x = 0 \<Longrightarrow> hv_oa_index_get ix c b pos = 0"
  unfolding hv_oa_index_get_def
  by (intro read_le_zeros) (auto dest: in_set_takeD in_set_dropD)

lemma index_get_prefix:
  assumes "index_ok ix c b" "pos < b + c" "HvOA_INDEX_WIDTH_FOR c' = HvOA_INDEX_WIDTH_FOR c"
  shows "hv_oa_index_get (ix @ zs) c' b pos = hv_oa_index_get ix c b pos"
  using cell_bound [OF assms(1,2)] by (simp add: hv_oa_index_get_def cell_offset_eq assms(3))


section \<open>Chains\<close>

text \<open>\<open>xs\<close> are the entries linked from cell \<open>pos\<close>.\<close>

fun chain :: "(nat \<Rightarrow> nat) \<Rightarrow> nat \<Rightarrow> nat \<Rightarrow> nat \<Rightarrow> nat list \<Rightarrow> bool" where
  "chain get b c pos [] \<longleftrightarrow> get pos = 0"
| "chain get b c pos (i # is) \<longleftrightarrow> i < c \<and> get pos = i + 1 \<and> chain get b c (b + i) is"

text \<open>
  Every bucket's chain ends and holds, once each, exactly the entries whose home it is
  (\<open>home i\<close> is the bucket of the live entry \<open>i\<close>).
\<close>

definition chains_ok :: "(nat \<Rightarrow> nat) \<Rightarrow> nat \<Rightarrow> nat \<Rightarrow> (nat \<Rightarrow> nat option) \<Rightarrow> bool" where
  "chains_ok get b c home \<longleftrightarrow>
     (\<forall>i h. home i = Some h \<longrightarrow> i < c \<and> h < b) \<and>
     (\<forall>h<b. \<exists>xs. chain get b c h xs \<and> distinct xs \<and> set xs = {i. home i = Some h})"

text \<open>The cells a chain occupies, and the one that links to a position of it.\<close>

definition link :: "nat \<Rightarrow> nat \<Rightarrow> nat list \<Rightarrow> nat" where
  "link b pos ys = (if ys = [] then pos else b + last ys)"

lemma chain_append:
  "chain get b c pos (ys @ xs) \<longleftrightarrow>
    (\<forall>i\<in>set ys. i < c) \<and> (\<forall>j<length ys. get (link b pos (take j ys)) = ys ! j + 1) \<and> chain get b c (link b pos ys) xs"
proof (induction ys arbitrary: pos)
  case Nil
  then show ?case by (simp add: link_def)
next
  case (Cons i ys)
  have l: "link b pos (i # zs) = link b (b + i) zs" for zs by (simp add: link_def)
  have "(\<forall>j<Suc (length ys). P j) \<longleftrightarrow> P 0 \<and> (\<forall>j<length ys. P (Suc j))" for P
    by (metis less_Suc_eq_0_disj)
  then show ?case using Cons by (auto simp: l link_def [of b pos "[]"])
qed

lemma chain_cong:
  "(\<And>p. p = pos \<or> p \<in> (\<lambda>i. b + i) ` set xs \<Longrightarrow> get p = get' p) \<Longrightarrow>
   chain get b c pos xs \<longleftrightarrow> chain get' b c pos xs"
proof (induction xs arbitrary: pos)
  case (Cons i xs)
  have "chain get b c (b + i) xs \<longleftrightarrow> chain get' b c (b + i) xs"
    by (rule Cons.IH) (use Cons.prems in auto)
  with Cons.prems [of pos] show ?case by simp
qed simp

lemma chain_unique: "chain get b c pos xs \<Longrightarrow> chain get b c pos ys \<Longrightarrow> xs = ys"
proof (induction xs arbitrary: pos ys)
  case Nil
  then show ?case by (cases ys) auto
next
  case (Cons x xs)
  then show ?case by (cases ys) auto
qed

text \<open>The contract of the cell array, and what follows for chains kept in it.\<close>

locale cells =
  fixes get :: "'ix \<Rightarrow> nat \<Rightarrow> nat" and put :: "'ix \<Rightarrow> nat \<Rightarrow> nat \<Rightarrow> 'ix" and ok :: "'ix \<Rightarrow> bool"
    and b c :: nat
  assumes get_put: "ok ix \<Longrightarrow> pos < b + c \<Longrightarrow> pos' < b + c \<Longrightarrow> v \<le> c \<Longrightarrow>
      get (put ix pos v) pos' = (if pos' = pos then v else get ix pos')"
    and put_ok: "ok ix \<Longrightarrow> pos < b + c \<Longrightarrow> ok (put ix pos v)"
begin

lemma chain_put_other:
  assumes "ok ix" "p < b + c" "v \<le> c" "pos < b + c" "\<forall>i\<in>set xs. i < c" "p \<noteq> pos" "\<forall>i\<in>set xs. p \<noteq> b + i"
  shows "chain (get (put ix p v)) b c pos xs \<longleftrightarrow> chain (get ix) b c pos xs"
  by (rule chain_cong) (use assms get_put [OF assms(1,2) _ assms(3)] in auto)

lemma chain_head_le: "chain (get ix) b c pos xs \<Longrightarrow> get ix pos \<le> c"
  by (cases xs) auto

lemma chain_bound: "chain (get ix) b c pos xs \<Longrightarrow> i \<in> set xs \<Longrightarrow> i < c"
  by (induction xs arbitrary: pos) auto

lemma insert_chain:
  assumes "ok ix" "chains_ok (get ix) b c home" "home i = None" "i < c" "h < b"
  shows "chains_ok (get (put (put ix (b + i) (get ix h)) h (i + 1))) b c (home(i \<mapsto> h))"
    and "ok (put (put ix (b + i) (get ix h)) h (i + 1))"
proof -
  obtain xs where xs: "chain (get ix) b c h xs" "distinct xs" "set xs = {j. home j = Some h}"
    using assms(2,5) by (auto simp: chains_ok_def)
  have le: "get ix h \<le> c" using xs(1) by (rule chain_head_le)
  define ix1 where "ix1 = put ix (b + i) (get ix h)"
  define ix2 where "ix2 = put ix1 h (i + 1)"
  have ok1: "ok ix1" using assms put_ok by (simp add: ix1_def)
  then have ok2: "ok ix2" using assms put_ok by (simp add: ix2_def)
  then show "ok (put (put ix (b + i) (get ix h)) h (i + 1))" by (simp add: ix1_def ix2_def)
  have g: "get ix2 p = (if p = h then i + 1 else if p = b + i then get ix h else get ix p)" if "p < b + c" for p
    using get_put [OF ok1, of h p "i + 1"] get_put [OF assms(1), of "b + i" p "get ix h"] le assms that
    by (auto simp: ix1_def ix2_def)
  have ni: "i \<notin> set xs" using xs(3) assms(3) by simp
  have bx: "j < c" if "j \<in> set xs" for j using chain_bound [OF xs(1) that] .
  have tail: "chain (get ix2) b c (b + i) xs"
  proof (cases xs)
    case Nil
    then show ?thesis using xs(1) g [of "b + i"] assms by simp
  next
    case (Cons j js)
    have "chain (get ix2) b c (b + j) js \<longleftrightarrow> chain (get ix) b c (b + j) js"
      by (rule chain_cong) (use g bx Cons ni assms xs(2) in auto)
    then show ?thesis using xs(1) g [of "b + i"] assms Cons by simp
  qed
  have main: "chain (get ix2) b c h (i # xs)" using tail g [of h] assms by simp
  have "\<exists>ys. chain (get ix2) b c h' ys \<and> distinct ys \<and> set ys = {j. (home(i \<mapsto> h)) j = Some h'}"
    if hb: "h' < b" for h'
  proof (cases "h' = h")
    case True
    then show ?thesis using main xs ni by (intro exI [of _ "i # xs"]) auto
  next
    case False
    obtain ys where ys: "chain (get ix) b c h' ys" "distinct ys" "set ys = {j. home j = Some h'}"
      using assms(2) hb by (auto simp: chains_ok_def)
    have yc: "j < c" if "j \<in> set ys" for j using chain_bound [OF ys(1) that] .
    have "i \<notin> set ys" using ys(3) assms(3) by simp
    then have "chain (get ix2) b c h' ys \<longleftrightarrow> chain (get ix) b c h' ys"
      by (intro chain_cong) (use g yc False hb assms in auto)
    then show ?thesis using ys False assms(3) by (intro exI [of _ ys]) auto
  qed
  then show "chains_ok (get (put (put ix (b + i) (get ix h)) h (i + 1))) b c (home(i \<mapsto> h))"
    using assms(2,4,5) by (auto simp: chains_ok_def ix1_def ix2_def)
qed

lemma delete_chain:
  assumes "ok ix" "chains_ok (get ix) b c home" "chain (get ix) b c h (ys @ i # zs)" "h < b"
  defines "p \<equiv> link b h ys"
  shows "chains_ok (get (put (put ix p (get ix (b + i))) (b + i) 0)) b c (home(i := None))"
    and "ok (put (put ix p (get ix (b + i))) (b + i) 0)"
proof -
  obtain xs where xs: "chain (get ix) b c h xs" "distinct xs" "set xs = {j. home j = Some h}"
    using assms(2,4) by (auto simp: chains_ok_def)
  have e: "xs = ys @ i # zs" using chain_unique [OF xs(1) assms(3)] .
  have bx: "j < c" if "j \<in> set xs" for j using chain_bound [OF xs(1) that] .
  have dis: "i \<notin> set ys" "i \<notin> set zs" "set ys \<inter> set zs = {}" "distinct ys" "distinct zs" using xs(2) e by auto
  have p: "p < b + c" using bx e assms(4) by (auto simp: p_def link_def)
  have ic: "i < c" using bx e by simp
  have le: "get ix (b + i) \<le> c"
    using assms(3) chain_append [of "get ix" b c h ys "i # zs"] by (auto intro: chain_head_le)
  define ix1 where "ix1 = put ix p (get ix (b + i))"
  define ix2 where "ix2 = put ix1 (b + i) 0"
  have ok1: "ok ix1" using assms p put_ok by (simp add: ix1_def)
  then have ok2: "ok ix2" using ic put_ok by (simp add: ix2_def)
  then show "ok (put (put ix p (get ix (b + i))) (b + i) 0)" by (simp add: ix1_def ix2_def)
  have g: "get ix2 q = (if q = b + i then 0 else if q = p then get ix (b + i) else get ix q)" if "q < b + c" for q
    using get_put [OF ok1, of "b + i" q 0] get_put [OF assms(1) p, of q "get ix (b + i)"] le ic that
    by (auto simp: ix1_def ix2_def)
  have pne: "p \<noteq> b + i" using dis(1) assms(4) by (auto simp: p_def link_def)
  have pz: "p \<noteq> b + j" if "j \<in> set zs" for j
    using that dis(3) assms(4) by (cases ys rule: rev_cases) (auto simp: p_def link_def)
  note ch = assms(3) [unfolded chain_append, folded p_def]
  have front: "get ix2 (link b h (take j ys)) = ys ! j + 1" if "j < length ys" for j
  proof -
    have "link b h (take j ys) \<noteq> p"
    proof (cases j)
      case 0
      then show ?thesis using that assms(4) by (auto simp: p_def link_def)
    next
      case (Suc k)
      then have "last (take j ys) = ys ! k" "last ys = ys ! (length ys - 1)"
        using that by (simp add: take_Suc_conv_app_nth, subst last_conv_nth) auto
      moreover have "ys ! k \<noteq> ys ! (length ys - 1)"
        using dis(4) that Suc by (simp add: nth_eq_iff_index_eq)
      ultimately show ?thesis using that Suc by (auto simp: p_def link_def)
    qed
    moreover have "link b h (take j ys) \<noteq> b + i" "link b h (take j ys) < b + c"
      using dis(1) assms(4) bx e that
      by (cases j; auto simp: link_def take_Suc_conv_app_nth)+
    ultimately show ?thesis using ch that g by auto
  qed
  have rear: "chain (get ix2) b c p zs"
  proof (cases zs)
    case Nil
    then show ?thesis using ch g [OF p] pne by simp
  next
    case (Cons j js)
    have "chain (get ix2) b c (b + j) js \<longleftrightarrow> chain (get ix) b c (b + j) js"
    proof (rule chain_cong)
      fix q assume "q = b + j \<or> q \<in> (\<lambda>i. b + i) ` set js"
      then obtain k where k: "q = b + k" "k \<in> set zs" using Cons by auto
      then have "q \<noteq> p" "q \<noteq> b + i" "q < b + c" using pz [OF k(2)] dis(2) bx e by auto
      then show "get ix2 q = get ix q" using g by simp
    qed
    then show ?thesis using ch g [OF p] pne Cons by simp
  qed
  have main: "chain (get ix2) b c h (ys @ zs)"
    unfolding chain_append using front rear bx e by (auto simp: p_def)
  have "\<exists>us. chain (get ix2) b c h' us \<and> distinct us \<and> set us = {j. (home(i := None)) j = Some h'}"
    if hb: "h' < b" for h'
  proof (cases "h' = h")
    case True
    have "set (ys @ zs) = {j. (home(i := None)) j = Some h}" using xs(3) e dis by auto
    then show ?thesis using main dis True by (intro exI [of _ "ys @ zs"]) auto
  next
    case False
    obtain us where us: "chain (get ix) b c h' us" "distinct us" "set us = {j. home j = Some h'}"
      using assms(2) hb by (auto simp: chains_ok_def)
    have bu: "j < c" if "j \<in> set us" for j using chain_bound [OF us(1) that] .
    have ni: "set us \<inter> set xs = {}" using us(3) xs(3) False by auto
    have np: "p \<noteq> b + j" if "j \<in> set us" for j
      using that ni e assms(4) by (cases ys rule: rev_cases) (auto simp: p_def link_def)
    have nh: "p \<noteq> h'" using hb False by (auto simp: p_def link_def)
    have "chain (get ix2) b c h' us \<longleftrightarrow> chain (get ix) b c h' us"
    proof (rule chain_cong)
      fix q assume q: "q = h' \<or> q \<in> (\<lambda>i. b + i) ` set us"
      then have "q \<noteq> p" using np nh by auto
      moreover have "q \<noteq> b + i" "q < b + c" using q ni e hb bu by auto
      ultimately show "get ix2 q = get ix q" using g by simp
    qed
    moreover have "i \<notin> set us" using ni e by auto
    ultimately show ?thesis using us by (intro exI [of _ us]) auto
  qed
  then show "chains_ok (get (put (put ix p (get ix (b + i))) (b + i) 0)) b c (home(i := None))"
    using assms(2) by (auto simp: chains_ok_def ix1_def ix2_def)
qed

end

interpretation hv_cells: cells "\<lambda>ix. hv_oa_index_get ix c b" "\<lambda>ix. hv_oa_index_set ix c b"
  "\<lambda>ix. index_ok ix c b" b c for b c
  by unfold_locales (auto simp: index_get_set index_set_ok)

end
