(* ===== verification/Hv.thy ===== *)
theory Hv
  imports Hv_Index
begin

text \<open>
  Ordinary Perl hashes (\<open>hv.c\<close>, \<open>hv.h\<close>): small hashes are a dense vector of entries searched
  linearly, larger ones keep the same vector and add the chained index of \<open>Hv_Index\<close>.

  The state is that of an \<open>HV\<close> without magic: its array in one of three forms, the raw \<open>xhv_max\<close>
  field, the key count, the public iterator (\<open>xhv_riter\<close>, \<open>xhv_eiter\<close> and its flags), the flags
  \<open>LAZYDEL\<close>, \<open>READONLY\<close> (a restricted hash), \<open>SHAREKEYS\<close> and \<open>HASKFLAGS\<close>, and the count of
  placeholders.  An entry with a null key is \<open>None\<close>.  A pointer to an entry is its position.
  Keys come in canonical form: bytes, with a flag for those that stay UTF-8.

  An error is the value \<open>Inl\<close>; \<open>Diverges\<close> stands for a loop that does not end.
\<close>

section \<open>The data\<close>

type_synonym bytes = "u8 list"

record hek =
  hek_addr :: nat
  hek_hash :: u32
  hek_key :: bytes
  hek_utf8 :: bool
  hek_wasutf8 :: bool
  hek_notshared :: bool

datatype 'v hval = NullSV | Placeholder | SV 'v

record 'v he =
  he_hek :: hek
  he_val :: "'v hval"

datatype 'v eiter = NoEntry | EntryAt nat | Retired "'v he option"

record 'v aux =
  xhv_riter :: int
  xhv_eiter :: "'v eiter"
  iter_active :: bool
  iter_inserted :: bool

record 'v oa =
  oa_entries :: "'v he option list"
  oa_capacity :: nat
  oa_used :: nat
  oa_indices :: "u8 list"

datatype 'v harray = NoArray | Linear "'v he option list" | Indexed "'v oa"

record 'v hv =
  hv_array :: "'v harray"
  hv_max_raw :: nat
  hv_keys :: nat
  hv_aux :: "'v aux option"
  hv_lazydel :: bool
  hv_readonly :: bool
  hv_sharekeys :: bool
  hv_haskflags :: bool
  hv_placeholders :: nat

datatype hv_error =
    CapacityExceeded
  | MemoryWrap
  | AccessDisallowed
  | DeletionDisallowed
  | ReadOnlyDeletion
  | Diverges

section \<open>The capacity field\<close>

definition HV_MAX_EXPONENT_MASK :: nat where "HV_MAX_EXPONENT_MASK = 63"
definition HV_LINEAR_FLAG :: nat where "HV_LINEAR_FLAG = 64"
definition HV_LINEAR_CAP_MASK :: nat where "HV_LINEAR_CAP_MASK = HV_MAX_EXPONENT_MASK"

function encode_exponent :: "nat \<Rightarrow> nat \<Rightarrow> nat" where
  "encode_exponent capacity exponent =
     (if capacity > 1 then encode_exponent (capacity div 2) (exponent + 1) else exponent)"
  by pat_completeness auto
termination by (relation "measure fst") auto

declare encode_exponent.simps [simp del]

definition hv_encode_max :: "nat \<Rightarrow> nat" where
  "hv_encode_max mx = encode_exponent (mx + 1) 0"

definition HvIS_LINEAR :: "'v hv \<Rightarrow> bool" where
  "HvIS_LINEAR hv = (hv_max_raw hv AND HV_LINEAR_FLAG \<noteq> 0)"

definition HvLINEAR_CAP :: "'v hv \<Rightarrow> nat" where
  "HvLINEAR_CAP hv = hv_max_raw hv AND HV_LINEAR_CAP_MASK"

definition HvMAX :: "'v hv \<Rightarrow> nat" where
  "HvMAX hv =
     (if HvIS_LINEAR hv then if HvLINEAR_CAP hv \<noteq> 0 then HvLINEAR_CAP hv - 1 else 0
      else 2 ^ (hv_max_raw hv AND HV_MAX_EXPONENT_MASK) - 1)"

definition HvMAX_SET :: "'v hv \<Rightarrow> nat \<Rightarrow> 'v hv" where
  "HvMAX_SET hv mx = hv\<lparr>hv_max_raw := hv_encode_max mx\<rparr>"

definition HvMAX_SET_LINEAR :: "'v hv \<Rightarrow> nat \<Rightarrow> 'v hv" where
  "HvMAX_SET_LINEAR hv cap = hv\<lparr>hv_max_raw := HV_LINEAR_FLAG OR cap\<rparr>"

definition HvENTRIES :: "'v hv \<Rightarrow> 'v he option list" where
  "HvENTRIES hv = (case hv_array hv of NoArray \<Rightarrow> [] | Linear es \<Rightarrow> es | Indexed oa \<Rightarrow> oa_entries oa)"

definition HvENTRIES_SET :: "'v hv \<Rightarrow> 'v he option list \<Rightarrow> 'v hv" where
  "HvENTRIES_SET hv es = hv\<lparr>hv_array := (case hv_array hv of NoArray \<Rightarrow> NoArray | Linear _ \<Rightarrow> Linear es
     | Indexed oa \<Rightarrow> Indexed (oa\<lparr>oa_entries := es\<rparr>))\<rparr>"

definition HvRITER_get :: "'v hv \<Rightarrow> int" where
  "HvRITER_get hv = (case hv_aux hv of None \<Rightarrow> - 1 | Some a \<Rightarrow> xhv_riter a)"

definition HvEITER_get :: "'v hv \<Rightarrow> 'v eiter" where
  "HvEITER_get hv = (case hv_aux hv of None \<Rightarrow> NoEntry | Some a \<Rightarrow> xhv_eiter a)"

text \<open>The entry at a position, unless it is a hole or the lazily deleted entry of the iterator.\<close>

definition HvENTRY_FIRST :: "'v hv \<Rightarrow> nat \<Rightarrow> 'v he option" where
  "HvENTRY_FIRST hv i =
     (if HvIS_LINEAR hv then HvENTRIES hv ! i
      else if hv_lazydel hv \<and> HvEITER_get hv = EntryAt i then None
      else HvENTRIES hv ! i)"

text \<open>An array of \<open>n\<close> entries, \<open>used\<close> of them from \<open>es\<close> and the others zeroed.\<close>

definition zero_rest :: "'v he option list \<Rightarrow> nat \<Rightarrow> nat \<Rightarrow> 'v he option list" where
  "zero_rest es used n = take used es @ replicate (n - used) None"

section \<open>The chained index\<close>

definition HvOA_INDEX_GET :: "'v hv \<Rightarrow> nat \<Rightarrow> nat" where
  "HvOA_INDEX_GET hv pos = (case hv_array hv of
     Indexed oa \<Rightarrow> hv_oa_index_get (oa_indices oa) (oa_capacity oa) (HvMAX hv + 1) pos | _ \<Rightarrow> 0)"

definition HvOA_INDEX_SET :: "'v hv \<Rightarrow> nat \<Rightarrow> nat \<Rightarrow> 'v hv" where
  "HvOA_INDEX_SET hv pos value = (case hv_array hv of
     Indexed oa \<Rightarrow> hv\<lparr>hv_array := Indexed (oa\<lparr>oa_indices :=
       hv_oa_index_set (oa_indices oa) (oa_capacity oa) (HvMAX hv + 1) pos value\<rparr>)\<rparr> | _ \<Rightarrow> hv)"

definition HvCHAIN_NEXT :: "'v hv \<Rightarrow> nat \<Rightarrow> nat" where
  "HvCHAIN_NEXT hv ix = HvOA_INDEX_GET hv (HvMAX hv + 1 + ix)"

definition HvCHAIN_NEXT_SET :: "'v hv \<Rightarrow> nat \<Rightarrow> nat \<Rightarrow> 'v hv" where
  "HvCHAIN_NEXT_SET hv ix value = HvOA_INDEX_SET hv (HvMAX hv + 1 + ix) value"

definition oa_index_insert :: "'v hv \<Rightarrow> nat \<Rightarrow> u32 \<Rightarrow> 'v hv" where
  "oa_index_insert hv ix hash =
     (let pos = unat hash AND HvMAX hv;
          hv = HvCHAIN_NEXT_SET hv ix (HvOA_INDEX_GET hv pos)
      in HvOA_INDEX_SET hv pos (ix + 1))"

definition oa_index_delete :: "'v hv \<Rightarrow> nat \<Rightarrow> 'v hv" where
  "oa_index_delete hv pos =
     (let encoded = HvOA_INDEX_GET hv pos;
          nxt = HvCHAIN_NEXT hv (encoded - 1);
          hv = HvOA_INDEX_SET hv pos nxt
      in HvCHAIN_NEXT_SET hv (encoded - 1) 0)"

section \<open>Finding a key\<close>

text \<open>A key asked for: its hash, its bytes and flags, and the address of its shared HEK if known.\<close>

record query =
  q_hash :: u32
  q_key :: bytes
  q_utf8 :: bool
  q_wasutf8 :: bool
  q_keyhek :: "nat option"

definition oa_key_eq :: "hek \<Rightarrow> query \<Rightarrow> bool" where
  "oa_key_eq h q \<longleftrightarrow> Some (hek_addr h) = q_keyhek q \<or>
     (hek_hash h = q_hash q \<and> hek_key h = q_key q \<and> hek_utf8 h = q_utf8 q)"

definition entry_matches :: "'v hv \<Rightarrow> query \<Rightarrow> nat \<Rightarrow> bool" where
  "entry_matches hv q i = (case HvENTRIES hv ! i of None \<Rightarrow> False | Some e \<Rightarrow> oa_key_eq (he_hek e) q)"

partial_function (option) oa_chain_find ::
  "(nat \<Rightarrow> nat) \<Rightarrow> nat \<Rightarrow> (nat \<Rightarrow> bool) \<Rightarrow> nat \<Rightarrow> (nat \<times> nat) option option" where
  "oa_chain_find get hv_max matches pos =
     (let ix = get pos in
      if ix = 0 then Some None
      else if matches (ix - 1) then Some (Some (ix - 1, pos))
      else oa_chain_find get hv_max matches (hv_max + ix))"

text \<open>The entry found and, in an index, the cell that links to it.\<close>

definition oa_find :: "'v hv \<Rightarrow> query \<Rightarrow> hv_error + (nat \<times> nat option) option" where
  "oa_find hv q =
     (let hv_max = HvMAX hv; pos = unat (q_hash q) AND hv_max in
      if HvIS_LINEAR hv then
        Inr (map_option (\<lambda>n. (n, None)) (List.find (entry_matches hv q) [0..<hv_keys hv]))
      else if hv_array hv = NoArray then Inr None
      else (case oa_chain_find (HvOA_INDEX_GET hv) hv_max (entry_matches hv q) pos of
              None \<Rightarrow> Inl Diverges
            | Some r \<Rightarrow> Inr (map_option (\<lambda>(n, pos). (n, Some pos)) r)))"

section \<open>Rebuilding the index\<close>

definition oa_compaction_worthwhile :: "nat \<Rightarrow> nat \<Rightarrow> nat \<Rightarrow> bool" where
  "oa_compaction_worthwhile used live capacity =
     (let holes = used - live in holes \<ge> capacity div 5 + of_bool (capacity mod 5 \<noteq> 0))"

definition oa_rebuild_capacity :: "nat \<Rightarrow> nat \<Rightarrow> hv_error + nat" where
  "oa_rebuild_capacity live minimum =
     (let capacity = hv_oa_capacity_for live minimum
      in if capacity = 0 then Inl CapacityExceeded else Inr capacity)"

text \<open>The state of the packing loop: the entries, how many are packed, where the iterator's entry
  went, and the iterator.\<close>

record 'v pack =
  pk_entries :: "'v he option list"
  pk_used :: nat
  pk_eiter_offset :: "nat option"
  pk_eiter :: "'v eiter"
  pk_riter :: int

definition pack_one :: "'v eiter \<Rightarrow> bool \<Rightarrow> int \<Rightarrow> 'v pack \<Rightarrow> nat \<Rightarrow> 'v pack" where
  "pack_one old_eiter lazydel old_riter p i =
     (let entry = pk_entries p ! i;
          p = (if old_eiter = EntryAt i \<and> lazydel then p\<lparr>pk_eiter := Retired entry\<rparr>
               else if entry \<noteq> None then
                 p\<lparr>pk_entries := (if i \<noteq> pk_used p then (pk_entries p)[pk_used p := entry] else pk_entries p),
                   pk_eiter_offset := (if old_eiter = EntryAt i then Some (pk_used p) else pk_eiter_offset p),
                   pk_used := pk_used p + 1\<rparr>
               else p)
      in if old_riter \<ge> 0 \<and> int i \<le> old_riter then p\<lparr>pk_riter := int (pk_used p) - 1\<rparr> else p)"

definition reindex_one :: "'v hv \<Rightarrow> nat \<Rightarrow> 'v hv" where
  "reindex_one hv i = (case HvENTRY_FIRST hv i of
     None \<Rightarrow> hv | Some e \<Rightarrow> oa_index_insert hv i (hek_hash (he_hek e)))"

definition oa_rebuild :: "'v hv \<Rightarrow> nat \<Rightarrow> nat \<Rightarrow> bool \<Rightarrow> hv_error + 'v hv" where
  "oa_rebuild hv capacity entry_capacity pack =
     (let was_linear = HvIS_LINEAR hv;
          entries = HvENTRIES hv;
          used = (if was_linear then hv_keys hv
                  else case hv_array hv of Indexed oa \<Rightarrow> oa_used oa | _ \<Rightarrow> 0);
          old_eiter = HvEITER_get hv;
          old_riter = HvRITER_get hv
      in if capacity > HV_MAX_BUCKETS \<or> hv_keys hv > HV_MAX_KEYS then Inl CapacityExceeded
         else if \<not> hv_oa_size_valid capacity entry_capacity \<or> hv_keys hv > capacity then Inl MemoryWrap
         else
           let old_capacity = (if was_linear then HvLINEAR_CAP hv
                  else case hv_array hv of Indexed oa \<Rightarrow> oa_capacity oa | _ \<Rightarrow> 0);
               holes = used - hv_keys hv;
               compact = (holes \<noteq> 0 \<and> (pack \<or> entry_capacity < used));
               p0 = \<lparr>pk_entries = entries, pk_used = 0, pk_eiter_offset = None,
                     pk_eiter = old_eiter, pk_riter = - 1\<rparr>;
               p = (if compact then foldl (pack_one old_eiter (hv_lazydel hv) old_riter) p0 [0..<used]
                    else p0\<lparr>pk_used := used, pk_riter := old_riter,
                      pk_eiter_offset := (case old_eiter of EntryAt j \<Rightarrow> if j < used then Some j else None
                                          | _ \<Rightarrow> None)\<rparr>);
               aux = (case hv_aux hv of None \<Rightarrow> None
                 | Some a \<Rightarrow> Some (a\<lparr>xhv_riter := pk_riter p,
                     xhv_eiter := (case pk_eiter_offset p of Some j \<Rightarrow> EntryAt j | None \<Rightarrow> pk_eiter p),
                     iter_active := (iter_active a \<or> compact \<and> old_riter \<ge> 0)\<rparr>));
               entries = (if compact \<or> entry_capacity \<noteq> old_capacity
                          then zero_rest (pk_entries p) (pk_used p) entry_capacity else pk_entries p);
               oa = \<lparr>oa_entries = entries, oa_capacity = entry_capacity, oa_used = pk_used p,
                     oa_indices = replicate (HvOA_STORAGE_BYTES capacity entry_capacity) 0\<rparr>;
               hv = HvMAX_SET (hv\<lparr>hv_array := Indexed oa, hv_aux := aux\<rparr>) (capacity - 1)
           in Inr (foldl reindex_one hv [0..<pk_used p]))"

text \<open>\<open>while (entry_capacity < live) entry_capacity += entry_capacity >> 2\<close>\<close>

partial_function (option) grow_entries :: "nat \<Rightarrow> nat \<Rightarrow> nat option" where
  "grow_entries live entry_capacity =
     (if entry_capacity < live then grow_entries live (entry_capacity + entry_capacity div 4)
      else Some entry_capacity)"

definition oa_index_resize :: "'v hv \<Rightarrow> nat \<Rightarrow> hv_error + 'v hv" where
  "oa_index_resize hv capacity =
     (let old = (case hv_array hv of Indexed oa \<Rightarrow> if HvIS_LINEAR hv then None else Some oa | _ \<Rightarrow> None);
          live = hv_keys hv;
          entry_capacity = (case old of Some oa \<Rightarrow> oa_capacity oa | None \<Rightarrow> if live > 8 then live else 8)
      in case grow_entries live entry_capacity of
           None \<Rightarrow> Inl Diverges
         | Some entry_capacity \<Rightarrow>
             oa_rebuild hv capacity entry_capacity
               (case old of None \<Rightarrow> False
                | Some oa \<Rightarrow> oa_compaction_worthwhile (oa_used oa) live (oa_capacity oa)))"

function promote_capacity :: "nat \<Rightarrow> nat \<Rightarrow> hv_error + nat" where
  "promote_capacity used cap =
     (if used + used div 2 > cap - 1 then
        if cap \<ge> HV_MAX_BUCKETS then Inl CapacityExceeded
        else if cap = 0 then Inl Diverges
        else promote_capacity used (cap * 2)
      else Inr cap)"
  by pat_completeness auto
termination by (relation "measure (\<lambda>(u, c). HV_MAX_BUCKETS - c)") auto

declare promote_capacity.simps [simp del]

definition oa_promote :: "'v hv \<Rightarrow> hv_error + 'v hv" where
  "oa_promote hv = attempt (promote_capacity (hv_keys hv) 8) (oa_index_resize hv)"

section \<open>Room for one more entry\<close>

text \<open>Entries grow; links keep their cells unless the cells change width.\<close>

definition oa_reserve_entries :: "'v hv \<Rightarrow> nat \<Rightarrow> hv_error + 'v hv" where
  "oa_reserve_entries hv capacity = (case hv_array hv of
     Indexed oa \<Rightarrow>
       let buckets = HvMAX hv + 1; old_capacity = oa_capacity oa in
       if capacity \<le> old_capacity then Inr hv
       else if \<not> hv_oa_size_valid buckets capacity then Inl MemoryWrap
       else
         let indices =
           (if HvOA_RECORD_WIDTH_FOR capacity = HvOA_RECORD_WIDTH_FOR old_capacity then
              oa_indices oa @ replicate (HvOA_STORAGE_BYTES buckets capacity
                                         - HvOA_STORAGE_BYTES buckets old_capacity) 0
            else foldl (\<lambda>ix i. hv_oa_index_set ix capacity buckets i
                           (hv_oa_index_get (oa_indices oa) old_capacity buckets i))
                   (replicate (HvOA_STORAGE_BYTES buckets capacity) 0) [0..<buckets + old_capacity])
         in Inr (hv\<lparr>hv_array := Indexed (oa\<lparr>oa_entries := zero_rest (oa_entries oa) old_capacity capacity,
                     oa_capacity := capacity, oa_indices := indices\<rparr>)\<rparr>)
   | _ \<Rightarrow> Inr hv)"

text \<open>The first step of \<open>S_oa_new_entry\<close>: pack the entries when it is worth it.\<close>

definition oa_new_entry_pack :: "'v hv \<Rightarrow> 'v oa \<Rightarrow> hv_error + 'v hv" where
  "oa_new_entry_pack hv oa =
     (let index_capacity = HvMAX hv + 1; live = hv_keys hv; shrink_entries = max 8 (live + live div 4 + 1)
      in if (oa_used oa = oa_capacity oa \<or> shrink_entries \<le> oa_capacity oa div 2)
            \<and> oa_compaction_worthwhile (oa_used oa) live (oa_capacity oa)
         then attempt (oa_rebuild_capacity (live + 1) 8) (\<lambda>smaller_index.
           let index_capacity = (if smaller_index \<le> index_capacity div 2 then smaller_index else index_capacity);
               entry_capacity = (if shrink_entries \<le> oa_capacity oa div 2 then shrink_entries else oa_capacity oa)
           in oa_rebuild hv index_capacity entry_capacity True)
         else Inr hv)"

definition oa_new_entry_index :: "'v hv \<Rightarrow> hv_error + 'v hv" where
  "oa_new_entry_index hv =
     (if hv_keys hv \<ge> OA_ENTRY_CAPACITY (HvMAX hv + 1)
      then attempt (oa_rebuild_capacity (hv_keys hv) 8) (oa_index_resize hv)
      else Inr hv)"

definition oa_new_entry_room :: "'v hv \<Rightarrow> 'v oa \<Rightarrow> hv_error + 'v hv" where
  "oa_new_entry_room hv oa =
     (if oa_used oa = oa_capacity oa then
        let increment = oa_capacity oa div 4; capacity = oa_capacity oa + increment
        in if increment = 0 \<or> capacity > U32_MAX then Inl MemoryWrap else oa_reserve_entries hv capacity
      else Inr hv)"

definition HvOA :: "'v hv \<Rightarrow> 'v oa" where
  "HvOA hv = (case hv_array hv of Indexed oa \<Rightarrow> oa
     | _ \<Rightarrow> \<lparr>oa_entries = [], oa_capacity = 0, oa_used = 0, oa_indices = []\<rparr>)"

definition oa_new_entry :: "'v hv \<Rightarrow> hv_error + 'v hv \<times> nat" where
  "oa_new_entry hv =
     attempt (oa_new_entry_pack hv (HvOA hv)) (\<lambda>hv.
     attempt (oa_new_entry_index hv) (\<lambda>hv.
     attempt (oa_new_entry_room hv (HvOA hv)) (\<lambda>hv.
       let oa = HvOA hv
       in Inr (hv\<lparr>hv_array := Indexed (oa\<lparr>oa_used := oa_used oa + 1\<rparr>)\<rparr>, oa_used oa))))"

section \<open>Small hashes\<close>

definition linear_reserve :: "'v hv \<Rightarrow> nat \<Rightarrow> 'v hv" where
  "linear_reserve hv capacity =
     (let entries = HvENTRIES hv; used = hv_keys hv;
          old_capacity = (if hv_array hv = NoArray then 0 else HvLINEAR_CAP hv)
      in if capacity \<le> old_capacity then hv
         else HvMAX_SET_LINEAR (hv\<lparr>hv_array := Linear (zero_rest entries used capacity)\<rparr>) capacity)"

definition linear_new_entry :: "nat \<Rightarrow> 'v hv \<Rightarrow> hv_error + 'v hv \<times> nat" where
  "linear_new_entry limit hv =
     (let used = hv_keys hv; cap = HvLINEAR_CAP hv in
      if hv_array hv = NoArray \<and> used = 0
      then Inr (HvMAX_SET_LINEAR (hv\<lparr>hv_array := Linear [None]\<rparr>) 1, 0)
      else if used = cap then
        if cap < limit then
          let nxt = (if cap \<noteq> 0 then cap * 2 else 1);
              nxt = (if nxt > limit then limit else nxt)
          in if nxt \<le> cap \<or> nxt > HV_LINEAR_CAP_MASK then Inl MemoryWrap
             else Inr (linear_reserve hv nxt, used)
        else attempt (oa_promote hv) oa_new_entry
      else Inr (hv, used))"

text \<open>What removing entry \<open>idx\<close> does to the iterator.\<close>

definition iter_removed :: "nat \<Rightarrow> nat \<Rightarrow> 'v aux \<Rightarrow> 'v aux" where
  "iter_removed used idx a =
     a\<lparr>xhv_riter := (if xhv_riter a \<ge> 0 \<and> nat (xhv_riter a) \<ge> idx then xhv_riter a - 1 else xhv_riter a),
       xhv_eiter := (case xhv_eiter a of
           EntryAt j \<Rightarrow> if j < used then if j = idx then NoEntry else if j > idx then EntryAt (j - 1) else EntryAt j
                        else EntryAt j
         | e \<Rightarrow> e)\<rparr>"

definition linear_remove_at :: "'v hv \<Rightarrow> nat \<Rightarrow> 'v hv" where
  "linear_remove_at hv idx =
     (let entries = HvENTRIES hv; used = hv_keys hv;
          hv = hv\<lparr>hv_aux := map_option (iter_removed used idx) (hv_aux hv)\<rparr>
      in if used = 1 then HvMAX_SET_LINEAR (hv\<lparr>hv_array := NoArray, hv_keys := 0\<rparr>) 0
         else
           let entries = take idx entries @ take (used - idx - 1) (drop (idx + 1) entries) @ drop (used - 1) entries;
               entries = entries[used - 1 := None];
               hv = hv\<lparr>hv_array := Linear entries, hv_keys := used - 1\<rparr>
           in if used = 2 then HvMAX_SET_LINEAR (hv\<lparr>hv_array := Linear [entries ! 0]\<rparr>) 1 else hv)"


section \<open>Fetching and storing\<close>

text \<open>
  What the caller of \<open>hv_common\<close> asks for.  A fetch for modification brings the value that
  \<open>newSV_type\<close> would make and whether the entry may stay empty (\<open>HV_FETCH_EMPTY_HE\<close>).
\<close>

datatype 'v action = Fetch | Exists | Store "'v hval" | Lvalue 'v bool

definition stores :: "'v action \<Rightarrow> bool" where
  "stores act = (case act of Fetch \<Rightarrow> False | Exists \<Rightarrow> False | _ \<Rightarrow> True)"

text \<open>The HEK that \<open>share_hek_flags\<close> or \<open>save_hek_flags\<close> returns, at the address \<open>addr\<close>.\<close>

definition new_hek :: "nat \<Rightarrow> query \<Rightarrow> bool \<Rightarrow> hek" where
  "new_hek addr q notshared = \<lparr>hek_addr = addr, hek_hash = q_hash q, hek_key = q_key q,
     hek_utf8 = q_utf8 q, hek_wasutf8 = q_wasutf8 q, hek_notshared = notshared\<rparr>"

text \<open>\<open>HVhek_ENABLEHVKFLAGS\<close>\<close>

definition q_enable_kflags :: "query \<Rightarrow> bool" where
  "q_enable_kflags q = (q_utf8 q \<or> q_wasutf8 q)"

definition he_update :: "'v hv \<Rightarrow> nat \<Rightarrow> ('v he \<Rightarrow> 'v he) \<Rightarrow> 'v hv" where
  "he_update hv i f = HvENTRIES_SET hv ((HvENTRIES hv)[i := map_option f (HvENTRIES hv ! i)])"

definition swap_hek :: "nat \<Rightarrow> query \<Rightarrow> hek \<Rightarrow> hek" where
  "swap_hek addr q h =
     (if \<not> hek_notshared h then new_hek addr q False else h\<lparr>hek_wasutf8 := \<not> hek_wasutf8 h\<rparr>)"

text \<open>The label \<open>found\<close> for entry \<open>i\<close>; \<open>False\<close> when a placeholder is to count as missing.\<close>

definition hv_found :: "'v hv \<Rightarrow> nat \<Rightarrow> query \<Rightarrow> nat \<Rightarrow> 'v action \<Rightarrow> 'v hv \<times> bool" where
  "hv_found hv i q addr act = (case HvENTRIES hv ! i of
     None \<Rightarrow> (hv, False)
   | Some e \<Rightarrow>
       if stores act then
         let hv = (if hek_wasutf8 (he_hek e) \<noteq> q_wasutf8 q
                   then (he_update hv i (\<lambda>e. e\<lparr>he_hek := swap_hek addr q (he_hek e)\<rparr>))
                     \<lparr>hv_haskflags := (hv_haskflags hv \<or> q_enable_kflags q)\<rparr>
                   else hv)
         in if he_val e = Placeholder then
              case act of
                Lvalue v empty_he \<Rightarrow>
                  ((he_update hv i (\<lambda>e. e\<lparr>he_val := SV v\<rparr>))\<lparr>hv_placeholders := hv_placeholders hv - 1\<rparr>, True)
              | Store val \<Rightarrow>
                  ((he_update hv i (\<lambda>e. e\<lparr>he_val := val\<rparr>))
                     \<lparr>hv_placeholders := hv_placeholders hv - of_bool (val \<noteq> Placeholder)\<rparr>, True)
              | _ \<Rightarrow> (hv, True)
            else
              case act of
                Store val \<Rightarrow> (he_update hv i (\<lambda>e. e\<lparr>he_val := val\<rparr>), True)
              | _ \<Rightarrow> (hv, True)
       else (hv, he_val e \<noteq> Placeholder))"

text \<open>Allocate the first storage of an empty hash; \<open>limit\<close> is \<open>PL_hash_linear_max\<close>.\<close>

definition hv_prepare :: "nat \<Rightarrow> 'v hv \<Rightarrow> hv_error + 'v hv" where
  "hv_prepare limit hv =
     (if hv_array hv = NoArray then
        if limit \<noteq> 0 then Inr (HvMAX_SET_LINEAR hv 0) else oa_index_resize hv (HvMAX hv + 1)
      else Inr hv)"

text \<open>Position the new entry, then fill it in.\<close>

definition hv_new_entry :: "nat \<Rightarrow> 'v hv \<Rightarrow> hv_error + 'v hv \<times> nat" where
  "hv_new_entry limit hv =
     (if HvIS_LINEAR hv then linear_new_entry limit hv
      else attempt (if hv_array hv = NoArray then oa_index_resize hv (HvMAX hv + 1) else Inr hv) oa_new_entry)"

definition hv_fill_entry :: "'v hv \<Rightarrow> nat \<Rightarrow> query \<Rightarrow> nat \<Rightarrow> 'v hval \<Rightarrow> 'v hv" where
  "hv_fill_entry hv i q addr val =
     (let hv = HvENTRIES_SET hv ((HvENTRIES hv)[i :=
            Some \<lparr>he_hek = new_hek addr q (\<not> hv_sharekeys hv), he_val = val\<rparr>]);
          hv = (if \<not> HvIS_LINEAR hv then oa_index_insert hv i (q_hash q) else hv)
      in hv\<lparr>hv_keys := hv_keys hv + 1,
           hv_aux := map_option (\<lambda>a. a\<lparr>iter_inserted := (iter_inserted a \<or> xhv_riter a \<noteq> - 1 \<or> iter_active a)\<rparr>) (hv_aux hv),
           hv_placeholders := hv_placeholders hv + of_bool (val = Placeholder),
           hv_haskflags := (hv_haskflags hv \<or> q_enable_kflags q)\<rparr>)"

definition hv_store_new :: "nat \<Rightarrow> 'v hv \<Rightarrow> query \<Rightarrow> nat \<Rightarrow> 'v hval \<Rightarrow> hv_error + 'v hv \<times> nat" where
  "hv_store_new limit hv q addr val =
     attempt (hv_prepare limit hv) (\<lambda>hv.
     attempt (hv_new_entry limit hv) (\<lambda>(hv, i). Inr (hv_fill_entry hv i q addr val, i)))"

text \<open>The label \<open>not_found\<close>; \<open>entry\<close> tells whether a placeholder was found.\<close>

definition hv_not_found :: "nat \<Rightarrow> 'v hv \<Rightarrow> bool \<Rightarrow> query \<Rightarrow> nat \<Rightarrow> 'v action \<Rightarrow> hv_error + 'v hv \<times> nat option" where
  "hv_not_found limit hv entry q addr act =
     (if \<not> entry \<and> hv_readonly hv \<and> act \<noteq> Exists then Inl AccessDisallowed
      else if \<not> stores act then Inr (hv, None)
      else if hv_keys hv \<ge> HV_MAX_KEYS then Inl CapacityExceeded
      else
        let val = (case act of Store val \<Rightarrow> val | Lvalue v empty_he \<Rightarrow> if empty_he then NullSV else SV v
                   | _ \<Rightarrow> NullSV)
        in attempt (hv_store_new limit hv q addr val) (\<lambda>(hv, i). Inr (hv, Some i)))"

definition hv_common :: "nat \<Rightarrow> 'v hv \<Rightarrow> query \<Rightarrow> nat \<Rightarrow> 'v action \<Rightarrow> hv_error + 'v hv \<times> nat option" where
  "hv_common limit hv q addr act =
     (if hv_array hv = NoArray \<and> \<not> stores act then Inr (hv, None)
      else
        attempt (hv_prepare limit hv) (\<lambda>hv.
        attempt (oa_find hv q) (\<lambda>r. case r of
            None \<Rightarrow> hv_not_found limit hv False q addr act
          | Some (i, slot) \<Rightarrow>
              let (hv, found) = hv_found hv i q addr act
              in if found then Inr (hv, Some i) else hv_not_found limit hv True q addr act)))"

section \<open>Deleting\<close>

text \<open>Remove entry \<open>i\<close>, linked from cell \<open>slot\<close>; the iterator's own entry is only unlinked.\<close>

definition hv_remove :: "'v hv \<Rightarrow> nat \<Rightarrow> nat option \<Rightarrow> 'v hv" where
  "hv_remove hv i slot =
     (let was_linear = HvIS_LINEAR hv;
          hv = he_update hv i (\<lambda>e. e\<lparr>he_val := NullSV\<rparr>);
          hv = (if was_linear then linear_remove_at hv i
                else
                  let hv = (case slot of Some pos \<Rightarrow> oa_index_delete hv pos | None \<Rightarrow> hv);
                      hv = hv\<lparr>hv_keys := hv_keys hv - 1\<rparr>
                  in if HvEITER_get hv = EntryAt i then hv\<lparr>hv_lazydel := True\<rparr>
                     else HvENTRIES_SET hv ((HvENTRIES hv)[i := None]))
      in if hv_keys hv = 0 then hv\<lparr>hv_haskflags := False\<rparr> else hv)"

text \<open>\<open>sv_readonly\<close> is the \<open>READONLY\<close> flag of a value.\<close>

definition hv_delete_common :: "('v \<Rightarrow> bool) \<Rightarrow> 'v hv \<Rightarrow> query \<Rightarrow> hv_error + 'v hv \<times> 'v hval option" where
  "hv_delete_common sv_readonly hv q =
     (if hv_keys hv = 0 then Inr (hv, None)
      else attempt (oa_find hv q) (\<lambda>r. case r of
          None \<Rightarrow> if hv_readonly hv then Inl DeletionDisallowed else Inr (hv, None)
        | Some (i, slot) \<Rightarrow>
            let sv = (case HvENTRIES hv ! i of Some e \<Rightarrow> he_val e | None \<Rightarrow> NullSV) in
            if sv = Placeholder then Inr (hv, None)
            else if hv_readonly hv \<and> (case sv of SV v \<Rightarrow> sv_readonly v | _ \<Rightarrow> False) then Inl ReadOnlyDeletion
            else if hv_readonly hv then
              Inr ((he_update hv i (\<lambda>e. e\<lparr>he_val := Placeholder\<rparr>))
                     \<lparr>hv_placeholders := hv_placeholders hv + 1\<rparr>, Some sv)
            else Inr (hv_remove hv i slot, Some sv)))"

text \<open>A new hash: no array, the default \<open>xhv_max\<close>.\<close>

definition hv_new :: "'v hv" where
  "hv_new = \<lparr>hv_array = NoArray, hv_max_raw = 3, hv_keys = 0, hv_aux = None, hv_lazydel = False,
     hv_readonly = False, hv_sharekeys = True, hv_haskflags = False, hv_placeholders = 0\<rparr>"

end
