(* ===== verification/Hv_Wf.thy ===== *)
theory Hv_Wf
  imports Hv
begin

text \<open>
  The invariant of an ordinary hash, and that every operation keeps it.  The abstraction is
  \<open>hv_list\<close>: the live entries in the order of the entry array.  Packing, growing, promotion and
  reindexing leave it as it is; a store appends to it or updates one element, a deletion removes
  one element.
\<close>

section \<open>The raw capacity field\<close>

lemma raw_bits:
  assumes "k < 64"
  shows "k AND HV_LINEAR_FLAG = 0" "k AND HV_MAX_EXPONENT_MASK = k"
    "HV_LINEAR_FLAG OR k = 64 + k" "(64 + k) AND HV_LINEAR_FLAG = 64" "(64 + k) AND HV_LINEAR_CAP_MASK = k"
proof -
  have "\<forall>k\<in>set [0..<64]. k AND 64 = 0 \<and> k AND 63 = k \<and> 64 OR k = 64 + k \<and> (64 + k) AND 64 = 64 \<and> (64 + k) AND 63 = (k :: nat)"
    by code_simp
  moreover have "k \<in> set [0..<64]" using assms by simp
  ultimately show "k AND HV_LINEAR_FLAG = 0" "k AND HV_MAX_EXPONENT_MASK = k"
    "HV_LINEAR_FLAG OR k = 64 + k" "(64 + k) AND HV_LINEAR_FLAG = 64" "(64 + k) AND HV_LINEAR_CAP_MASK = k"
    unfolding HV_LINEAR_FLAG_def HV_MAX_EXPONENT_MASK_def HV_LINEAR_CAP_MASK_def by blast+
qed

lemma HvMAX_linear:
  assumes "hv_max_raw hv = 64 + cap" "cap < 64"
  shows "HvIS_LINEAR hv" "HvLINEAR_CAP hv = cap"
  using raw_bits [OF assms(2)] by (simp_all add: HvIS_LINEAR_def HvLINEAR_CAP_def assms(1))

lemma HvMAX_indexed:
  assumes "hv_max_raw hv = k" "k < 64"
  shows "\<not> HvIS_LINEAR hv" "HvMAX hv = 2 ^ k - 1"
  using raw_bits [OF assms(2)] by (simp_all add: HvIS_LINEAR_def HvMAX_def assms(1))

lemma encode_exponent_pow: "encode_exponent (2 ^ k) e = e + k"
proof (induction k arbitrary: e)
  case 0
  then show ?case by (subst encode_exponent.simps) simp
next
  case (Suc k)
  have "1 < (2 :: nat) ^ Suc k" using one_less_power [of "2 :: nat" "Suc k"] by simp
  then show ?case using Suc.IH by (subst encode_exponent.simps) simp
qed

lemma HvMAX_SET_raw: "hv_max_raw (HvMAX_SET hv (2 ^ k - 1)) = k"
  by (simp add: HvMAX_SET_def hv_encode_max_def encode_exponent_pow)

lemma mask_mod: "(h :: nat) AND (2 ^ k - 1) = h mod 2 ^ k"
  by (metis take_bit_eq_mask take_bit_eq_mod mask_eq_exp_minus_1)

lemma is_pow2_pow: "is_pow2 (2 ^ k)"
  using mask_mod [of "2 ^ k" k] by (simp add: is_pow2_def)

section \<open>Live entries\<close>

definition HvENTRY_LIMIT :: "'v hv \<Rightarrow> nat" where
  "HvENTRY_LIMIT hv = (if HvIS_LINEAR hv then hv_keys hv
     else case hv_array hv of Indexed oa \<Rightarrow> oa_used oa | _ \<Rightarrow> 0)"

definition hv_list :: "'v hv \<Rightarrow> 'v he list" where
  "hv_list hv = List.map_filter (HvENTRY_FIRST hv) [0..<HvENTRY_LIMIT hv]"

definition he_key :: "'v he \<Rightarrow> bytes \<times> bool" where
  "he_key e = (hek_key (he_hek e), hek_utf8 (he_hek e))"

text \<open>The bucket of an entry.\<close>

definition he_home :: "'v hv \<Rightarrow> nat \<Rightarrow> nat option" where
  "he_home hv i = (if i < HvENTRY_LIMIT hv
     then map_option (\<lambda>e. unat (hek_hash (he_hek e)) mod (HvMAX hv + 1)) (HvENTRY_FIRST hv i) else None)"

definition lazy_in :: "'v hv \<Rightarrow> nat \<Rightarrow> bool" where
  "lazy_in hv n \<longleftrightarrow> (\<forall>j. hv_lazydel hv \<longrightarrow> HvEITER_get hv = EntryAt j \<longrightarrow> j < n)"

text \<open>Entries and capacities fit; \<open>oa_shape\<close> says nothing of the index.\<close>

definition oa_shape :: "'v hv \<Rightarrow> 'v oa \<Rightarrow> bool" where
  "oa_shape hv oa \<longleftrightarrow> hv_max_raw hv \<le> 30 \<and> length (oa_entries oa) = oa_capacity oa \<and>
     hv_keys hv \<le> OA_ENTRY_CAPACITY (HvMAX hv + 1) \<and> oa_used oa \<le> oa_capacity oa \<and> 8 \<le> oa_capacity oa \<and> oa_capacity oa \<le> I32_MAX \<and>
     (\<forall>i<oa_capacity oa. oa_used oa \<le> i \<longrightarrow> oa_entries oa ! i = None) \<and>
     lazy_in hv (oa_used oa)"

definition oa_indexed :: "'v hv \<Rightarrow> 'v oa \<Rightarrow> bool" where
  "oa_indexed hv oa \<longleftrightarrow> index_ok (oa_indices oa) (oa_capacity oa) (HvMAX hv + 1) \<and>
     chains_ok (HvOA_INDEX_GET hv) (HvMAX hv + 1) (oa_capacity oa) (he_home hv)"

definition linear_shape :: "'v hv \<Rightarrow> 'v he option list \<Rightarrow> bool" where
  "linear_shape hv es \<longleftrightarrow> (\<exists>cap. hv_max_raw hv = 64 + cap \<and> cap < 64 \<and> length es = cap) \<and>
     hv_keys hv \<le> length es \<and> 0 < hv_keys hv \<and> (\<forall>i<length es. es ! i \<noteq> None \<longleftrightarrow> i < hv_keys hv) \<and> lazy_in hv 0"

definition hv_shape :: "'v hv \<Rightarrow> bool" where
  "hv_shape hv = (case hv_array hv of
     NoArray \<Rightarrow> hv_keys hv = 0 \<and> (hv_max_raw hv \<le> 30 \<or> hv_max_raw hv = 64) \<and> lazy_in hv 0
   | Linear es \<Rightarrow> linear_shape hv es
   | Indexed oa \<Rightarrow> oa_shape hv oa \<and> oa_indexed hv oa)"

text \<open>\<open>H\<close> is the hash function of the interpreter.\<close>

definition hv_list_ok :: "(bytes \<Rightarrow> u32) \<Rightarrow> 'v hv \<Rightarrow> bool" where
  "hv_list_ok H hv \<longleftrightarrow> length (hv_list hv) = hv_keys hv \<and> distinct (map he_key (hv_list hv)) \<and>
     (\<forall>e\<in>set (hv_list hv). hek_hash (he_hek e) = H (hek_key (he_hek e))) \<and> hv_keys hv \<le> HV_MAX_KEYS"

definition hv_wf :: "(bytes \<Rightarrow> u32) \<Rightarrow> 'v hv \<Rightarrow> bool" where
  "hv_wf H hv \<longleftrightarrow> hv_shape hv \<and> hv_list_ok H hv"

definition hv_map :: "'v hv \<Rightarrow> bytes \<times> bool \<Rightarrow> 'v hval option" where
  "hv_map hv = map_of (map (\<lambda>e. (he_key e, he_val e)) (hv_list hv))"

text \<open>A well-formed query: its hash is that of its key, and a known HEK stands for that key.\<close>

definition query_ok :: "(bytes \<Rightarrow> u32) \<Rightarrow> 'v hv \<Rightarrow> query \<Rightarrow> bool" where
  "query_ok H hv q \<longleftrightarrow> q_hash q = H (q_key q) \<and>
     (\<forall>e\<in>set (hv_list hv). q_keyhek q = Some (hek_addr (he_hek e)) \<longrightarrow> he_key e = (q_key q, q_utf8 q))"

lemma map_filter_upt_Suc: "List.map_filter f [0..<Suc n] = List.map_filter f [0..<n] @ (case f n of None \<Rightarrow> [] | Some x \<Rightarrow> [x])"
  by (simp add: List.map_filter_def split: option.splits)

lemma map_filter_cong: "(\<And>x. x \<in> set xs \<Longrightarrow> f x = g x) \<Longrightarrow> List.map_filter f xs = List.map_filter g xs"
  by (induction xs) (auto simp: List.map_filter_def)

lemma set_map_filter: "y \<in> set (List.map_filter f xs) \<longleftrightarrow> (\<exists>x\<in>set xs. f x = Some y)"
  by (induction xs) (auto simp: List.map_filter_def)

lemma in_hv_list: "e \<in> set (hv_list hv) \<longleftrightarrow> (\<exists>i<HvENTRY_LIMIT hv. HvENTRY_FIRST hv i = Some e)"
  by (auto simp: hv_list_def set_map_filter)

lemma map_filter_positions:
  assumes "i < n" "f i = Some x"
  shows "List.map_filter f [0..<n] = List.map_filter f [0..<i] @ x # List.map_filter f [Suc i..<n]"
proof -
  have "[0..<n] = [0..<i] @ i # [Suc i..<n]" using assms(1)
    using upt_add_eq_append [of 0 i "n - i"] by (simp add: upt_conv_Cons)
  then show ?thesis using assms(2) by (simp add: List.map_filter_def)
qed

section \<open>Finding\<close>

lemma oa_chain_find_correct:
  assumes "chain get b c pos xs" "b = hv_max + 1"
  shows "case oa_chain_find get hv_max matches pos of
      None \<Rightarrow> False
    | Some None \<Rightarrow> \<forall>i\<in>set xs. \<not> matches i
    | Some (Some (i, p)) \<Rightarrow> matches i \<and> (\<exists>ys zs. xs = ys @ i # zs \<and> p = link b pos ys)"
  using assms
proof (induction xs arbitrary: pos)
  case Nil
  then show ?case by (subst oa_chain_find.simps) simp
next
  case (Cons i xs)
  have g: "get pos = i + 1" "chain get b c (b + i) xs" using Cons.prems by auto
  show ?case
  proof (cases "matches i")
    case True
    then have "oa_chain_find get hv_max matches pos = Some (Some (i, pos))"
      using g by (subst oa_chain_find.simps) simp
    then show ?thesis using True by (auto simp: link_def intro: exI [of _ "[]"])
  next
    case False
    then have e: "oa_chain_find get hv_max matches pos = oa_chain_find get hv_max matches (b + i)"
      using g Cons.prems(2) by (subst oa_chain_find.simps) simp
    have "link b (b + i) ys = link b pos (i # ys)" for ys by (simp add: link_def)
    then show ?thesis using Cons.IH [OF g(2) Cons.prems(2)] False unfolding e
      by (auto split: option.splits) (metis append_Cons)
  qed
qed

lemma HvENTRY_FIRST_entries: "HvENTRY_FIRST hv i = Some e \<Longrightarrow> HvENTRIES hv ! i = Some e"
  by (auto simp: HvENTRY_FIRST_def split: if_splits)

lemma live_key_eq:
  assumes "hv_list_ok H hv" "query_ok H hv q" "HvENTRY_FIRST hv i = Some e" "i < HvENTRY_LIMIT hv"
  shows "entry_matches hv q i \<longleftrightarrow> he_key e = (q_key q, q_utf8 q)"
proof -
  have e: "e \<in> set (hv_list hv)" using assms(3,4) by (auto simp: in_hv_list)
  then have "hek_hash (he_hek e) = H (hek_key (he_hek e))" using assms(1) by (simp add: hv_list_ok_def)
  moreover have "q_hash q = H (q_key q)" "Some (hek_addr (he_hek e)) = q_keyhek q \<Longrightarrow> he_key e = (q_key q, q_utf8 q)"
    using assms(2) e by (auto simp: query_ok_def)
  ultimately show ?thesis
    using HvENTRY_FIRST_entries [OF assms(3)] by (auto simp: entry_matches_def oa_key_eq_def he_key_def)
qed

lemma NoArray_list: "hv_array hv = NoArray \<Longrightarrow> hv_shape hv \<Longrightarrow> hv_list hv = [] \<and> HvENTRY_LIMIT hv = 0"
  by (auto simp: hv_list_def HvENTRY_LIMIT_def hv_shape_def List.map_filter_def)

lemma Linear_facts:
  assumes "hv_array hv = Linear es" "linear_shape hv es"
  shows "HvIS_LINEAR hv" "HvENTRY_LIMIT hv = hv_keys hv" "HvENTRIES hv = es"
    "HvENTRY_FIRST hv = (\<lambda>i. es ! i)" "HvLINEAR_CAP hv = length es"
    "\<And>i. i < hv_keys hv \<Longrightarrow> es ! i \<noteq> None"
proof -
  obtain cap where c: "hv_max_raw hv = 64 + cap" "cap < 64" "length es = cap"
    using assms(2) by (auto simp: linear_shape_def)
  show l: "HvIS_LINEAR hv" "HvLINEAR_CAP hv = length es" using HvMAX_linear [OF c(1,2)] c(3) by simp_all
  show "HvENTRY_LIMIT hv = hv_keys hv" using l by (simp add: HvENTRY_LIMIT_def)
  show e: "HvENTRIES hv = es" using assms(1) by (simp add: HvENTRIES_def)
  show "HvENTRY_FIRST hv = (\<lambda>i. es ! i)" using l e by (auto simp: HvENTRY_FIRST_def)
  show "\<And>i. i < hv_keys hv \<Longrightarrow> es ! i \<noteq> None" using assms(2) by (auto simp: linear_shape_def)
qed

lemma Indexed_facts:
  assumes "hv_array hv = Indexed oa" "oa_shape hv oa"
  shows "\<not> HvIS_LINEAR hv" "HvMAX hv = 2 ^ hv_max_raw hv - 1" "HvENTRY_LIMIT hv = oa_used oa"
    "HvENTRIES hv = oa_entries oa" "HvOA hv = oa" "hv_array hv \<noteq> NoArray"
  using assms HvMAX_indexed [of hv "hv_max_raw hv"]
  by (auto simp: oa_shape_def HvENTRY_LIMIT_def HvENTRIES_def HvOA_def)

lemma oa_find_correct:
  assumes "hv_wf H hv" "query_ok H hv q"
  shows "\<exists>r. oa_find hv q = Inr r \<and> (case r of
      None \<Rightarrow> \<forall>e\<in>set (hv_list hv). he_key e \<noteq> (q_key q, q_utf8 q)
    | Some (i, slot) \<Rightarrow> i < HvENTRY_LIMIT hv \<and>
        (\<exists>e. HvENTRY_FIRST hv i = Some e \<and> he_key e = (q_key q, q_utf8 q)) \<and>
        (HvIS_LINEAR hv \<longrightarrow> slot = None) \<and>
        (\<not> HvIS_LINEAR hv \<longrightarrow> (\<exists>ys zs h. slot = Some (link (HvMAX hv + 1) h ys) \<and> h < HvMAX hv + 1 \<and>
          chain (HvOA_INDEX_GET hv) (HvMAX hv + 1) (oa_capacity (HvOA hv)) h (ys @ i # zs))))"
proof -
  have sh: "hv_shape hv" and ok: "hv_list_ok H hv" using assms(1) by (auto simp: hv_wf_def)
  note mt = live_key_eq [OF ok assms(2)]
  show ?thesis
  proof (cases "hv_array hv")
    case NoArray
    show ?thesis
    proof (cases "HvIS_LINEAR hv")
      case True
      then have "hv_keys hv = 0" using sh NoArray by (simp add: hv_shape_def)
      then show ?thesis using True NoArray_list [OF NoArray sh] by (simp add: oa_find_def)
    next
      case False
      then show ?thesis using NoArray NoArray_list [OF NoArray sh] by (simp add: oa_find_def)
    qed
  next
    case (Linear es)
    then have "linear_shape hv es" using sh by (simp add: hv_shape_def)
    note l = Linear_facts [OF Linear this]
    define r where "r = List.find (entry_matches hv q) [0..<hv_keys hv]"
    have fr: "oa_find hv q = Inr (map_option (\<lambda>n. (n, None)) r)"
      using l(1) by (simp add: oa_find_def r_def)
    show ?thesis
    proof (cases r)
      case None
      then have "\<not> entry_matches hv q i" if "i < hv_keys hv" for i
        using that by (auto simp: r_def find_None_iff)
      then show ?thesis using fr None mt l(2) by (auto simp: in_hv_list)
    next
      case (Some i)
      then have i: "i < hv_keys hv" "entry_matches hv q i" by (auto simp: r_def find_Some_iff)
      obtain e where "HvENTRY_FIRST hv i = Some e" using l(4) l(6) [OF i(1)] by auto
      then show ?thesis using fr Some mt [of i e] i l(1,2) by auto
    qed
  next
    case (Indexed oa)
    have osh: "oa_shape hv oa" and ix: "oa_indexed hv oa" using sh Indexed by (auto simp: hv_shape_def)
    note f = Indexed_facts [OF Indexed osh]
    let ?b = "HvMAX hv + 1" and ?pos = "unat (q_hash q) AND HvMAX hv"
    have pos: "?pos = unat (q_hash q) mod ?b" using mask_mod [of _ "hv_max_raw hv"] f(2) by simp
    then have pb: "?pos < ?b" by simp
    obtain xs where xs: "chain (HvOA_INDEX_GET hv) ?b (oa_capacity oa) ?pos xs"
      "set xs = {i. he_home hv i = Some ?pos}"
      using ix pb by (auto simp: oa_indexed_def chains_ok_def)
    note c = oa_chain_find_correct [OF xs(1) refl, of "entry_matches hv q"]
    define r where "r = oa_chain_find (HvOA_INDEX_GET hv) (HvMAX hv) (entry_matches hv q) ?pos"
    have fr: "oa_find hv q = (case r of None \<Rightarrow> Inl Diverges | Some r \<Rightarrow> Inr (map_option (\<lambda>(n, pos). (n, Some pos)) r))"
      using f(1,6) by (simp add: oa_find_def r_def Let_def)
    have live: "\<exists>e. HvENTRY_FIRST hv i = Some e \<and> i < HvENTRY_LIMIT hv" if "i \<in> set xs" for i
      using that xs(2) by (auto simp: he_home_def split: if_splits)
    consider "r = Some None" "\<forall>i\<in>set xs. \<not> entry_matches hv q i"
      | i p ys zs where "r = Some (Some (i, p))" "entry_matches hv q i" "xs = ys @ i # zs" "p = link ?b ?pos ys"
      using c by (auto simp: r_def split: option.splits)
    then show ?thesis
    proof cases
      case 1
      have "he_key e \<noteq> (q_key q, q_utf8 q)" if em: "e \<in> set (hv_list hv)" for e
      proof
        assume k: "he_key e = (q_key q, q_utf8 q)"
        obtain i where i: "i < HvENTRY_LIMIT hv" "HvENTRY_FIRST hv i = Some e"
          using em by (auto simp: in_hv_list)
        have "hek_hash (he_hek e) = q_hash q" using k that ok assms(2)
          by (auto simp: hv_list_ok_def query_ok_def he_key_def)
        then have "i \<in> set xs" using xs(2) i pos by (simp add: he_home_def)
        then show False using 1(2) mt [OF i(2,1)] k by blast
      qed
      then show ?thesis using fr 1(1) by auto
    next
      case (2 i p ys zs)
      obtain e where e: "HvENTRY_FIRST hv i = Some e" "i < HvENTRY_LIMIT hv" using live [of i] 2(3) by auto
      have "\<exists>ys zs h. Some p = Some (link ?b h ys) \<and> h < ?b \<and>
          chain (HvOA_INDEX_GET hv) ?b (oa_capacity (HvOA hv)) h (ys @ i # zs)"
        using 2(3,4) xs(1) pb f(5) by auto
      then show ?thesis using fr 2(1,2) e mt [OF e] f(1) by auto
    qed
  qed
qed


section \<open>Linking and unlinking\<close>

lemma HvMAX_cong: "hv_max_raw hv = hv_max_raw hv' \<Longrightarrow> HvMAX hv = HvMAX hv'"
  and HvIS_LINEAR_cong: "hv_max_raw hv = hv_max_raw hv' \<Longrightarrow> HvIS_LINEAR hv = HvIS_LINEAR hv'"
  by (simp_all add: HvMAX_def HvIS_LINEAR_def HvLINEAR_CAP_def)

lemma raw_array [simp]: "HvMAX (hv\<lparr>hv_array := a\<rparr>) = HvMAX hv" "HvIS_LINEAR (hv\<lparr>hv_array := a\<rparr>) = HvIS_LINEAR hv"
  by (rule HvMAX_cong HvIS_LINEAR_cong, simp)+

definition with_index :: "'v hv \<Rightarrow> 'v oa \<Rightarrow> u8 list \<Rightarrow> 'v hv" where
  "with_index hv oa ix = hv\<lparr>hv_array := Indexed (oa\<lparr>oa_indices := ix\<rparr>)\<rparr>"

lemma index_get_fun: "hv_array hv = Indexed oa \<Longrightarrow>
    HvOA_INDEX_GET hv = hv_oa_index_get (oa_indices oa) (oa_capacity oa) (HvMAX hv + 1)"
  by (auto simp: HvOA_INDEX_GET_def)

lemma index_set_fun: "hv_array hv = Indexed oa \<Longrightarrow> HvOA_INDEX_SET hv pos v =
    with_index hv oa (hv_oa_index_set (oa_indices oa) (oa_capacity oa) (HvMAX hv + 1) pos v)"
  by (simp add: HvOA_INDEX_SET_def with_index_def)

lemma with_index_get:
  "HvOA_INDEX_GET (with_index hv oa ix) = hv_oa_index_get ix (oa_capacity oa) (HvMAX hv + 1)"
  "HvMAX (with_index hv oa ix) = HvMAX hv"
  by (auto simp: with_index_def HvOA_INDEX_GET_def)

lemma oa_index_insert_ok:
  assumes "hv_array hv = Indexed oa" "hv_max_raw hv < 64"
    and "index_ok (oa_indices oa) (oa_capacity oa) (HvMAX hv + 1)"
    and "chains_ok (HvOA_INDEX_GET hv) (HvMAX hv + 1) (oa_capacity oa) home"
    and "home i = None" "i < oa_capacity oa" "\<not> HvIS_LINEAR hv"
  shows "\<exists>ix. oa_index_insert hv i hash = with_index hv oa ix \<and> index_ok ix (oa_capacity oa) (HvMAX hv + 1) \<and>
    chains_ok (hv_oa_index_get ix (oa_capacity oa) (HvMAX hv + 1)) (HvMAX hv + 1) (oa_capacity oa)
      (home(i \<mapsto> unat hash mod (HvMAX hv + 1)))"
proof -
  let ?b = "HvMAX hv + 1" and ?c = "oa_capacity oa" and ?ix = "oa_indices oa"
  have m: "HvMAX hv = 2 ^ hv_max_raw hv - 1" using HvMAX_indexed [OF refl assms(2)] by simp
  have pos: "unat hash AND HvMAX hv = unat hash mod ?b" using mask_mod [of _ "hv_max_raw hv"] m by simp
  let ?h = "unat hash mod ?b"
  define ix1 where "ix1 = hv_oa_index_set ?ix ?c ?b (?b + i) (hv_oa_index_get ?ix ?c ?b ?h)"
  define ix2 where "ix2 = hv_oa_index_set ix1 ?c ?b ?h (i + 1)"
  have "oa_index_insert hv i hash = with_index hv oa ix2"
    by (simp add: oa_index_insert_def Let_def HvCHAIN_NEXT_SET_def pos HvOA_INDEX_SET_def HvOA_INDEX_GET_def
        assms(1) ix1_def ix2_def with_index_def)
  moreover have "index_ok ix2 ?c ?b \<and> chains_ok (hv_oa_index_get ix2 ?c ?b) ?b ?c (home(i \<mapsto> ?h))"
    using hv_cells.insert_chain [of ?ix ?c ?b home i ?h] assms(3-6)
    by (simp add: ix1_def ix2_def index_get_fun [OF assms(1)])
  ultimately show ?thesis by blast
qed

lemma oa_index_delete_ok:
  assumes "hv_array hv = Indexed oa"
    and "index_ok (oa_indices oa) (oa_capacity oa) (HvMAX hv + 1)"
    and "chains_ok (HvOA_INDEX_GET hv) (HvMAX hv + 1) (oa_capacity oa) home"
    and "chain (HvOA_INDEX_GET hv) (HvMAX hv + 1) (oa_capacity oa) h (ys @ i # zs)" "h < HvMAX hv + 1"
  shows "\<exists>ix. oa_index_delete hv (link (HvMAX hv + 1) h ys) = with_index hv oa ix \<and>
    index_ok ix (oa_capacity oa) (HvMAX hv + 1) \<and>
    chains_ok (hv_oa_index_get ix (oa_capacity oa) (HvMAX hv + 1)) (HvMAX hv + 1) (oa_capacity oa) (home(i := None))"
proof -
  let ?b = "HvMAX hv + 1" and ?c = "oa_capacity oa" and ?ix = "oa_indices oa"
  let ?p = "link ?b h ys"
  define ix1 where "ix1 = hv_oa_index_set ?ix ?c ?b ?p (hv_oa_index_get ?ix ?c ?b (?b + i))"
  define ix2 where "ix2 = hv_oa_index_set ix1 ?c ?b (?b + i) 0"
  have e: "hv_oa_index_get ?ix ?c ?b ?p = i + 1"
    using assms(4) chain_append [of "HvOA_INDEX_GET hv" ?b ?c h ys "i # zs"] by (simp add: index_get_fun [OF assms(1)])
  have "oa_index_delete hv ?p = with_index hv oa ix2"
    using e by (simp add: oa_index_delete_def Let_def HvCHAIN_NEXT_SET_def HvCHAIN_NEXT_def HvOA_INDEX_SET_def
        HvOA_INDEX_GET_def assms(1) ix1_def ix2_def with_index_def)
  moreover have "index_ok ix2 ?c ?b \<and> chains_ok (hv_oa_index_get ix2 ?c ?b) ?b ?c (home(i := None))"
    using hv_cells.delete_chain [of ?ix ?c ?b home h ys i zs] assms(2-5)
    by (simp add: ix1_def ix2_def index_get_fun [OF assms(1)])
  ultimately show ?thesis by blast
qed

end
