(* ===== verification/Hv_Rebuild.thy ===== *)
theory Hv_Rebuild
  imports Hv_Wf
begin

text \<open>
  Packing the entries of a hash and rebuilding its index: \<open>S_oa_rebuild\<close>, and the routines that make
  room for one more entry.  None of them changes the live entries or their order.
\<close>

section \<open>Rebuilding\<close>

lemma with_index_sel [simp]:
  "hv_array (with_index hv oa ix) = Indexed (oa\<lparr>oa_indices := ix\<rparr>)"
  "hv_max_raw (with_index hv oa ix) = hv_max_raw hv" "hv_keys (with_index hv oa ix) = hv_keys hv"
  "hv_aux (with_index hv oa ix) = hv_aux hv" "hv_lazydel (with_index hv oa ix) = hv_lazydel hv"
  "with_index (with_index hv oa ix) (oa\<lparr>oa_indices := ix'\<rparr>) ix2 = with_index hv oa ix2"
  by (simp_all add: with_index_def)

lemma with_index_first:
  "hv_array hv = Indexed oa \<Longrightarrow> HvENTRY_FIRST (with_index hv oa ix) = HvENTRY_FIRST hv"
  by (auto simp: HvENTRY_FIRST_def HvENTRIES_def HvEITER_get_def HvIS_LINEAR_def fun_eq_iff)

lemma with_index_id: "hv_array hv = Indexed oa \<Longrightarrow> with_index hv oa (oa_indices oa) = hv"
  by (simp add: with_index_def)

lemma reindex_fold:
  assumes a: "hv_array hv = Indexed oa" "hv_max_raw hv < 64" "\<not> HvIS_LINEAR hv"
    and z: "index_ok (oa_indices oa) (oa_capacity oa) (HvMAX hv + 1)" "\<forall>x\<in>set (oa_indices oa). x = 0"
    and n: "n \<le> oa_capacity oa"
  shows "\<exists>ix. foldl reindex_one hv [0..<n] = with_index hv oa ix \<and> index_ok ix (oa_capacity oa) (HvMAX hv + 1) \<and>
    chains_ok (hv_oa_index_get ix (oa_capacity oa) (HvMAX hv + 1)) (HvMAX hv + 1) (oa_capacity oa)
      (\<lambda>i. if i < n then map_option (\<lambda>e. unat (hek_hash (he_hek e)) mod (HvMAX hv + 1)) (HvENTRY_FIRST hv i) else None)"
  using n
proof (induction n)
  case 0
  have "chains_ok (hv_oa_index_get (oa_indices oa) (oa_capacity oa) (HvMAX hv + 1)) (HvMAX hv + 1) (oa_capacity oa) (\<lambda>i. None)"
    using index_get_zero [OF z] by (auto simp: chains_ok_def intro: exI [of _ "[]"])
  then show ?case using with_index_id [OF a(1)] z(1) by (intro exI [of _ "oa_indices oa"]) simp
next
  case (Suc n)
  let ?b = "HvMAX hv + 1" and ?c = "oa_capacity oa"
  let ?home = "\<lambda>n i. if i < n then map_option (\<lambda>e. unat (hek_hash (he_hek e)) mod ?b) (HvENTRY_FIRST hv i) else None"
  obtain ix where ix: "foldl reindex_one hv [0..<n] = with_index hv oa ix" "index_ok ix ?c ?b"
    "chains_ok (hv_oa_index_get ix ?c ?b) ?b ?c (?home n)"
    using Suc by auto
  have step: "foldl reindex_one hv [0..<Suc n] = reindex_one (with_index hv oa ix) n" using ix(1) by simp
  show ?case
  proof (cases "HvENTRY_FIRST hv n")
    case None
    then have h: "?home (Suc n) = ?home n" by (auto simp: less_Suc_eq fun_eq_iff)
    have "reindex_one (with_index hv oa ix) n = with_index hv oa ix"
      using None unfolding reindex_one_def with_index_first [OF a(1)] by simp
    then have f: "foldl reindex_one hv [0..<Suc n] = with_index hv oa ix" by (rule trans [OF step])
    show ?thesis unfolding h by (rule exI [of _ ix], intro conjI, rule f, rule ix(2), rule ix(3))
  next
    case (Some e)
    let ?w = "with_index hv oa ix"
    have m: "HvMAX ?w = HvMAX hv" "\<not> HvIS_LINEAR ?w" using a(3) by (auto simp: with_index_get HvIS_LINEAR_def)
    obtain ix2 where i2: "oa_index_insert ?w n (hek_hash (he_hek e)) = with_index ?w (oa\<lparr>oa_indices := ix\<rparr>) ix2"
      "index_ok ix2 ?c ?b" "chains_ok (hv_oa_index_get ix2 ?c ?b) ?b ?c
         ((?home n)(n \<mapsto> unat (hek_hash (he_hek e)) mod ?b))"
      using oa_index_insert_ok [of ?w "oa\<lparr>oa_indices := ix\<rparr>" "?home n" n "hek_hash (he_hek e)"] a(2) m ix Suc.prems
      by (auto simp: with_index_get)
    have h: "(?home n)(n \<mapsto> unat (hek_hash (he_hek e)) mod ?b) = ?home (Suc n)"
      using Some by (auto simp: less_Suc_eq fun_eq_iff)
    have "reindex_one (with_index hv oa ix) n = with_index hv oa ix2"
      using Some i2(1) unfolding reindex_one_def with_index_first [OF a(1)] by simp
    then have f: "foldl reindex_one hv [0..<Suc n] = with_index hv oa ix2" by (rule trans [OF step])
    show ?thesis by (rule exI [of _ ix2], intro conjI, rule f, rule i2(2), rule i2(3) [unfolded h])
  qed
qed

text \<open>Packing keeps the live entries, in order.\<close>

definition live_of :: "'v eiter \<Rightarrow> bool \<Rightarrow> 'v he option list \<Rightarrow> nat \<Rightarrow> 'v he option" where
  "live_of eiter lazydel es i = (if eiter = EntryAt i \<and> lazydel then None else es ! i)"

lemma pack_fold:
  fixes es :: "'v he option list" and lazydel :: bool and riter :: int
  assumes "n \<le> length es" "pk_entries p0 = es" "pk_used p0 = 0" "pk_eiter_offset p0 = None" "pk_eiter p0 = eiter"
  defines p_def: "p \<equiv> foldl (pack_one eiter lazydel riter) p0 [0..<n]"
    and L_def: "L \<equiv> List.map_filter (live_of eiter lazydel es) [0..<n]"
  shows "take (pk_used p) (pk_entries p) = map Some L \<and> pk_used p = length L \<and> length L \<le> n \<and>
    drop n (pk_entries p) = drop n es \<and> length (pk_entries p) = length es \<and>
    (lazydel \<longrightarrow> pk_eiter_offset p = None) \<and>
    (lazydel \<longrightarrow> (\<forall>j. pk_eiter p = EntryAt j \<longrightarrow> eiter = EntryAt j \<and> n \<le> j)) \<and>
    (\<forall>j. pk_eiter_offset p = Some j \<longrightarrow> j < pk_used p)"
  unfolding p_def L_def using assms(1)
proof (induction n)
  case 0
  then show ?case using assms(2-5) by (simp add: List.map_filter_def)
next
  case (Suc n)
  define q where "q = foldl (pack_one eiter lazydel riter) p0 [0..<n]"
  define M where "M = List.map_filter (live_of eiter lazydel es) [0..<n]"
  have nl: "n < length es" using Suc.prems by simp
  have IH0: "take (pk_used q) (pk_entries q) = map Some M \<and> pk_used q = length M \<and> length M \<le> n \<and>
    drop n (pk_entries q) = drop n es \<and> length (pk_entries q) = length es \<and>
    (lazydel \<longrightarrow> pk_eiter_offset q = None) \<and>
    (lazydel \<longrightarrow> (\<forall>j. pk_eiter q = EntryAt j \<longrightarrow> eiter = EntryAt j \<and> n \<le> j)) \<and>
    (\<forall>j. pk_eiter_offset q = Some j \<longrightarrow> j < pk_used q)"
    by (rule Suc.IH [folded q_def M_def, OF less_imp_le [OF nl]])
  have IH: "take (pk_used q) (pk_entries q) = map Some M" "pk_used q = length M" "length M \<le> n"
    "drop n (pk_entries q) = drop n es" "length (pk_entries q) = length es"
    "lazydel \<Longrightarrow> pk_eiter_offset q = None"
    "\<And>j. lazydel \<Longrightarrow> pk_eiter q = EntryAt j \<Longrightarrow> eiter = EntryAt j \<and> n \<le> j"
    "\<And>j. pk_eiter_offset q = Some j \<Longrightarrow> j < pk_used q"
    using IH0 by (blast, blast, blast, blast, blast, blast, blast, blast)
  have en: "pk_entries q ! n = es ! n"
    using arg_cong [OF IH(4), of hd] IH(5) nl by (simp add: hd_drop_conv_nth)
  have dn: "drop (Suc n) (pk_entries q) = drop (Suc n) es"
    using arg_cong [OF IH(4), of tl] by (simp add: drop_Suc tl_drop)
  have L: "List.map_filter (live_of eiter lazydel es) [0..<Suc n] =
      M @ (case live_of eiter lazydel es n of None \<Rightarrow> [] | Some e \<Rightarrow> [e])"
    by (simp only: map_filter_upt_Suc M_def)
  have step: "foldl (pack_one eiter lazydel riter) p0 [0..<Suc n] = pack_one eiter lazydel riter q n"
    by (simp add: q_def)
  define p1 where "p1 = (if eiter = EntryAt n \<and> lazydel then q\<lparr>pk_eiter := Retired (es ! n)\<rparr>
     else if es ! n \<noteq> None then q\<lparr>pk_entries := (if n \<noteq> pk_used q then (pk_entries q)[pk_used q := es ! n] else pk_entries q),
        pk_eiter_offset := (if eiter = EntryAt n then Some (pk_used q) else pk_eiter_offset q),
        pk_used := pk_used q + 1\<rparr> else q)"
  have p: "pack_one eiter lazydel riter q n = (if riter \<ge> 0 \<and> int n \<le> riter then p1\<lparr>pk_riter := int (pk_used p1) - 1\<rparr> else p1)"
    unfolding pack_one_def Let_def en p1_def by (rule refl)
  have eq: "pk_entries (pack_one eiter lazydel riter q n) = pk_entries p1"
    "pk_used (pack_one eiter lazydel riter q n) = pk_used p1"
    "pk_eiter (pack_one eiter lazydel riter q n) = pk_eiter p1"
    "pk_eiter_offset (pack_one eiter lazydel riter q n) = pk_eiter_offset p1"
    unfolding p by simp_all
  show ?case
  proof (cases "live_of eiter lazydel es n")
    case None
    then have p1: "p1 = (if eiter = EntryAt n \<and> lazydel then q\<lparr>pk_eiter := Retired (es ! n)\<rparr> else q)"
      by (auto simp: p1_def live_of_def split: if_splits)
    have it: "\<And>j. lazydel \<Longrightarrow> pk_eiter p1 = EntryAt j \<Longrightarrow> eiter = EntryAt j \<and> Suc n \<le> j"
    proof -
      fix j assume a: "lazydel" "pk_eiter p1 = EntryAt j"
      then have "eiter \<noteq> EntryAt n" "pk_eiter q = EntryAt j" by (auto simp: p1 split: if_splits)
      with IH(7) [OF a(1)] show "eiter = EntryAt j \<and> Suc n \<le> j" by (auto simp: le_less Suc_le_eq)
    qed
    have q1: "pk_entries p1 = pk_entries q" "pk_used p1 = pk_used q" "pk_eiter_offset p1 = pk_eiter_offset q"
      by (simp_all add: p1)
    have "length M \<le> Suc n" using IH(3) by simp
    moreover have "M @ (case live_of eiter lazydel es n of None \<Rightarrow> [] | Some e \<Rightarrow> [e]) = M" using None by simp
    ultimately show ?thesis unfolding step L eq q1 using IH(1,2,5,6,8) dn it by metis
  next
    case (Some e)
    then have nz: "es ! n = Some e" "\<not> (eiter = EntryAt n \<and> lazydel)" by (auto simp: live_of_def split: if_splits)
    define es' where "es' = (if n \<noteq> pk_used q then (pk_entries q)[pk_used q := es ! n] else pk_entries q)"
    have p1: "p1 = q\<lparr>pk_entries := es', pk_eiter_offset := (if eiter = EntryAt n then Some (pk_used q) else pk_eiter_offset q),
        pk_used := pk_used q + 1\<rparr>"
      using nz by (auto simp: p1_def es'_def)
    have es': "es' = (pk_entries q)[pk_used q := Some e]"
      using nz(1) en list_update_id [of "pk_entries q" n] by (auto simp: es'_def)
    have u: "pk_used q < length (pk_entries q)" using IH nl by simp
    have "take (Suc (pk_used q)) es' = map Some (M @ [e])"
      using u IH(1) by (simp add: es' take_Suc_conv_app_nth)
    moreover have "drop (Suc n) es' = drop (Suc n) es" using IH(2,3) dn by (simp add: es')
    moreover have "lazydel \<Longrightarrow> pk_eiter q = EntryAt j \<Longrightarrow> eiter = EntryAt j \<and> Suc n \<le> j" for j
      using IH(7) [of j] nz(2) by (auto simp: le_less Suc_le_eq)
    moreover have "pk_entries p1 = es'" "pk_used p1 = Suc (pk_used q)" "pk_eiter p1 = pk_eiter q"
      "pk_eiter_offset p1 = (if eiter = EntryAt n then Some (pk_used q) else pk_eiter_offset q)"
      by (simp_all add: p1)
    moreover have "length es' = length es" using IH(5) by (simp add: es')
    moreover have "M @ (case live_of eiter lazydel es n of None \<Rightarrow> [] | Some e \<Rightarrow> [e]) = M @ [e]" using Some by simp
    moreover have "lazydel \<Longrightarrow> eiter \<noteq> EntryAt n" using nz(2) by simp
    ultimately show ?thesis unfolding step L eq using IH(2,3,6,8)
      by (simp add: less_Suc_eq)
  qed
qed

text \<open>A hash whose entries can be trusted, whatever its index holds.\<close>

definition hv_src :: "'v hv \<Rightarrow> bool" where
  "hv_src hv \<longleftrightarrow> (case hv_array hv of
     NoArray \<Rightarrow> hv_keys hv = 0 \<and> (hv_max_raw hv \<le> 30 \<or> hv_max_raw hv = 64) \<and> lazy_in hv 0
   | Linear es \<Rightarrow> linear_shape hv es
   | Indexed oa \<Rightarrow> oa_shape hv oa) \<and> length (hv_list hv) = hv_keys hv"

lemma length_map_filter: "length (List.map_filter f xs) \<le> length xs"
  by (simp add: List.map_filter_def)

lemma hv_list_limit: "length (hv_list hv) \<le> HvENTRY_LIMIT hv"
  using length_map_filter [of "HvENTRY_FIRST hv" "[0..<HvENTRY_LIMIT hv]"] by (simp add: hv_list_def)

definition hv_capacity :: "'v hv \<Rightarrow> nat" where
  "hv_capacity hv = (if HvIS_LINEAR hv then HvLINEAR_CAP hv
     else case hv_array hv of Indexed oa \<Rightarrow> oa_capacity oa | _ \<Rightarrow> 0)"

lemma hv_src_facts:
  assumes "hv_src hv"
  shows "HvENTRY_LIMIT hv \<le> length (HvENTRIES hv) \<and> lazy_in hv (HvENTRY_LIMIT hv) \<and>
    hv_capacity hv = length (HvENTRIES hv) \<and> hv_keys hv \<le> HvENTRY_LIMIT hv \<and>
    (\<forall>i<length (HvENTRIES hv). HvENTRY_LIMIT hv \<le> i \<longrightarrow> HvENTRIES hv ! i = None) \<and>
    (\<forall>i<HvENTRY_LIMIT hv. HvENTRY_FIRST hv i = live_of (HvEITER_get hv) (hv_lazydel hv) (HvENTRIES hv) i)"
proof (cases "hv_array hv")
  case NoArray
  then have a: "hv_keys hv = 0" "hv_max_raw hv \<le> 30 \<or> hv_max_raw hv = 64 + 0" "lazy_in hv 0"
    using assms by (auto simp: hv_src_def)
  then have "HvENTRY_LIMIT hv = 0" using NoArray by (simp add: HvENTRY_LIMIT_def)
  moreover have "hv_capacity hv = 0"
    using a(2) NoArray HvMAX_linear [of hv 0] HvMAX_indexed(1) [of hv "hv_max_raw hv"] by (auto simp: hv_capacity_def)
  ultimately show ?thesis using NoArray a by (simp add: HvENTRIES_def)
next
  case (Linear es)
  then have s: "linear_shape hv es" using assms by (simp add: hv_src_def)
  note l = Linear_facts [OF Linear s]
  have z: "lazy_in hv 0" using s by (simp add: linear_shape_def)
  have "hv_keys hv \<le> length es" "\<forall>i<length es. hv_keys hv \<le> i \<longrightarrow> es ! i = None"
    using s unfolding linear_shape_def by (blast, meson leD)
  moreover have "lazy_in hv n" for n using z by (simp add: lazy_in_def)
  moreover have "live_of (HvEITER_get hv) (hv_lazydel hv) es i = es ! i" for i
    using z by (auto simp: live_of_def lazy_in_def)
  ultimately show ?thesis using l by (simp add: hv_capacity_def)
next
  case (Indexed oa)
  then have s: "oa_shape hv oa" using assms by (simp add: hv_src_def)
  note f = Indexed_facts [OF Indexed s]
  have "hv_keys hv \<le> oa_used oa" using hv_list_limit [of hv] assms f(3) by (simp add: hv_src_def)
  moreover have "HvENTRY_FIRST hv i = live_of (HvEITER_get hv) (hv_lazydel hv) (oa_entries oa) i" for i
    using f by (auto simp: HvENTRY_FIRST_def live_of_def)
  moreover have "hv_capacity hv = oa_capacity oa" using f(1) Indexed by (simp add: hv_capacity_def)
  ultimately show ?thesis using s f by (simp add: oa_shape_def)
qed

lemma OA_ENTRY_CAPACITY_eq: "OA_ENTRY_CAPACITY c = 2 * c div 3"
  by (simp add: OA_ENTRY_CAPACITY_def) presburger

lemma size_valid:
  assumes "k \<le> 30" "ec \<le> I32_MAX"
  shows "hv_oa_size_valid (2 ^ k) ec"
proof -
  have b: "(2 :: nat) ^ k \<le> 2 ^ 30" using assms(1) by (intro power_increasing) simp_all
  have w: "HvOA_INDEX_WIDTH_FOR ec \<le> 4" "0 < HvOA_INDEX_WIDTH_FOR ec"
    by (simp_all add: HvOA_INDEX_WIDTH_FOR_def)
  have e: "ec \<le> 2147483647" using assms(2) by (simp add: I32_MAX_def)
  let ?w = "HvOA_INDEX_WIDTH_FOR ec"
  have "18446744073709551595 div 4 \<le> 18446744073709551595 div ?w" using w by (intro div_le_mono2)
  then have 1: "2 ^ k \<le> 18446744073709551595 div ?w" using b by simp
  have m: "2 ^ k * ?w \<le> 2 ^ 30 * 4" using b w(1) by (intro mult_le_mono)
  then have "(18446744073709551595 - 2 ^ 30 * 4) div 4 \<le> (18446744073709551595 - 2 ^ k * ?w) div ?w"
    using w by (intro order_trans [OF div_le_mono2 [of ?w 4]] div_le_mono) auto
  then have 2: "ec \<le> (18446744073709551595 - 2 ^ k * ?w) div ?w" using e by simp
  have "ec \<noteq> 0 \<Longrightarrow> 16 \<le> 18446744073709551615 div ec"
    using e by (simp add: less_eq_div_iff_mult_less_eq)
  then show ?thesis using 1 2 b e is_pow2_pow [of k]
    by (auto simp: hv_oa_size_valid_def Let_def MEM_SIZE_MAX_def hv_oa_header_def HV_MAX_BUCKETS_def I32_MAX_def
        sizeof_HE_def U32_MAX_def HvOA_RECORD_WIDTH_FOR_def)
qed

text \<open>The packing step of \<open>S_oa_rebuild\<close>, as a function of its state.\<close>

definition rebuild_compact :: "'v hv \<Rightarrow> nat \<Rightarrow> bool \<Rightarrow> bool" where
  "rebuild_compact hv ec pack \<longleftrightarrow> HvENTRY_LIMIT hv - hv_keys hv \<noteq> 0 \<and> (pack \<or> ec < HvENTRY_LIMIT hv)"

definition rebuild_packed :: "'v hv \<Rightarrow> nat \<Rightarrow> bool \<Rightarrow> 'v pack" where
  "rebuild_packed hv ec pack =
     (let p0 = \<lparr>pk_entries = HvENTRIES hv, pk_used = 0, pk_eiter_offset = None,
            pk_eiter = HvEITER_get hv, pk_riter = - 1\<rparr>
      in if rebuild_compact hv ec pack
         then foldl (pack_one (HvEITER_get hv) (hv_lazydel hv) (HvRITER_get hv)) p0 [0..<HvENTRY_LIMIT hv]
         else p0\<lparr>pk_used := HvENTRY_LIMIT hv, pk_riter := HvRITER_get hv,
                pk_eiter_offset := (case HvEITER_get hv of EntryAt j \<Rightarrow> if j < HvENTRY_LIMIT hv then Some j else None
                                    | _ \<Rightarrow> None)\<rparr>)"

definition packed_eiter :: "'v pack \<Rightarrow> 'v eiter" where
  "packed_eiter p = (case pk_eiter_offset p of Some j \<Rightarrow> EntryAt j | None \<Rightarrow> pk_eiter p)"

lemma rebuild_packed_compact:
  assumes src: "hv_src hv" and c: "rebuild_compact hv ec pack"
  defines "p \<equiv> rebuild_packed hv ec pack"
  shows "pk_used p = hv_keys hv \<and> take (pk_used p) (pk_entries p) = map Some (hv_list hv) \<and>
    length (pk_entries p) = length (HvENTRIES hv) \<and> (\<forall>j. hv_lazydel hv \<longrightarrow> packed_eiter p \<noteq> EntryAt j)"
proof -
  let ?n = "HvENTRY_LIMIT hv" and ?es = "HvENTRIES hv" and ?e = "HvEITER_get hv" and ?lz = "hv_lazydel hv"
  let ?p0 = "\<lparr>pk_entries = ?es, pk_used = 0, pk_eiter_offset = None, pk_eiter = ?e, pk_riter = - 1\<rparr>"
  have p: "p = foldl (pack_one ?e ?lz (HvRITER_get hv)) ?p0 [0..<?n]"
    using c by (simp add: p_def rebuild_packed_def)
  note f = hv_src_facts [OF src]
  have L: "List.map_filter (live_of ?e ?lz ?es) [0..<?n] = hv_list hv"
    unfolding hv_list_def using f by (intro map_filter_cong) simp
  have "?n \<le> length ?es" using f by simp
  from pack_fold [OF this, of ?p0 ?e ?lz "HvRITER_get hv", OF pack.select_convs(1-4), folded p, unfolded L]
  have k: "take (pk_used p) (pk_entries p) = map Some (hv_list hv)" "pk_used p = length (hv_list hv)"
    "length (pk_entries p) = length ?es" "?lz \<Longrightarrow> pk_eiter_offset p = None"
    "\<And>j. ?lz \<Longrightarrow> pk_eiter p = EntryAt j \<Longrightarrow> ?e = EntryAt j \<and> ?n \<le> j"
    by (blast, blast, blast, blast, blast)
  have "packed_eiter p \<noteq> EntryAt j" if "?lz" for j
  proof
    assume "packed_eiter p = EntryAt j"
    then have "?e = EntryAt j" "?n \<le> j" using k(4,5) [OF that] by (auto simp: packed_eiter_def)
    then show False using f that by (auto simp: lazy_in_def)
  qed
  then show ?thesis using k src by (simp add: hv_src_def)
qed

text \<open>Whether it packs or not, the same entries are live afterwards.\<close>

lemma rebuild_packed_ok:
  fixes hv :: "'v hv" and pack :: bool
  assumes src: "hv_src hv" and ec: "hv_keys hv \<le> ec"
  defines "p \<equiv> rebuild_packed hv ec pack"
  shows "pk_used p = (if pack \<or> ec < HvENTRY_LIMIT hv then hv_keys hv else HvENTRY_LIMIT hv) \<and> pk_used p \<le> ec \<and>
    pk_used p \<le> length (pk_entries p) \<and> length (pk_entries p) = length (HvENTRIES hv) \<and>
    List.map_filter (live_of (packed_eiter p) (hv_lazydel hv) (pk_entries p)) [0..<pk_used p] = hv_list hv \<and>
    (\<forall>j. hv_lazydel hv \<longrightarrow> packed_eiter p = EntryAt j \<longrightarrow> j < pk_used p) \<and>
    (\<not> rebuild_compact hv ec pack \<longrightarrow> pk_entries p = HvENTRIES hv \<and> pk_used p = HvENTRY_LIMIT hv \<and> packed_eiter p = HvEITER_get hv)"
proof -
  note f = hv_src_facts [OF src]
  show ?thesis
  proof (cases "rebuild_compact hv ec pack")
    case True
    note r = rebuild_packed_compact [OF src True, folded p_def]
    have l: "length (hv_list hv) = hv_keys hv" using src by (simp add: hv_src_def)
    have e: "pk_entries p ! i = Some (hv_list hv ! i)" if "i < hv_keys hv" for i
      using arg_cong [of _ _ "\<lambda>xs. xs ! i", OF r [THEN conjunct2, THEN conjunct1]] that r l by simp
    have "List.map_filter (live_of (packed_eiter p) (hv_lazydel hv) (pk_entries p)) [0..<hv_keys hv] =
        List.map_filter (\<lambda>i. Some (hv_list hv ! i)) [0..<hv_keys hv]"
      using e r by (intro map_filter_cong) (auto simp: live_of_def)
    also have "\<dots> = hv_list hv" using l by (simp add: List.map_filter_def comp_def map_nth flip: l)
    finally show ?thesis using r True f ec by (auto simp: rebuild_compact_def)
  next
    case False
    then have p: "pk_entries p = HvENTRIES hv" "pk_used p = HvENTRY_LIMIT hv" "packed_eiter p = HvEITER_get hv"
      by (auto simp: p_def rebuild_packed_def packed_eiter_def Let_def split: eiter.splits)
    have "List.map_filter (live_of (HvEITER_get hv) (hv_lazydel hv) (HvENTRIES hv)) [0..<HvENTRY_LIMIT hv] = hv_list hv"
      unfolding hv_list_def using f by (intro map_filter_cong) simp
    then show ?thesis using p False f ec by (auto simp: rebuild_compact_def lazy_in_def)
  qed
qed

text \<open>The hash that the reindexing loop starts from.\<close>

definition rebuild_start :: "'v hv \<Rightarrow> nat \<Rightarrow> nat \<Rightarrow> bool \<Rightarrow> 'v hv" where
  "rebuild_start hv capacity ec pack =
     (let p = rebuild_packed hv ec pack; compact = rebuild_compact hv ec pack in
      HvMAX_SET (hv\<lparr>hv_array := Indexed \<lparr>oa_entries = (if compact \<or> ec \<noteq> hv_capacity hv
            then zero_rest (pk_entries p) (pk_used p) ec else pk_entries p),
          oa_capacity = ec, oa_used = pk_used p, oa_indices = replicate (HvOA_STORAGE_BYTES capacity ec) 0\<rparr>,
        hv_aux := (case hv_aux hv of None \<Rightarrow> None | Some a \<Rightarrow> Some (a\<lparr>xhv_riter := pk_riter p,
            xhv_eiter := packed_eiter p, iter_active := (iter_active a \<or> compact \<and> HvRITER_get hv \<ge> 0)\<rparr>))\<rparr>)
        (capacity - 1))"

lemma oa_rebuild_split:
  assumes "capacity \<le> HV_MAX_BUCKETS" "hv_keys hv \<le> HV_MAX_KEYS" "hv_oa_size_valid capacity ec" "hv_keys hv \<le> capacity"
  shows "oa_rebuild hv capacity ec pack =
    Inr (foldl reindex_one (rebuild_start hv capacity ec pack) [0..<pk_used (rebuild_packed hv ec pack)])"
proof -
  have used: "(if HvIS_LINEAR hv then hv_keys hv else case hv_array hv of Indexed oa \<Rightarrow> oa_used oa | _ \<Rightarrow> 0) = HvENTRY_LIMIT hv"
    by (simp add: HvENTRY_LIMIT_def)
  show ?thesis
    unfolding oa_rebuild_def Let_def used hv_capacity_def [symmetric] rebuild_compact_def [symmetric]
      rebuild_packed_def [unfolded Let_def, symmetric] rebuild_start_def packed_eiter_def
    using assms by (simp add: not_less)
qed

text \<open>Replacing the index changes nothing else.\<close>

lemma with_index_same:
  assumes "hv_array hv = Indexed oa"
  shows "HvIS_LINEAR (with_index hv oa ix) = HvIS_LINEAR hv" "HvENTRY_LIMIT (with_index hv oa ix) = HvENTRY_LIMIT hv"
    "hv_list (with_index hv oa ix) = hv_list hv" "he_home (with_index hv oa ix) = he_home hv"
    "HvEITER_get (with_index hv oa ix) = HvEITER_get hv" "lazy_in (with_index hv oa ix) = lazy_in hv"
    "oa_shape (with_index hv oa ix) (oa\<lparr>oa_indices := ix\<rparr>) = oa_shape hv oa"
proof -
  show l: "HvIS_LINEAR (with_index hv oa ix) = HvIS_LINEAR hv" by (simp add: HvIS_LINEAR_def)
  show m: "HvENTRY_LIMIT (with_index hv oa ix) = HvENTRY_LIMIT hv" using l assms by (simp add: HvENTRY_LIMIT_def)
  note e = with_index_first [OF assms, of ix]
  show "hv_list (with_index hv oa ix) = hv_list hv" by (simp add: hv_list_def m e)
  show "he_home (with_index hv oa ix) = he_home hv" by (simp add: he_home_def fun_eq_iff m e with_index_get)
  show i: "HvEITER_get (with_index hv oa ix) = HvEITER_get hv" by (simp add: HvEITER_get_def)
  show z: "lazy_in (with_index hv oa ix) = lazy_in hv" by (simp add: lazy_in_def i fun_eq_iff)
  show "oa_shape (with_index hv oa ix) (oa\<lparr>oa_indices := ix\<rparr>) = oa_shape hv oa"
    by (simp add: oa_shape_def z with_index_get)
qed

lemma oa_indexed_with:
  assumes "hv_array hv = Indexed oa" "index_ok ix (oa_capacity oa) (HvMAX hv + 1)"
    "chains_ok (hv_oa_index_get ix (oa_capacity oa) (HvMAX hv + 1)) (HvMAX hv + 1) (oa_capacity oa) (he_home hv)"
  shows "oa_indexed (with_index hv oa ix) (oa\<lparr>oa_indices := ix\<rparr>)"
  using assms by (simp add: oa_indexed_def with_index_same with_index_get)

text \<open>The fields that storage management never touches, and the live entries.\<close>

definition hv_same :: "'v hv \<Rightarrow> 'v hv \<Rightarrow> bool" where
  "hv_same hv hv' \<longleftrightarrow> hv_list hv' = hv_list hv \<and> hv_keys hv' = hv_keys hv \<and> hv_lazydel hv' = hv_lazydel hv \<and>
     hv_readonly hv' = hv_readonly hv \<and> hv_sharekeys hv' = hv_sharekeys hv \<and> hv_haskflags hv' = hv_haskflags hv \<and>
     hv_placeholders hv' = hv_placeholders hv"

lemma hv_same_refl [simp]: "hv_same hv hv" by (simp add: hv_same_def)

lemma hv_same_trans: "hv_same a b \<Longrightarrow> hv_same b c \<Longrightarrow> hv_same a c" by (simp add: hv_same_def)

lemma with_index_hv_same: "hv_array hv = Indexed oa \<Longrightarrow> hv_same hv (with_index hv oa ix)"
  unfolding hv_same_def using with_index_same(3) [of hv oa ix] by (simp add: with_index_def)

lemma zero_rest_nth: "used \<le> length es \<Longrightarrow> used \<le> n \<Longrightarrow> i < n \<Longrightarrow>
    length (zero_rest es used n) = n \<and> zero_rest es used n ! i = (if i < used then es ! i else None)"
  by (auto simp: zero_rest_def nth_append min_def)

lemma hv_list_from:
  assumes "hv_array hv = Indexed oa" "\<not> HvIS_LINEAR hv"
    and "\<And>i. i < oa_used oa \<Longrightarrow> oa_entries oa ! i = es ! i"
    and "hv_lazydel hv \<Longrightarrow> \<forall>i. HvEITER_get hv = EntryAt i \<longleftrightarrow> e = EntryAt i"
  shows "hv_list hv = List.map_filter (live_of e (hv_lazydel hv) es) [0..<oa_used oa]"
proof -
  have "HvENTRY_FIRST hv i = live_of e (hv_lazydel hv) es i" if "i < oa_used oa" for i
    using assms that by (auto simp: HvENTRY_FIRST_def live_of_def HvENTRIES_def)
  moreover have "HvENTRY_LIMIT hv = oa_used oa" using assms by (simp add: HvENTRY_LIMIT_def)
  ultimately show ?thesis unfolding hv_list_def by (auto intro: map_filter_cong)
qed

text \<open>The start of the reindexing loop: the packed entries under an empty index.\<close>

lemma rebuild_start_ok:
  fixes hv :: "'v hv" and pack :: bool
  assumes src: "hv_src hv" and k: "k \<le> 30" and cap: "hv_keys hv \<le> OA_ENTRY_CAPACITY (2 ^ k)"
    and ec: "hv_keys hv \<le> ec" "8 \<le> ec" "ec \<le> I32_MAX"
  defines "hv1 \<equiv> rebuild_start hv (2 ^ k) ec pack"
  shows "\<exists>oa. hv_array hv1 = Indexed oa \<and> oa_shape hv1 oa \<and> hv_max_raw hv1 = k \<and> HvMAX hv1 = 2 ^ k - 1 \<and>
    oa_capacity oa = ec \<and> oa_used oa = pk_used (rebuild_packed hv ec pack) \<and> hv_same hv hv1 \<and>
    oa_indices oa = replicate (HvOA_STORAGE_BYTES (2 ^ k) ec) 0"
proof -
  let ?p = "rebuild_packed hv ec pack"
  note f = hv_src_facts [OF src] and r = rebuild_packed_ok [OF src ec(1), of pack]
  define F where "F = (if rebuild_compact hv ec pack \<or> ec \<noteq> hv_capacity hv
    then zero_rest (pk_entries ?p) (pk_used ?p) ec else pk_entries ?p)"
  define oa where "oa = \<lparr>oa_entries = F, oa_capacity = ec, oa_used = pk_used ?p,
    oa_indices = replicate (HvOA_STORAGE_BYTES (2 ^ k) ec) (0 :: u8)\<rparr>"
  have a: "hv_array hv1 = Indexed oa"
    by (simp add: hv1_def rebuild_start_def Let_def HvMAX_SET_def oa_def F_def)
  have F: "length F = ec \<and> (i < ec \<longrightarrow> F ! i = (if i < pk_used ?p then pk_entries ?p ! i else None))" for i
  proof (cases "rebuild_compact hv ec pack \<or> ec \<noteq> hv_capacity hv")
    case True
    have "length (zero_rest (pk_entries ?p) (pk_used ?p) ec) = ec" using r by (simp add: zero_rest_def)
    then show ?thesis using True r zero_rest_nth [of "pk_used ?p" "pk_entries ?p" ec i] by (simp add: F_def)
  next
    case False
    then have "pk_entries ?p = HvENTRIES hv" "pk_used ?p = HvENTRY_LIMIT hv" "F = pk_entries ?p" "ec = length (HvENTRIES hv)"
      using r f by (blast, blast, auto simp: F_def)
    then show ?thesis using f by (simp del: length_map_filter)
  qed
  have raw: "hv_max_raw hv1 = k" unfolding hv1_def rebuild_start_def Let_def by (rule HvMAX_SET_raw)
  note m = HvMAX_indexed [OF raw] 
  have m1: "HvMAX hv1 = 2 ^ k - 1" "\<not> HvIS_LINEAR hv1" using m k by simp_all
  have lz: "hv_lazydel hv1 = hv_lazydel hv" "hv_keys hv1 = hv_keys hv"
    by (simp_all add: hv1_def rebuild_start_def Let_def HvMAX_SET_def)
  have ei: "HvEITER_get hv1 = (if hv_aux hv = None then NoEntry else packed_eiter ?p)"
    by (auto simp: hv1_def rebuild_start_def Let_def HvMAX_SET_def HvEITER_get_def split: option.splits)
  have no: "packed_eiter ?p \<noteq> EntryAt i" if "hv_aux hv = None" "hv_lazydel hv" for i
  proof (cases "rebuild_compact hv ec pack")
    case True
    then show ?thesis using rebuild_packed_compact [OF src True] that by simp
  next
    case False
    then show ?thesis using r that by (simp add: HvEITER_get_def)
  qed
  have "hv_list hv1 = List.map_filter (live_of (packed_eiter ?p) (hv_lazydel hv1) (pk_entries ?p)) [0..<oa_used oa]"
  proof (rule hv_list_from [OF a m1(2)])
    show "oa_entries oa ! i = pk_entries ?p ! i" if "i < oa_used oa" for i
      using that F [of i] r by (simp add: oa_def)
    show "\<forall>i. HvEITER_get hv1 = EntryAt i \<longleftrightarrow> packed_eiter ?p = EntryAt i" if "hv_lazydel hv1"
      using no that lz by (auto simp: ei)
  qed
  moreover have "oa_used oa = pk_used ?p" by (simp add: oa_def)
  moreover have "List.map_filter (live_of (packed_eiter ?p) (hv_lazydel hv) (pk_entries ?p)) [0..<pk_used ?p] = hv_list hv"
    using r by blast
  ultimately have "hv_list hv1 = hv_list hv" by (simp only: lz)
  then have same: "hv_same hv hv1"
    by (simp add: hv_same_def) (simp add: hv1_def rebuild_start_def Let_def HvMAX_SET_def)
  have "lazy_in hv1 (pk_used ?p)" using r by (auto simp: lazy_in_def ei lz split: if_splits)
  moreover have "\<forall>i<ec. pk_used ?p \<le> i \<longrightarrow> F ! i = None" "length F = ec" using F by auto
  ultimately have "oa_shape hv1 oa"
    using raw k m1(1) cap ec r by (simp add: oa_shape_def oa_def lz)
  then show ?thesis using a raw m1(1) same by (simp add: oa_def)
qed

lemma OA_ENTRY_CAPACITY_le: "OA_ENTRY_CAPACITY c \<le> c"
  unfolding OA_ENTRY_CAPACITY_eq by presburger

lemma OA_ENTRY_CAPACITY_max: "c \<le> 2 ^ 30 \<Longrightarrow> OA_ENTRY_CAPACITY c \<le> HV_MAX_KEYS"
  unfolding OA_ENTRY_CAPACITY_eq HV_MAX_KEYS_def HV_MAX_BUCKETS_def by simp

theorem oa_rebuild_ok:
  assumes src: "hv_src hv" and k: "k \<le> 30" and cap: "hv_keys hv \<le> OA_ENTRY_CAPACITY (2 ^ k)"
    and ec: "hv_keys hv \<le> ec" "8 \<le> ec" "ec \<le> I32_MAX"
  shows "\<exists>hv' oa. oa_rebuild hv (2 ^ k) ec pack = Inr hv' \<and> hv_array hv' = Indexed oa \<and> oa_shape hv' oa \<and>
    oa_indexed hv' oa \<and> HvMAX hv' = 2 ^ k - 1 \<and> oa_capacity oa = ec \<and> hv_same hv hv' \<and>
    oa_used oa = (if pack \<or> ec < HvENTRY_LIMIT hv then hv_keys hv else HvENTRY_LIMIT hv)"
proof -
  let ?p = "rebuild_packed hv ec pack" and ?b = "2 ^ k :: nat"
  define hv1 where "hv1 = rebuild_start hv ?b ec pack"
  obtain oa where s: "hv_array hv1 = Indexed oa" "oa_shape hv1 oa" "hv_max_raw hv1 = k" "HvMAX hv1 = ?b - 1"
    "oa_capacity oa = ec" "oa_used oa = pk_used ?p" "hv_same hv hv1"
    "oa_indices oa = replicate (HvOA_STORAGE_BYTES ?b ec) 0"
    using rebuild_start_ok [OF src k cap ec, of pack] unfolding hv1_def by blast
  note r = rebuild_packed_ok [OF src ec(1), of pack]
  have b: "HvMAX hv1 + 1 = ?b" using s(4) by simp
  have ok: "index_ok (oa_indices oa) (oa_capacity oa) (HvMAX hv1 + 1)"
    unfolding b using s(5,8) ec(3) by (simp add: index_ok_def I32_MAX_def)
  have lin: "\<not> HvIS_LINEAR hv1" "HvENTRY_LIMIT hv1 = oa_used oa" using Indexed_facts [OF s(1,2)] by simp_all
  have "pk_used ?p \<le> oa_capacity oa" using r s(5) by simp
  with reindex_fold [OF s(1) _ lin(1) ok, of "pk_used ?p"] s(3,8) k
  obtain ix where ix: "foldl reindex_one hv1 [0..<pk_used ?p] = with_index hv1 oa ix"
    "index_ok ix (oa_capacity oa) (HvMAX hv1 + 1)"
    "chains_ok (hv_oa_index_get ix (oa_capacity oa) (HvMAX hv1 + 1)) (HvMAX hv1 + 1) (oa_capacity oa)
      (\<lambda>i. if i < pk_used ?p then map_option (\<lambda>e. unat (hek_hash (he_hek e)) mod (HvMAX hv1 + 1)) (HvENTRY_FIRST hv1 i) else None)"
    by auto
  have "he_home hv1 = (\<lambda>i. if i < pk_used ?p then map_option (\<lambda>e. unat (hek_hash (he_hek e)) mod (HvMAX hv1 + 1)) (HvENTRY_FIRST hv1 i) else None)"
    unfolding he_home_def lin(2) s(6) by (rule refl)
  then have ind: "oa_indexed (with_index hv1 oa ix) (oa\<lparr>oa_indices := ix\<rparr>)"
    using oa_indexed_with [OF s(1) ix(2)] ix(3) by simp
  have "hv_keys hv \<le> HV_MAX_KEYS \<and> hv_keys hv \<le> ?b \<and> ?b \<le> HV_MAX_BUCKETS"
  proof -
    have "?b \<le> 2 ^ 30" using k by (intro power_increasing) simp_all
    then show ?thesis using order_trans [OF cap OA_ENTRY_CAPACITY_le] order_trans [OF cap OA_ENTRY_CAPACITY_max]
      unfolding HV_MAX_BUCKETS_def by blast
  qed
  then have "oa_rebuild hv ?b ec pack = Inr (with_index hv1 oa ix)"
    using oa_rebuild_split [of ?b hv ec pack] size_valid [OF k ec(3)] ix(1) by (simp add: hv1_def)
  moreover have "hv_same hv (with_index hv1 oa ix)"
    using hv_same_trans [OF s(7) with_index_hv_same [OF s(1)]] .
  moreover have "oa_shape (with_index hv1 oa ix) (oa\<lparr>oa_indices := ix\<rparr>)"
    using s(1,2) with_index_same(7) by blast
  ultimately show ?thesis using ind s(4,5,6) r
    by (intro exI [of _ "with_index hv1 oa ix"] exI [of _ "oa\<lparr>oa_indices := ix\<rparr>"]) (simp add: with_index_get)
qed

section \<open>Sizing the index\<close>

lemma capacity_loop_spec:
  assumes "j \<le> 30"
  shows "\<exists>k. j \<le> k \<and> k \<le> 30 \<and> capacity_loop (2 ^ j) t = 2 ^ k \<and> (t \<le> 2 ^ k \<or> k = 30) \<and>
    (\<forall>i. j \<le> i \<longrightarrow> i < k \<longrightarrow> 2 ^ i < t)"
  using assms
proof (induction "30 - j" arbitrary: j)
  case 0
  then have "j = 30" by simp
  then have "capacity_loop (2 ^ j) t = 2 ^ j" by (subst capacity_loop.simps) (simp add: HV_MAX_BUCKETS_def)
  then show ?case using \<open>j = 30\<close> by (intro exI [of _ j]) simp
next
  case (Suc m)
  then have "j < 30" and m: "m = 30 - Suc j" by simp_all
  then have lt: "(2 :: nat) ^ j < 2 ^ 30" by (intro power_strict_increasing) simp_all
  show ?case
  proof (cases "2 ^ j < t")
    case True
    then have "capacity_loop (2 ^ j) t = capacity_loop (2 ^ Suc j) t"
      using lt by (subst capacity_loop.simps) (simp add: HV_MAX_BUCKETS_def mult.commute)
    moreover obtain k where k: "Suc j \<le> k" "k \<le> 30" "capacity_loop (2 ^ Suc j) t = 2 ^ k" "t \<le> 2 ^ k \<or> k = 30"
      "\<forall>i. Suc j \<le> i \<longrightarrow> i < k \<longrightarrow> 2 ^ i < t"
      using Suc.hyps(1) [OF m] \<open>j < 30\<close> by auto
    moreover have "\<forall>i. j \<le> i \<longrightarrow> i < k \<longrightarrow> 2 ^ i < t"
      using k(5) True by (metis le_neq_implies_less Suc_leI)
    ultimately show ?thesis by (intro exI [of _ k]) auto
  next
    case False
    then have "capacity_loop (2 ^ j) t = 2 ^ j" by (subst capacity_loop.simps) simp
    then show ?thesis using False Suc.prems by (intro exI [of _ j]) auto
  qed
qed

lemma capacity_for_spec:
  assumes "live \<le> HV_MAX_KEYS" "j \<le> 30" "3 \<le> j"
  shows "\<exists>k. j \<le> k \<and> k \<le> 30 \<and> hv_oa_capacity_for live (2 ^ j) = 2 ^ k \<and> (3 * live \<le> 2 ^ k \<or> k = 30) \<and>
    (\<forall>i. j \<le> i \<longrightarrow> i < k \<longrightarrow> 2 ^ i < 3 * live)"
proof -
  have "(2 :: nat) ^ j \<le> 2 ^ 30" "(2 :: nat) ^ 3 \<le> 2 ^ j" using assms(2,3) by (intro power_increasing; simp)+
  then have "hv_oa_capacity_for live (2 ^ j) = capacity_loop (2 ^ j) (3 * live)"
    using assms(1) is_pow2_pow [of j] by (simp add: hv_oa_capacity_for_def HV_MAX_BUCKETS_def mult.commute)
  then show ?thesis using capacity_loop_spec [OF assms(2), of "3 * live"] by simp
qed

lemma capacity_for_8:
  assumes "live \<le> HV_MAX_KEYS"
  shows "\<exists>k. 3 \<le> k \<and> k \<le> 30 \<and> oa_rebuild_capacity live 8 = Inr (2 ^ k) \<and> live \<le> OA_ENTRY_CAPACITY (2 ^ k) \<and>
    (live < HV_MAX_KEYS \<longrightarrow> live < OA_ENTRY_CAPACITY (2 ^ k))"
proof -
  obtain k where k: "3 \<le> k" "k \<le> 30" "hv_oa_capacity_for live 8 = 2 ^ k" "3 * live \<le> 2 ^ k \<or> k = 30"
    using capacity_for_spec [OF assms, of 3] by auto
  have p: "(2 :: nat) ^ 3 \<le> 2 ^ k" using k(1) by (intro power_increasing) simp_all
  have "live \<le> OA_ENTRY_CAPACITY (2 ^ k) \<and> (live < HV_MAX_KEYS \<longrightarrow> live < OA_ENTRY_CAPACITY (2 ^ k))"
  proof (cases "k = 30")
    case True
    then have "OA_ENTRY_CAPACITY (2 ^ k) = HV_MAX_KEYS"
      by (simp add: OA_ENTRY_CAPACITY_def HV_MAX_KEYS_def HV_MAX_BUCKETS_def)
    then show ?thesis using assms by simp
  next
    case False
    then have "3 * live \<le> 2 ^ k" using k(4) by simp
    moreover have "l < 2 * b div 3" if "3 * l \<le> b" "8 \<le> b" for l b :: nat using that by presburger
    ultimately have "live < 2 * 2 ^ k div 3" using p by simp
    then show ?thesis by (simp add: OA_ENTRY_CAPACITY_eq)
  qed
  then show ?thesis using k by (intro exI [of _ k]) (simp add: oa_rebuild_capacity_def)
qed

lemma grow_entries_enough: "live \<le> ec \<Longrightarrow> grow_entries live ec = Some ec"
  by (subst grow_entries.simps) simp

theorem oa_index_resize_ok:
  assumes src: "hv_src hv" and k: "k \<le> 30" and cap: "hv_keys hv \<le> OA_ENTRY_CAPACITY (2 ^ k)"
  shows "\<exists>hv' oa. oa_index_resize hv (2 ^ k) = Inr hv' \<and> hv_array hv' = Indexed oa \<and> oa_shape hv' oa \<and>
    oa_indexed hv' oa \<and> HvMAX hv' = 2 ^ k - 1 \<and> hv_same hv hv' \<and>
    (case hv_array hv of Indexed oa0 \<Rightarrow> oa_capacity oa = oa_capacity oa0 \<and>
        (oa_used oa = hv_keys hv \<or> oa_used oa = oa_used oa0 \<and>
           \<not> oa_compaction_worthwhile (oa_used oa0) (hv_keys hv) (oa_capacity oa0)) | _ \<Rightarrow> True)"
proof -
  have mx: "hv_keys hv \<le> HV_MAX_KEYS"
    using cap k OA_ENTRY_CAPACITY_max [of "2 ^ k"] by (meson order_trans power_increasing one_le_numeral)
  note f = hv_src_facts [OF src]
  show ?thesis
  proof (cases "hv_array hv")
    case (Indexed oa0)
    then have s: "oa_shape hv oa0" using src by (simp add: hv_src_def)
    note i = Indexed_facts [OF Indexed s]
    have c: "hv_keys hv \<le> oa_capacity oa0" "8 \<le> oa_capacity oa0" "oa_capacity oa0 \<le> I32_MAX"
      "\<not> oa_capacity oa0 < HvENTRY_LIMIT hv"
      using s f i(3) by (auto simp: oa_shape_def)
    have "oa_index_resize hv (2 ^ k) = oa_rebuild hv (2 ^ k) (oa_capacity oa0)
        (oa_compaction_worthwhile (oa_used oa0) (hv_keys hv) (oa_capacity oa0))"
      using Indexed i(1) grow_entries_enough [OF c(1)] by (simp add: oa_index_resize_def)
    then show ?thesis
      using oa_rebuild_ok [OF src k cap c(1-3), of "oa_compaction_worthwhile (oa_used oa0) (hv_keys hv) (oa_capacity oa0)"]
        Indexed i(3) c(4) by (auto split: if_splits)
  next
    case other: NoArray
    let ?ec = "if hv_keys hv > 8 then hv_keys hv else 8"
    have "oa_index_resize hv (2 ^ k) = oa_rebuild hv (2 ^ k) ?ec False"
      using other grow_entries_enough [of "hv_keys hv" ?ec] by (simp add: oa_index_resize_def)
    then show ?thesis
      using oa_rebuild_ok [OF src k cap, of ?ec False] mx other by (auto simp: HV_MAX_KEYS_def HV_MAX_BUCKETS_def I32_MAX_def)
  next
    case other: (Linear es)
    let ?ec = "if hv_keys hv > 8 then hv_keys hv else 8"
    have "oa_index_resize hv (2 ^ k) = oa_rebuild hv (2 ^ k) ?ec False"
      using other grow_entries_enough [of "hv_keys hv" ?ec] by (simp add: oa_index_resize_def)
    then show ?thesis
      using oa_rebuild_ok [OF src k cap, of ?ec False] mx other by (auto simp: HV_MAX_KEYS_def HV_MAX_BUCKETS_def I32_MAX_def)
  qed
qed

lemma promote_capacity_spec:
  assumes "3 \<le> j" "j \<le> 30" "used + used div 2 \<le> 2 ^ 30 - 1"
  shows "\<exists>k. k \<le> 30 \<and> promote_capacity used (2 ^ j) = Inr (2 ^ k) \<and> used \<le> OA_ENTRY_CAPACITY (2 ^ k)"
  using assms(1,2)
proof (induction "30 - j" arbitrary: j)
  case 0
  then have "j = 30" by simp
  then have "promote_capacity used (2 ^ j) = Inr (2 ^ j)" using assms(3)
    by (subst promote_capacity.simps) simp
  moreover have "used \<le> OA_ENTRY_CAPACITY (2 ^ 30)" using assms(3) by (simp add: OA_ENTRY_CAPACITY_eq)
  ultimately show ?case using \<open>j = 30\<close> by (intro exI [of _ j]) simp
next
  case (Suc m)
  then have "j < 30" and m: "m = 30 - Suc j" by simp_all
  then have lt: "(2 :: nat) ^ j < 2 ^ 30" by (intro power_strict_increasing) simp_all
  show ?case
  proof (cases "used + used div 2 > 2 ^ j - 1")
    case True
    then have "promote_capacity used (2 ^ j) = promote_capacity used (2 ^ Suc j)"
      using lt by (subst promote_capacity.simps) (simp add: HV_MAX_BUCKETS_def mult.commute)
    then show ?thesis using Suc.hyps(1) [OF m] Suc.prems \<open>j < 30\<close> by auto
  next
    case False
    then have "promote_capacity used (2 ^ j) = Inr (2 ^ j)" by (subst promote_capacity.simps) simp
    moreover have "used \<le> OA_ENTRY_CAPACITY (2 ^ j)"
    proof -
      have "used + used div 2 \<le> 2 ^ j" using False by simp
      moreover have "3 * u \<le> 2 * b" if "u + u div 2 < b" for u b :: nat using that by presburger
      moreover have "used + used div 2 < 2 ^ j" using False by (simp add: not_less Suc_le_eq [symmetric])
      ultimately have "3 * used \<le> 2 * 2 ^ j" by blast
      then show ?thesis by (simp add: OA_ENTRY_CAPACITY_eq less_eq_div_iff_mult_less_eq)
    qed
    ultimately show ?thesis using Suc.prems by (intro exI [of _ j]) simp
  qed
qed

section \<open>More room for entries\<close>

lemma read_le_bound: "read_le bs < 256 ^ length bs"
proof (induction bs)
  case (Cons b bs)
  have "unat b < 256" using unsigned_less [of b] by simp
  then have "unat b + 256 * read_le bs < 256 * (read_le bs + 1)" by simp
  also have "\<dots> \<le> 256 * 256 ^ length bs" using Cons by (intro mult_le_mono2) simp
  finally show ?case by simp
qed simp

lemma index_get_bound: "hv_oa_index_get ix c b pos < 256 ^ HvOA_INDEX_WIDTH_FOR c"
proof -
  let ?bs = "take (HvOA_INDEX_WIDTH_FOR c) (drop (cell_offset c b pos) ix)"
  have "(256 :: nat) ^ length ?bs \<le> 256 ^ HvOA_INDEX_WIDTH_FOR c" by (intro power_increasing) simp_all
  then show ?thesis using read_le_bound [of ?bs] unfolding hv_oa_index_get_def by linarith
qed

lemma wider_holds:
  assumes "c < c'" "HvOA_INDEX_WIDTH_FOR c' \<noteq> HvOA_INDEX_WIDTH_FOR c"
  shows "hv_oa_index_get ix c b pos \<le> c'"
  using index_get_bound [of ix c b pos] assms by (auto simp: HvOA_INDEX_WIDTH_FOR_def split: if_splits)

lemma copy_cells:
  assumes "index_ok ix0 c b" "\<forall>x\<in>set ix0. x = 0" "n \<le> b + c" "\<forall>pos<n. src pos \<le> c"
  defines "ix \<equiv> foldl (\<lambda>ix i. hv_oa_index_set ix c b i (src i)) ix0 [0..<n]"
  shows "index_ok ix c b \<and> (\<forall>pos<b + c. hv_oa_index_get ix c b pos = (if pos < n then src pos else 0))"
  unfolding ix_def using assms(3,4)
proof (induction n)
  case 0
  then show ?case using assms(1,2) index_get_zero by simp
next
  case (Suc n)
  let ?ix = "foldl (\<lambda>ix i. hv_oa_index_set ix c b i (src i)) ix0 [0..<n]"
  have IH: "index_ok ?ix c b" "\<forall>pos<b + c. hv_oa_index_get ?ix c b pos = (if pos < n then src pos else 0)"
    using Suc by auto
  have n: "n < b + c" "src n \<le> c" using Suc.prems by auto
  have "foldl (\<lambda>ix i. hv_oa_index_set ix c b i (src i)) ix0 [0..<Suc n] = hv_oa_index_set ?ix c b n (src n)" by simp
  then show ?case using index_set_ok [OF IH(1) n(1)] IH(2) index_get_set [OF IH(1) n(1) _ n(2)]
    by (auto simp: less_Suc_eq)
qed

lemma chain_wider:
  assumes "chain get b c pos xs" "pos < b + c" "c \<le> c'" "\<forall>p<b + c. get p \<le> c \<longrightarrow> get' p = get p"
  shows "chain get' b c' pos xs"
  using assms by (induction xs arbitrary: pos) auto

lemma chains_ok_wider:
  assumes "chains_ok get b c home" "c \<le> c'" "\<forall>p<b + c. get p \<le> c \<longrightarrow> get' p = get p"
  shows "chains_ok get' b c' home"
proof -
  have "\<exists>xs. chain get' b c' h xs \<and> distinct xs \<and> set xs = {i. home i = Some h}" if h: "h < b" for h
  proof -
    obtain xs where "chain get b c h xs" "distinct xs" "set xs = {i. home i = Some h}"
      using assms(1) h by (auto simp: chains_ok_def)
    then show ?thesis using chain_wider [of get b c h xs c' get'] assms(2,3) h by auto
  qed
  moreover have "\<forall>i h. home i = Some h \<longrightarrow> i < c' \<and> h < b"
    using assms(1,2) by (auto simp: chains_ok_def intro: less_le_trans)
  ultimately show ?thesis by (simp add: chains_ok_def)
qed

text \<open>The index that \<open>S_oa_reserve_entries\<close> makes has the same chains, with room for more links.\<close>

definition wider_index :: "'v oa \<Rightarrow> nat \<Rightarrow> nat \<Rightarrow> u8 list" where
  "wider_index oa buckets capacity =
     (if HvOA_RECORD_WIDTH_FOR capacity = HvOA_RECORD_WIDTH_FOR (oa_capacity oa) then
        oa_indices oa @ replicate (HvOA_STORAGE_BYTES buckets capacity - HvOA_STORAGE_BYTES buckets (oa_capacity oa)) 0
      else foldl (\<lambda>ix i. hv_oa_index_set ix capacity buckets i (hv_oa_index_get (oa_indices oa) (oa_capacity oa) buckets i))
             (replicate (HvOA_STORAGE_BYTES buckets capacity) 0) [0..<buckets + oa_capacity oa])"

lemma wider_index_ok:
  assumes "index_ok (oa_indices oa) (oa_capacity oa) b" "oa_capacity oa < c'" "c' < 2 ^ 32"
  shows "index_ok (wider_index oa b c') c' b \<and>
    (\<forall>p<b + oa_capacity oa. hv_oa_index_get (wider_index oa b c') c' b p =
        hv_oa_index_get (oa_indices oa) (oa_capacity oa) b p)"
proof (cases "HvOA_INDEX_WIDTH_FOR c' = HvOA_INDEX_WIDTH_FOR (oa_capacity oa)")
  case True
  have "(b + oa_capacity oa) * HvOA_INDEX_WIDTH_FOR c' \<le> (b + c') * HvOA_INDEX_WIDTH_FOR c'"
    using assms(2) by (intro mult_le_mono1) simp
  then have "index_ok (wider_index oa b c') c' b"
    using True assms by (simp add: index_ok_def wider_index_def HvOA_RECORD_WIDTH_FOR_def HvOA_STORAGE_BYTES_def)
  then show ?thesis using True index_get_prefix [OF assms(1) _ True]
    by (simp add: wider_index_def HvOA_RECORD_WIDTH_FOR_def)
next
  case False
  let ?z = "replicate (HvOA_STORAGE_BYTES b c') (0 :: u8)"
  have "index_ok ?z c' b" using assms(3) by (simp add: index_ok_def)
  moreover have "\<forall>pos<b + oa_capacity oa. hv_oa_index_get (oa_indices oa) (oa_capacity oa) b pos \<le> c'"
    using wider_holds [OF assms(2) False] by blast
  ultimately show ?thesis
    using copy_cells [of ?z c' b "b + oa_capacity oa" "hv_oa_index_get (oa_indices oa) (oa_capacity oa) b"] assms(2) False
    by (simp add: wider_index_def HvOA_RECORD_WIDTH_FOR_def)
qed

text \<open>A hash with an index that is in order.\<close>

definition oa_good :: "'v hv \<Rightarrow> 'v oa \<Rightarrow> bool" where
  "oa_good hv oa \<longleftrightarrow> hv_array hv = Indexed oa \<and> oa_shape hv oa \<and> oa_indexed hv oa \<and> length (hv_list hv) = hv_keys hv"

lemma oa_good_src: "oa_good hv oa \<Longrightarrow> hv_src hv"
  by (simp add: oa_good_def hv_src_def)

theorem oa_reserve_entries_ok:
  assumes g: "oa_good hv oa" and c: "oa_capacity oa < c'" "c' \<le> I32_MAX"
  shows "\<exists>hv' oa'. oa_reserve_entries hv c' = Inr hv' \<and> oa_good hv' oa' \<and> oa_capacity oa' = c' \<and>
    oa_used oa' = oa_used oa \<and> HvMAX hv' = HvMAX hv \<and> hv_same hv hv'"
proof -
  have a: "hv_array hv = Indexed oa" and s: "oa_shape hv oa" and x: "oa_indexed hv oa"
    using g by (simp_all add: oa_good_def)
  note f = Indexed_facts [OF a s]
  let ?b = "HvMAX hv + 1"
  define es where "es = zero_rest (oa_entries oa) (oa_capacity oa) c'"
  define oa' where "oa' = oa\<lparr>oa_entries := es, oa_capacity := c', oa_indices := wider_index oa ?b c'\<rparr>"
  define hv' where "hv' = hv\<lparr>hv_array := Indexed oa'\<rparr>"
  have b: "?b = 2 ^ hv_max_raw hv" using f(2) by simp
  have "oa_reserve_entries hv c' = Inr hv'"
    using a c size_valid [of "hv_max_raw hv" c'] s b
    by (simp add: oa_reserve_entries_def hv'_def oa'_def es_def wider_index_def Let_def oa_shape_def)
  have es: "length es = c' \<and> (i < c' \<longrightarrow> es ! i = (if i < oa_capacity oa then oa_entries oa ! i else None))" for i
    using zero_rest_nth [of "oa_capacity oa" "oa_entries oa" c' i] s c(1)
    by (auto simp: es_def oa_shape_def zero_rest_def)
  have u: "oa_used oa' = oa_used oa" "oa_capacity oa' = c'" "oa_entries oa' = es" by (simp_all add: oa'_def)
  have h: "hv_array hv' = Indexed oa'" "HvMAX hv' = HvMAX hv" "\<not> HvIS_LINEAR hv'" "HvEITER_get hv' = HvEITER_get hv"
    "hv_lazydel hv' = hv_lazydel hv" "hv_keys hv' = hv_keys hv" "hv_max_raw hv' = hv_max_raw hv"
    using f(1) by (simp_all add: hv'_def HvEITER_get_def)
  have "oa_used oa \<le> oa_capacity oa" using s by (simp add: oa_shape_def)
  then have first: "HvENTRY_FIRST hv' i = HvENTRY_FIRST hv i" if "i < oa_used oa" for i
    using that es [of i] c(1) h f(1) a by (simp add: HvENTRY_FIRST_def HvENTRIES_def u)
  have lim: "HvENTRY_LIMIT hv' = HvENTRY_LIMIT hv" using h f(1,3) u by (simp add: HvENTRY_LIMIT_def)
  have "hv_list hv' = hv_list hv"
    unfolding hv_list_def lim using first f(3) by (intro map_filter_cong) simp
  then have same: "hv_same hv hv'" by (simp add: hv_same_def hv'_def)
  have home: "he_home hv' = he_home hv" using first f(3) by (auto simp: he_home_def lim h fun_eq_iff)
  have "lazy_in hv' = lazy_in hv" by (simp add: lazy_in_def h fun_eq_iff)
  moreover have "\<forall>i<c'. oa_used oa \<le> i \<longrightarrow> es ! i = None" "length es = c'" using es s by (auto simp: oa_shape_def)
  ultimately have sh: "oa_shape hv' oa'" using s c u h by (auto simp: oa_shape_def)
  have ix: "index_ok (oa_indices oa) (oa_capacity oa) ?b"
    "chains_ok (HvOA_INDEX_GET hv) ?b (oa_capacity oa) (he_home hv)" using x by (simp_all add: oa_indexed_def)
  have w: "index_ok (wider_index oa ?b c') c' ?b"
    "\<forall>p<?b + oa_capacity oa. hv_oa_index_get (wider_index oa ?b c') c' ?b p = HvOA_INDEX_GET hv p"
    using wider_index_ok [OF ix(1) c(1)] c(2) by (simp_all add: I32_MAX_def index_get_fun [OF a])
  have "HvOA_INDEX_GET hv' = hv_oa_index_get (wider_index oa ?b c') c' ?b"
    by (simp add: index_get_fun [OF h(1)] oa'_def h)
  then have "oa_indexed hv' oa'"
    using w chains_ok_wider [OF ix(2), of c' "HvOA_INDEX_GET hv'"] c(1)
    by (simp add: oa_indexed_def u h home) (simp add: oa'_def)
  then have "oa_good hv' oa'" using h(1) sh same g by (simp add: oa_good_def hv_same_def)
  then show ?thesis using \<open>oa_reserve_entries hv c' = Inr hv'\<close> u h(2) same by blast
qed

lemma hv_same_good: "hv_same hv hv' \<Longrightarrow> length (hv_list hv) = hv_keys hv \<Longrightarrow> length (hv_list hv') = hv_keys hv'"
  by (simp add: hv_same_def)

lemma oa_good_bounds:
  assumes "oa_good hv oa"
  shows "hv_keys hv \<le> oa_used oa \<and> oa_used oa \<le> oa_capacity oa \<and> 8 \<le> oa_capacity oa \<and> oa_capacity oa \<le> I32_MAX \<and>
    HvENTRY_LIMIT hv = oa_used oa \<and> HvOA hv = oa \<and> hv_keys hv \<le> OA_ENTRY_CAPACITY (HvMAX hv + 1) \<and>
    (\<exists>k\<le>30. HvMAX hv + 1 = 2 ^ k)"
proof -
  have a: "hv_array hv = Indexed oa" and s: "oa_shape hv oa" using assms by (simp_all add: oa_good_def)
  note f = Indexed_facts [OF a s]
  have "hv_max_raw hv \<le> 30" using s by (simp add: oa_shape_def)
  moreover have "HvMAX hv + 1 = 2 ^ hv_max_raw hv" using f(2) by simp
  ultimately have "\<exists>k\<le>30. HvMAX hv + 1 = 2 ^ k" by blast
  then show ?thesis using s f hv_src_facts [OF oa_good_src [OF assms]] by (auto simp: oa_shape_def)
qed

lemma pow_half: "(2 :: nat) ^ a \<le> 2 ^ b div 2 \<Longrightarrow> a \<le> b"
  by (metis div_le_dividend le_trans one_less_numeral_iff power_le_imp_le_exp semiring_norm(76))

lemma worthwhile_holes: "oa_compaction_worthwhile used live cap \<Longrightarrow> 0 < cap \<Longrightarrow> live < used"
  by (cases "live < used") (auto simp: oa_compaction_worthwhile_def Let_def split: if_splits)

lemma not_worthwhile_bound:
  assumes "\<not> oa_compaction_worthwhile cap live cap" "live < HV_MAX_KEYS"
  shows "cap + cap div 4 \<le> I32_MAX"
proof -
  have "cap - live < cap div 5 + 1" using assms(1)
    by (cases "cap mod 5 = 0") (simp_all add: oa_compaction_worthwhile_def Let_def)
  moreover have "live < 715827882" using assms(2) by (simp add: HV_MAX_KEYS_def HV_MAX_BUCKETS_def)
  ultimately show ?thesis unfolding I32_MAX_def by simp
qed

text \<open>The three steps of \<open>S_oa_new_entry\<close>.\<close>

lemma oa_new_entry_pack_ok:
  assumes g: "oa_good hv oa" and keys: "hv_keys hv < HV_MAX_KEYS"
  shows "\<exists>hv' oa'. oa_new_entry_pack hv oa = Inr hv' \<and> oa_good hv' oa' \<and> hv_same hv hv' \<and>
    (oa_used oa' = oa_capacity oa' \<longrightarrow> \<not> oa_compaction_worthwhile (oa_used oa') (hv_keys hv) (oa_capacity oa'))"
proof -
  let ?live = "hv_keys hv" and ?shrink = "max 8 (hv_keys hv + hv_keys hv div 4 + 1)"
  note b = oa_good_bounds [OF g]
  define cond where "cond \<longleftrightarrow> (oa_used oa = oa_capacity oa \<or> ?shrink \<le> oa_capacity oa div 2) \<and>
    oa_compaction_worthwhile (oa_used oa) ?live (oa_capacity oa)"
  show ?thesis
  proof (cases cond)
    case True
    have wh: "oa_compaction_worthwhile (oa_used oa) ?live (oa_capacity oa)" using True by (simp add: cond_def)
    have "0 < oa_capacity oa" using b by linarith
    with wh have lu: "?live < oa_used oa" by (rule worthwhile_holes)
    obtain k where k: "3 \<le> k" "k \<le> 30" "oa_rebuild_capacity (?live + 1) 8 = Inr (2 ^ k)" "?live + 1 \<le> OA_ENTRY_CAPACITY (2 ^ k)"
      using capacity_for_8 [of "?live + 1"] keys by auto
    obtain kb where kb: "kb \<le> 30" "HvMAX hv + 1 = 2 ^ kb" using b by blast
    define k' where "k' = (if (2 :: nat) ^ k \<le> 2 ^ kb div 2 then k else kb)"
    define ec where "ec = (if ?shrink \<le> oa_capacity oa div 2 then ?shrink else oa_capacity oa)"
    have "?live \<le> OA_ENTRY_CAPACITY (2 ^ k')" "k' \<le> 30" using k b kb by (auto simp: k'_def)
    moreover have "?live < ec" "8 \<le> ec" "ec \<le> I32_MAX" using b lu by (auto simp: ec_def)
    ultimately obtain hv' oa' where r: "oa_rebuild hv (2 ^ k') ec True = Inr hv'" "hv_array hv' = Indexed oa'"
      "oa_shape hv' oa'" "oa_indexed hv' oa'" "oa_capacity oa' = ec" "hv_same hv hv'" "oa_used oa' = ?live"
      using oa_rebuild_ok [OF oa_good_src [OF g], of k' ec True] by auto
    have "oa_new_entry_pack hv oa = oa_rebuild hv (if 2 ^ k \<le> (HvMAX hv + 1) div 2 then 2 ^ k else HvMAX hv + 1) ec True"
      using True k(3) unfolding oa_new_entry_pack_def Let_def cond_def [symmetric] by (simp add: attempt_def ec_def)
    also have "(if 2 ^ k \<le> (HvMAX hv + 1) div 2 then 2 ^ k else HvMAX hv + 1) = 2 ^ k'"
      
      unfolding kb(2) k'_def by simp
    finally have "oa_new_entry_pack hv oa = Inr hv'" using r(1) by simp
    then show ?thesis using r hv_same_good [OF r(6)] g \<open>?live < ec\<close> by (auto simp: oa_good_def)
  next
    case False
    then have "oa_new_entry_pack hv oa = Inr hv"
      unfolding oa_new_entry_pack_def Let_def cond_def [symmetric] by simp
    then show ?thesis using g False by (auto simp: cond_def)
  qed
qed

lemma oa_new_entry_index_ok:
  assumes g: "oa_good hv oa" and keys: "hv_keys hv < HV_MAX_KEYS"
    and q: "oa_used oa = oa_capacity oa \<longrightarrow> \<not> oa_compaction_worthwhile (oa_used oa) (hv_keys hv) (oa_capacity oa)"
  shows "\<exists>hv' oa'. oa_new_entry_index hv = Inr hv' \<and> oa_good hv' oa' \<and> hv_same hv hv' \<and>
    hv_keys hv < OA_ENTRY_CAPACITY (HvMAX hv' + 1) \<and>
    (oa_used oa' = oa_capacity oa' \<longrightarrow> \<not> oa_compaction_worthwhile (oa_used oa') (hv_keys hv) (oa_capacity oa'))"
proof (cases "hv_keys hv < OA_ENTRY_CAPACITY (HvMAX hv + 1)")
  case True
  then show ?thesis using g q by (auto simp: oa_new_entry_index_def)
next
  case False
  note b = oa_good_bounds [OF g]
  have a: "hv_array hv = Indexed oa" using g by (simp add: oa_good_def)
  obtain k where k: "3 \<le> k" "k \<le> 30" "oa_rebuild_capacity (hv_keys hv) 8 = Inr (2 ^ k)"
    "hv_keys hv \<le> OA_ENTRY_CAPACITY (2 ^ k)" "hv_keys hv < OA_ENTRY_CAPACITY (2 ^ k)"
    using capacity_for_8 [of "hv_keys hv"] keys by auto
  obtain hv' oa' where r: "oa_index_resize hv (2 ^ k) = Inr hv'" "hv_array hv' = Indexed oa'"
      "oa_shape hv' oa'" "oa_indexed hv' oa'" "HvMAX hv' = 2 ^ k - 1" "hv_same hv hv'" "oa_capacity oa' = oa_capacity oa"
      "oa_used oa' = hv_keys hv \<or> oa_used oa' = oa_used oa \<and>
           \<not> oa_compaction_worthwhile (oa_used oa) (hv_keys hv) (oa_capacity oa)"
    using oa_index_resize_ok [OF oa_good_src [OF g] k(2,4)] a by auto
  have "oa_new_entry_index hv = Inr hv'" using False k(3) r(1) by (simp add: oa_new_entry_index_def attempt_def)
  moreover have "oa_used oa' = oa_capacity oa' \<longrightarrow> \<not> oa_compaction_worthwhile (oa_used oa') (hv_keys hv) (oa_capacity oa')"
    using r(7,8) worthwhile_holes [of "oa_used oa'" "hv_keys hv" "oa_capacity oa'"] b by auto
  ultimately show ?thesis using r hv_same_good [OF r(6)] g k(5) by (auto simp: oa_good_def)
qed

lemma oa_new_entry_room_ok:
  assumes g: "oa_good hv oa" and keys: "hv_keys hv < HV_MAX_KEYS"
    and q: "oa_used oa = oa_capacity oa \<longrightarrow> \<not> oa_compaction_worthwhile (oa_used oa) (hv_keys hv) (oa_capacity oa)"
  shows "\<exists>hv' oa'. oa_new_entry_room hv oa = Inr hv' \<and> oa_good hv' oa' \<and> hv_same hv hv' \<and>
    HvMAX hv' = HvMAX hv \<and> oa_used oa' < oa_capacity oa'"
proof (cases "oa_used oa = oa_capacity oa")
  case True
  have e: "8 \<le> oa_capacity oa" using oa_good_bounds [OF g] by simp
  have b: "oa_capacity oa + oa_capacity oa div 4 \<le> I32_MAX"
    using q True keys not_worthwhile_bound [of "oa_capacity oa"] by simp
  have "\<not> oa_capacity oa + oa_capacity oa div 4 > U32_MAX" using b by (simp add: I32_MAX_def U32_MAX_def)
  moreover note b
  moreover have "oa_capacity oa < oa_capacity oa + oa_capacity oa div 4" using e by simp
  moreover have "oa_new_entry_room hv oa = oa_reserve_entries hv (oa_capacity oa + oa_capacity oa div 4)"
    using True div_le_mono [OF e, of 4] calculation(1) by (simp add: oa_new_entry_room_def Let_def)
  ultimately obtain hv' oa' where "oa_new_entry_room hv oa = Inr hv'" "oa_good hv' oa'"
    "oa_capacity oa < oa_capacity oa'" "oa_used oa' = oa_used oa" "HvMAX hv' = HvMAX hv" "hv_same hv hv'"
    using oa_reserve_entries_ok [OF g, of "oa_capacity oa + oa_capacity oa div 4"] by auto
  then show ?thesis using True by (intro exI [of _ hv'] exI [of _ oa']) simp
next
  case False
  then show ?thesis using g oa_good_bounds [OF g] by (auto simp: oa_new_entry_room_def)
qed

lemma use_one_more:
  assumes g: "oa_good hv oa" and u: "oa_used oa < oa_capacity oa"
  defines "hv' \<equiv> hv\<lparr>hv_array := Indexed (oa\<lparr>oa_used := oa_used oa + 1\<rparr>)\<rparr>"
  shows "oa_good hv' (oa\<lparr>oa_used := oa_used oa + 1\<rparr>) \<and> hv_same hv hv' \<and> HvMAX hv' = HvMAX hv \<and>
    oa_entries oa ! oa_used oa = None \<and> lazy_in hv' (oa_used oa)"
proof -
  let ?oa = "oa\<lparr>oa_used := oa_used oa + 1\<rparr>"
  have a: "hv_array hv = Indexed oa" and s: "oa_shape hv oa" and x: "oa_indexed hv oa"
    using g by (simp_all add: oa_good_def)
  note f = Indexed_facts [OF a s]
  have n: "oa_entries oa ! oa_used oa = None" using s u by (simp add: oa_shape_def)
  have h: "hv_array hv' = Indexed ?oa" "HvMAX hv' = HvMAX hv" "\<not> HvIS_LINEAR hv'" "HvEITER_get hv' = HvEITER_get hv"
    "hv_lazydel hv' = hv_lazydel hv" "hv_keys hv' = hv_keys hv" "hv_max_raw hv' = hv_max_raw hv"
    "HvENTRIES hv' = oa_entries oa"
    using f(1) by (simp_all add: hv'_def HvEITER_get_def HvENTRIES_def)
  have first: "HvENTRY_FIRST hv' = HvENTRY_FIRST hv" using h f(1,4) by (simp add: HvENTRY_FIRST_def fun_eq_iff)
  have lim: "HvENTRY_LIMIT hv' = Suc (HvENTRY_LIMIT hv)" using h f(1,3) by (simp add: HvENTRY_LIMIT_def)
  have no: "HvENTRY_FIRST hv (oa_used oa) = None" using n f(1,4) by (simp add: HvENTRY_FIRST_def)
  have "hv_list hv' = hv_list hv" unfolding hv_list_def lim first map_filter_upt_Suc using no f(3) by simp
  then have same: "hv_same hv hv'" by (simp add: hv_same_def hv'_def)
  have home: "he_home hv' = he_home hv" using no f(3) by (auto simp: he_home_def lim h first fun_eq_iff less_Suc_eq)
  have lz: "lazy_in hv' = lazy_in hv" by (simp add: lazy_in_def h fun_eq_iff)
  have "lazy_in hv (oa_used oa)" using s by (simp add: oa_shape_def)
  then have "lazy_in hv (Suc (oa_used oa))" by (auto simp: lazy_in_def less_Suc_eq)
  then have sh: "oa_shape hv' ?oa" using s u by (simp add: oa_shape_def h lz)
  have "HvOA_INDEX_GET hv' = HvOA_INDEX_GET hv" by (simp add: index_get_fun [OF h(1)] index_get_fun [OF a] h)
  then have "oa_indexed hv' ?oa" using x by (simp add: oa_indexed_def h home)
  then show ?thesis using h(1,2) sh same g n s by (simp add: oa_good_def hv_same_def lz oa_shape_def)
qed

theorem oa_new_entry_ok:
  assumes g: "oa_good hv oa" and keys: "hv_keys hv < HV_MAX_KEYS"
  shows "\<exists>hv' oa' i. oa_new_entry hv = Inr (hv', i) \<and> oa_good hv' oa' \<and> hv_same hv hv' \<and> oa_used oa' = i + 1 \<and>
    oa_entries oa' ! i = None \<and> lazy_in hv' i \<and> hv_keys hv < OA_ENTRY_CAPACITY (HvMAX hv' + 1)"
proof -
  obtain hv1 oa1 where 1: "oa_new_entry_pack hv oa = Inr hv1" "oa_good hv1 oa1" "hv_same hv hv1"
    "oa_used oa1 = oa_capacity oa1 \<longrightarrow> \<not> oa_compaction_worthwhile (oa_used oa1) (hv_keys hv) (oa_capacity oa1)"
    using oa_new_entry_pack_ok [OF g keys] by blast
  have k1: "hv_keys hv1 = hv_keys hv" using 1(3) by (simp add: hv_same_def)
  obtain hv2 oa2 where 2: "oa_new_entry_index hv1 = Inr hv2" "oa_good hv2 oa2" "hv_same hv1 hv2"
    "hv_keys hv < OA_ENTRY_CAPACITY (HvMAX hv2 + 1)"
    "oa_used oa2 = oa_capacity oa2 \<longrightarrow> \<not> oa_compaction_worthwhile (oa_used oa2) (hv_keys hv) (oa_capacity oa2)"
    using oa_new_entry_index_ok [OF 1(2)] 1(4) keys k1 by auto
  have k2: "hv_keys hv2 = hv_keys hv" using 2(3) k1 by (simp add: hv_same_def)
  obtain hv3 oa3 where 3: "oa_new_entry_room hv2 oa2 = Inr hv3" "oa_good hv3 oa3" "hv_same hv2 hv3"
    "HvMAX hv3 = HvMAX hv2" "oa_used oa3 < oa_capacity oa3"
    using oa_new_entry_room_ok [OF 2(2)] 2(5) keys k2 by auto
  have HvOA: "HvOA hv = oa" "HvOA hv2 = oa2" "HvOA hv3 = oa3"
    using oa_good_bounds [OF g] oa_good_bounds [OF 2(2)] oa_good_bounds [OF 3(2)] by simp_all
  let ?hv' = "hv3\<lparr>hv_array := Indexed (oa3\<lparr>oa_used := oa_used oa3 + 1\<rparr>)\<rparr>"
  have "oa_new_entry hv = Inr (?hv', oa_used oa3)"
    using 1(1) 2(1) 3(1) by (simp add: oa_new_entry_def attempt_def HvOA Let_def)
  moreover note use_one_more [OF 3(2,5)]
  moreover have "hv_same hv ?hv'"
    using 1(3) 2(3) 3(3) use_one_more [OF 3(2,5)] by (blast intro: hv_same_trans)
  ultimately show ?thesis using 2(4) 3(4) by (intro exI [of _ ?hv'] exI [of _ "oa3\<lparr>oa_used := oa_used oa3 + 1\<rparr>"]) simp
qed

end
