(* ===== verification/Hv_Store.thy ===== *)
theory Hv_Store
  imports Hv_Rebuild
begin

text \<open>
  Fetching, storing and deleting: every operation keeps \<open>hv_wf\<close> and refines an operation on
  the list of live entries, and so on the finite map it stands for.
\<close>

section \<open>Changing one entry\<close>

lemma hv_list_update:
  assumes "i < HvENTRY_LIMIT hv" "HvENTRY_FIRST hv i = Some e"
  obtains A B where "hv_list hv = A @ e # B"
    "\<And>hv' x. HvENTRY_LIMIT hv' = HvENTRY_LIMIT hv \<Longrightarrow>
      (\<And>j. j < HvENTRY_LIMIT hv \<Longrightarrow> HvENTRY_FIRST hv' j = (if j = i then x else HvENTRY_FIRST hv j)) \<Longrightarrow>
      hv_list hv' = A @ (case x of None \<Rightarrow> [] | Some e' \<Rightarrow> [e']) @ B"
proof
  let ?f = "HvENTRY_FIRST hv" and ?n = "HvENTRY_LIMIT hv"
  show "hv_list hv = List.map_filter ?f [0..<i] @ e # List.map_filter ?f [Suc i..<?n]"
    unfolding hv_list_def by (rule map_filter_positions [where f = ?f, OF assms])
  fix hv' :: "'a hv" and x
  assume l: "HvENTRY_LIMIT hv' = ?n"
    and f: "\<And>j. j < ?n \<Longrightarrow> HvENTRY_FIRST hv' j = (if j = i then x else ?f j)"
  have "[0..<?n] = [0..<i] @ i # [Suc i..<?n]"
    using assms(1) upt_add_eq_append [of 0 i "?n - i"] by (simp add: upt_conv_Cons)
  then have "hv_list hv' = List.map_filter (HvENTRY_FIRST hv') [0..<i] @
      List.map_filter (HvENTRY_FIRST hv') [i] @ List.map_filter (HvENTRY_FIRST hv') [Suc i..<?n]"
    unfolding hv_list_def l by (simp add: List.map_filter_def)
  also have "List.map_filter (HvENTRY_FIRST hv') [0..<i] = List.map_filter ?f [0..<i]"
    using f assms(1) by (intro map_filter_cong) auto
  also have "List.map_filter (HvENTRY_FIRST hv') [Suc i..<?n] = List.map_filter ?f [Suc i..<?n]"
    using f by (intro map_filter_cong) auto
  also have "List.map_filter (HvENTRY_FIRST hv') [i] = (case x of None \<Rightarrow> [] | Some e' \<Rightarrow> [e'])"
    using f [OF assms(1)] by (simp add: List.map_filter_def split: option.splits)
  finally show "hv_list hv' = List.map_filter ?f [0..<i] @ (case x of None \<Rightarrow> [] | Some e' \<Rightarrow> [e']) @
      List.map_filter ?f [Suc i..<?n]" .
qed

lemma remove_key:
  assumes "distinct (map he_key (A @ e # B))"
  shows "A @ B = filter (\<lambda>x. he_key x \<noteq> he_key e) (A @ e # B)"
proof -
  have "filter (\<lambda>x. he_key x \<noteq> he_key e) A = A" "filter (\<lambda>x. he_key x \<noteq> he_key e) B = B"
    using assms by (auto simp: filter_id_conv) (metis image_eqI)+
  then show ?thesis by simp
qed

text \<open>The map that a list of entries stands for.\<close>

definition list_map :: "'v he list \<Rightarrow> bytes \<times> bool \<Rightarrow> 'v hval option" where
  "list_map L = map_of (map (\<lambda>e. (he_key e, he_val e)) L)"

lemma hv_map_list: "hv_map hv = list_map (hv_list hv)"
  by (simp add: hv_map_def list_map_def)

lemma list_map_None: "list_map L k = None \<longleftrightarrow> k \<notin> he_key ` set L"
  by (simp add: list_map_def map_of_eq_None_iff image_image)

lemma list_map_split:
  "list_map (A @ B) k = (case list_map A k of Some v \<Rightarrow> Some v | None \<Rightarrow> list_map B k)"
  by (simp add: list_map_def map_add_def split: option.splits)

lemma list_map_Cons: "list_map (e # B) k = (if k = he_key e then Some (he_val e) else list_map B k)"
  by (simp add: list_map_def)

lemma list_map_Nil: "list_map [] k = None"
  by (simp add: list_map_def)

lemma list_map_append: "he_key e \<notin> he_key ` set L \<Longrightarrow> list_map (L @ [e]) = (list_map L)(he_key e \<mapsto> he_val e)"
  using list_map_None [of L "he_key e"]
  by (auto simp: list_map_split list_map_Cons list_map_Nil split: option.splits)

lemma keys_apart:
  assumes "distinct (map he_key (A @ e # B))"
  shows "list_map A (he_key e) = None" "list_map B (he_key e) = None"
  using assms by (auto simp: list_map_None)

lemma list_map_change:
  assumes "distinct (map he_key (A @ e # B))" "he_key e' = he_key e"
  shows "list_map (A @ e' # B) = (list_map (A @ e # B))(he_key e \<mapsto> he_val e')"
  using keys_apart [OF assms(1)] assms(2) by (auto simp: list_map_split list_map_Cons split: option.splits)

lemma list_map_remove:
  assumes "distinct (map he_key (A @ e # B))"
  shows "list_map (A @ B) = (list_map (A @ e # B))(he_key e := None)"
  using keys_apart [OF assms(1)] by (auto simp: list_map_split list_map_Cons split: option.splits)

lemma list_map_at:
  assumes "distinct (map he_key (A @ e # B))"
  shows "list_map (A @ e # B) (he_key e) = Some (he_val e)"
  using keys_apart [OF assms(1)] by (simp add: list_map_split list_map_Cons)

text \<open>A hash and another one with the same storage but for entry \<open>i\<close>.\<close>

definition entry_set :: "'v hv \<Rightarrow> nat \<Rightarrow> 'v he option \<Rightarrow> 'v hv" where
  "entry_set hv i x = HvENTRIES_SET hv ((HvENTRIES hv)[i := x])"

lemma entry_set_sel [simp]:
  "hv_max_raw (entry_set hv i x) = hv_max_raw hv" "hv_keys (entry_set hv i x) = hv_keys hv"
  "hv_aux (entry_set hv i x) = hv_aux hv" "hv_lazydel (entry_set hv i x) = hv_lazydel hv"
  "hv_readonly (entry_set hv i x) = hv_readonly hv" "hv_sharekeys (entry_set hv i x) = hv_sharekeys hv"
  "hv_haskflags (entry_set hv i x) = hv_haskflags hv" "hv_placeholders (entry_set hv i x) = hv_placeholders hv"
  "HvIS_LINEAR (entry_set hv i x) = HvIS_LINEAR hv" "HvMAX (entry_set hv i x) = HvMAX hv"
  "HvEITER_get (entry_set hv i x) = HvEITER_get hv" "lazy_in (entry_set hv i x) = lazy_in hv"
  "HvENTRY_LIMIT (entry_set hv i x) = HvENTRY_LIMIT hv" "HvOA_INDEX_GET (entry_set hv i x) = HvOA_INDEX_GET hv"
  by (auto simp: entry_set_def HvENTRIES_SET_def HvIS_LINEAR_def HvEITER_get_def lazy_in_def HvENTRY_LIMIT_def
      HvOA_INDEX_GET_def fun_eq_iff split: harray.splits)

lemma entry_set_array:
  "hv_array hv = Linear es \<Longrightarrow> hv_array (entry_set hv i x) = Linear (es[i := x])"
  "hv_array hv = Indexed oa \<Longrightarrow> hv_array (entry_set hv i x) = Indexed (oa\<lparr>oa_entries := (oa_entries oa)[i := x]\<rparr>)"
  by (simp_all add: entry_set_def HvENTRIES_SET_def HvENTRIES_def)

lemma entry_set_first:
  assumes "hv_array hv \<noteq> NoArray" "i < length (HvENTRIES hv)" "\<not> (hv_lazydel hv \<and> HvEITER_get hv = EntryAt i)"
  shows "HvENTRY_FIRST (entry_set hv i x) j = (if j = i then x else HvENTRY_FIRST hv j)"
proof -
  have "HvENTRIES (entry_set hv i x) = (HvENTRIES hv)[i := x]"
    using assms(1) by (cases "hv_array hv") (simp_all add: entry_set_def HvENTRIES_SET_def HvENTRIES_def)
  then show ?thesis using assms by (auto simp: HvENTRY_FIRST_def)
qed

lemma he_update_set: "he_update hv i f = entry_set hv i (map_option f (HvENTRIES hv ! i))"
  by (simp add: he_update_def entry_set_def)

lemma oa_shape_set:
  assumes "hv_array hv = Indexed oa" "oa_shape hv oa" "i < oa_used oa"
  shows "oa_shape (entry_set hv i x) (oa\<lparr>oa_entries := (oa_entries oa)[i := x]\<rparr>)"
  using assms by (auto simp: oa_shape_def nth_list_update)

text \<open>Live entries: where they are, and what replacing one does.\<close>

lemma live_entry:
  assumes "hv_shape hv" "i < HvENTRY_LIMIT hv" "HvENTRY_FIRST hv i = Some e"
  shows "hv_array hv \<noteq> NoArray" "i < length (HvENTRIES hv)" "\<not> (hv_lazydel hv \<and> HvEITER_get hv = EntryAt i)"
    "HvENTRIES hv ! i = Some e"
proof -
  show n: "hv_array hv \<noteq> NoArray" using assms(1,2) NoArray_list [of hv] by auto
  show "HvENTRIES hv ! i = Some e" using HvENTRY_FIRST_entries [OF assms(3)] .
  have "i < length (HvENTRIES hv) \<and> \<not> (hv_lazydel hv \<and> HvEITER_get hv = EntryAt i)"
  proof (cases "hv_array hv")
    case NoArray
    then show ?thesis using n by simp
  next
    case (Linear es)
    then have s: "linear_shape hv es" using assms(1) by (simp add: hv_shape_def)
    show ?thesis using Linear_facts [OF Linear s] s assms(2) by (auto simp: linear_shape_def lazy_in_def)
  next
    case (Indexed oa)
    then have s: "oa_shape hv oa" using assms(1) by (simp add: hv_shape_def)
    show ?thesis using Indexed_facts [OF Indexed s] s assms(2,3)
      by (auto simp: oa_shape_def HvENTRY_FIRST_def split: if_splits)
  qed
  then show "i < length (HvENTRIES hv)" "\<not> (hv_lazydel hv \<and> HvEITER_get hv = EntryAt i)" by simp_all
qed

text \<open>Only these fields matter to the invariant.\<close>

lemma hv_wf_cong:
  assumes "hv_array hv' = hv_array hv" "hv_max_raw hv' = hv_max_raw hv" "hv_keys hv' = hv_keys hv"
    "hv_lazydel hv' = hv_lazydel hv" "HvEITER_get hv' = HvEITER_get hv"
  shows "hv_list hv' = hv_list hv" "hv_wf H hv' = hv_wf H hv" "hv_shape hv' = hv_shape hv"
proof -
  have l: "HvIS_LINEAR hv' = HvIS_LINEAR hv" "HvMAX hv' = HvMAX hv"
    by (rule HvIS_LINEAR_cong [OF assms(2)], rule HvMAX_cong [OF assms(2)])
  have e: "HvENTRIES hv' = HvENTRIES hv" "HvENTRY_LIMIT hv' = HvENTRY_LIMIT hv"
    using assms(1,3) l by (simp_all add: HvENTRIES_def HvENTRY_LIMIT_def)
  have f: "HvENTRY_FIRST hv' = HvENTRY_FIRST hv" using assms(4,5) l e by (simp add: HvENTRY_FIRST_def fun_eq_iff)
  show L: "hv_list hv' = hv_list hv" by (simp add: hv_list_def e f)
  have z: "lazy_in hv' = lazy_in hv" using assms by (simp add: lazy_in_def fun_eq_iff)
  have g: "HvOA_INDEX_GET hv' = HvOA_INDEX_GET hv" using assms(1) l by (auto simp: HvOA_INDEX_GET_def fun_eq_iff split: harray.splits)
  have h: "he_home hv' = he_home hv" by (simp add: he_home_def fun_eq_iff e f l)
  show "hv_shape hv' = hv_shape hv"
    using assms z g h l by (simp add: hv_shape_def linear_shape_def oa_shape_def oa_indexed_def split: harray.splits)
  then show "hv_wf H hv' = hv_wf H hv" using L assms(3) by (simp add: hv_wf_def hv_list_ok_def)
qed

text \<open>Replacing a live entry by one with the same key and hash.\<close>

lemma entry_set_wf:
  assumes wf: "hv_wf H hv" and i: "i < HvENTRY_LIMIT hv" "HvENTRY_FIRST hv i = Some e"
    and e': "he_key e' = he_key e" "hek_hash (he_hek e') = hek_hash (he_hek e)"
  shows "hv_wf H (entry_set hv i (Some e'))" and
    "\<exists>A B. hv_list hv = A @ e # B \<and> hv_list (entry_set hv i (Some e')) = A @ e' # B"
    "HvENTRY_FIRST (entry_set hv i (Some e')) i = Some e'"
proof -
  have sh: "hv_shape hv" and ok: "hv_list_ok H hv" using wf by (simp_all add: hv_wf_def)
  note l = live_entry [OF sh i]
  let ?hv = "entry_set hv i (Some e')"
  note first = entry_set_first [OF l(1-3), of "Some e'"]
  show "HvENTRY_FIRST ?hv i = Some e'" using first by simp
  obtain A B where AB: "hv_list hv = A @ e # B" "hv_list ?hv = A @ e' # B"
    using hv_list_update [OF i] first by (metis entry_set_sel(13) append_Cons append_Nil option.simps(5))
  then show "\<exists>A B. hv_list hv = A @ e # B \<and> hv_list ?hv = A @ e' # B" by blast
  have "hv_list_ok H ?hv" using ok e' unfolding hv_list_ok_def AB by (auto simp: he_key_def)
  moreover have "hv_shape ?hv"
  proof (cases "hv_array hv")
    case NoArray
    then show ?thesis using l(1) by simp
  next
    case (Linear es)
    then have s: "linear_shape hv es" using sh by (simp add: hv_shape_def)
    then have "linear_shape ?hv (es[i := Some e'])"
      using Linear_facts [OF Linear s] l(2,4) i(1) by (auto simp: linear_shape_def nth_list_update)
    then show ?thesis using entry_set_array(1) [OF Linear] by (simp add: hv_shape_def)
  next
    case (Indexed oa)
    then have s: "oa_shape hv oa" "oa_indexed hv oa" using sh by (simp_all add: hv_shape_def)
    have "he_home ?hv = he_home hv" using first i e'(2) by (auto simp: he_home_def fun_eq_iff)
    then have "oa_indexed ?hv (oa\<lparr>oa_entries := (oa_entries oa)[i := Some e']\<rparr>)"
      using s(2) by (simp add: oa_indexed_def)
    then show ?thesis
      using entry_set_array(2) [OF Indexed] oa_shape_set [OF Indexed s(1)] i(1) Indexed_facts(3) [OF Indexed s(1)]
      by (simp add: hv_shape_def)
  qed
  ultimately show "hv_wf H ?hv" by (simp add: hv_wf_def)
qed

section \<open>A new entry\<close>

text \<open>Entry \<open>i\<close> is free, and next in order.\<close>

definition room :: "'v hv \<Rightarrow> nat \<Rightarrow> bool" where
  "room hv i \<longleftrightarrow> length (hv_list hv) = hv_keys hv \<and> (case hv_array hv of
     NoArray \<Rightarrow> False
   | Linear es \<Rightarrow> (\<exists>cap. hv_max_raw hv = 64 + cap \<and> cap < 64 \<and> length es = cap) \<and> i = hv_keys hv \<and>
       i < length es \<and> (\<forall>j<length es. es ! j \<noteq> None \<longleftrightarrow> j < i) \<and> lazy_in hv 0
   | Indexed oa \<Rightarrow> oa_good hv oa \<and> oa_used oa = i + 1 \<and> oa_entries oa ! i = None \<and> lazy_in hv i \<and>
       hv_keys hv < OA_ENTRY_CAPACITY (HvMAX hv + 1))"

lemma linear_list:
  assumes "hv_array hv = Linear es" "HvIS_LINEAR hv"
  shows "hv_list hv = List.map_filter (\<lambda>i. es ! i) [0..<hv_keys hv]"
proof -
  have "HvENTRY_FIRST hv = (\<lambda>i. es ! i)" using assms by (simp add: HvENTRY_FIRST_def HvENTRIES_def fun_eq_iff)
  moreover have "HvENTRY_LIMIT hv = hv_keys hv" using assms by (simp add: HvENTRY_LIMIT_def)
  ultimately show ?thesis by (simp add: hv_list_def)
qed

lemma HvMAX_SET_LINEAR_sel [simp]:
  "hv_array (HvMAX_SET_LINEAR hv c) = hv_array hv" "hv_keys (HvMAX_SET_LINEAR hv c) = hv_keys hv"
  "hv_aux (HvMAX_SET_LINEAR hv c) = hv_aux hv" "hv_lazydel (HvMAX_SET_LINEAR hv c) = hv_lazydel hv"
  "hv_readonly (HvMAX_SET_LINEAR hv c) = hv_readonly hv" "hv_sharekeys (HvMAX_SET_LINEAR hv c) = hv_sharekeys hv"
  "hv_haskflags (HvMAX_SET_LINEAR hv c) = hv_haskflags hv" "hv_placeholders (HvMAX_SET_LINEAR hv c) = hv_placeholders hv"
  by (simp_all add: HvMAX_SET_LINEAR_def)

lemma HvMAX_SET_LINEAR_raw: "c < 64 \<Longrightarrow> hv_max_raw (HvMAX_SET_LINEAR hv c) = 64 + c"
  using raw_bits(3) [of c] by (simp add: HvMAX_SET_LINEAR_def)

text \<open>The flags of a hash, which no storage operation touches.\<close>

definition hv_flags :: "'v hv \<Rightarrow> nat \<times> bool \<times> bool \<times> bool \<times> bool \<times> nat" where
  "hv_flags hv = (hv_keys hv, hv_lazydel hv, hv_readonly hv, hv_sharekeys hv, hv_haskflags hv, hv_placeholders hv)"

lemma hv_same_flags: "hv_same hv hv' \<longleftrightarrow> hv_list hv' = hv_list hv \<and> hv_flags hv' = hv_flags hv"
  by (auto simp: hv_same_def hv_flags_def)

lemma hv_prepare_ok:
  assumes wf: "hv_wf H hv"
  shows "\<exists>hv'. hv_prepare limit hv = Inr hv' \<and> hv_wf H hv' \<and> hv_same hv hv' \<and>
    (hv_array hv \<noteq> NoArray \<longrightarrow> hv' = hv) \<and> (hv_array hv' = NoArray \<longrightarrow> hv_max_raw hv' = 64)"
proof (cases "hv_array hv = NoArray")
  case False
  then show ?thesis using wf by (simp add: hv_prepare_def)
next
  case True
  have sh: "hv_shape hv" and ok: "hv_list_ok H hv" using wf by (simp_all add: hv_wf_def)
  have a: "hv_keys hv = 0" "hv_max_raw hv \<le> 30 \<or> hv_max_raw hv = 64 + 0" "lazy_in hv 0"
    using sh True by (simp_all add: hv_shape_def)
  have L: "hv_list hv = []" using NoArray_list [OF True sh] by simp
  show ?thesis
  proof (cases "limit = 0")
    case False
    let ?hv = "HvMAX_SET_LINEAR hv 0"
    have r: "hv_max_raw ?hv = 64" using HvMAX_SET_LINEAR_raw [of 0 hv] by simp
    have "lazy_in ?hv 0" using a(3) by (simp add: lazy_in_def HvEITER_get_def)
    then have s: "hv_shape ?hv" using True a(1) r by (simp add: hv_shape_def)
    then have "hv_list ?hv = []" using NoArray_list [of ?hv] True by simp
    then show ?thesis using False True s r L ok
      by (simp add: hv_prepare_def hv_wf_def hv_list_ok_def hv_same_def)
  next
    case True': True
    have "\<exists>k\<le>30. HvMAX hv + 1 = 2 ^ k"
    proof (cases "hv_max_raw hv \<le> 30")
      case True
      then show ?thesis using HvMAX_indexed(2) [of hv "hv_max_raw hv"] by auto
    next
      case False
      then have "HvMAX hv = 0" using a(2) HvMAX_linear [of hv 0] by (simp add: HvMAX_def)
      then show ?thesis by (intro exI [of _ 0]) simp
    qed
    then obtain k where k: "k \<le> 30" "HvMAX hv + 1 = 2 ^ k" by blast
    have src: "hv_src hv" using a True L by (simp add: hv_src_def)
    obtain hv' oa where r: "oa_index_resize hv (2 ^ k) = Inr hv'" "hv_array hv' = Indexed oa" "oa_shape hv' oa"
      "oa_indexed hv' oa" "hv_same hv hv'"
      using oa_index_resize_ok [OF src k(1)] a(1) by auto
    moreover have "hv_wf H hv'" using r ok by (simp add: hv_wf_def hv_shape_def hv_list_ok_def hv_same_def)
    ultimately show ?thesis using True True' k(2) by (simp add: hv_prepare_def)
  qed
qed

lemma oa_good_room:
  assumes "oa_good hv' oa'" "oa_used oa' = i + 1" "oa_entries oa' ! i = None" "lazy_in hv' i"
    "hv_keys hv' < OA_ENTRY_CAPACITY (HvMAX hv' + 1)"
  shows "room hv' i"
  using assms by (simp add: room_def oa_good_def)

lemma oa_new_entry_room:
  assumes "oa_good hv oa" "hv_keys hv < HV_MAX_KEYS"
  shows "\<exists>hv' i. oa_new_entry hv = Inr (hv', i) \<and> room hv' i \<and> hv_same hv hv'"
proof -
  obtain hv' oa' i where r: "oa_new_entry hv = Inr (hv', i)" "oa_good hv' oa'" "hv_same hv hv'" "oa_used oa' = i + 1"
    "oa_entries oa' ! i = None" "lazy_in hv' i" "hv_keys hv < OA_ENTRY_CAPACITY (HvMAX hv' + 1)"
    using oa_new_entry_ok [OF assms] by blast
  moreover have "room hv' i" using oa_good_room [OF r(2,4,5,6)] r(3,7) by (simp add: hv_same_def)
  ultimately show ?thesis by blast
qed

text \<open>A linear hash grows by doubling up to the limit, then is promoted.\<close>

lemma linear_reserve_ok:
  assumes a: "hv_array hv = Linear es" and s: "linear_shape hv es" and n: "length es < n" "n < 64"
  shows "hv_array (linear_reserve hv n) = Linear (zero_rest es (hv_keys hv) n) \<and>
    hv_max_raw (linear_reserve hv n) = 64 + n \<and> hv_same hv (linear_reserve hv n) \<and> lazy_in (linear_reserve hv n) 0"
proof -
  note l = Linear_facts [OF a s]
  let ?hv = "linear_reserve hv n"
  have e: "?hv = HvMAX_SET_LINEAR (hv\<lparr>hv_array := Linear (zero_rest es (hv_keys hv) n)\<rparr>) n"
    using a n(1) l by (simp add: linear_reserve_def Let_def)
  have r: "hv_max_raw ?hv = 64 + n" unfolding e by (rule HvMAX_SET_LINEAR_raw [OF n(2)])
  have k: "hv_keys hv \<le> length es" using s by (simp add: linear_shape_def)
  have ar: "hv_array ?hv = Linear (zero_rest es (hv_keys hv) n)" "hv_keys ?hv = hv_keys hv" by (simp_all add: e)
  have "hv_list ?hv = List.map_filter (\<lambda>i. zero_rest es (hv_keys hv) n ! i) [0..<hv_keys hv]"
    using linear_list [OF ar(1)] HvMAX_linear(1) [OF r n(2)] ar(2) by simp
  also have "\<dots> = List.map_filter (\<lambda>i. es ! i) [0..<hv_keys hv]"
    using k n(1) by (intro map_filter_cong) (simp add: zero_rest_nth)
  also have "\<dots> = hv_list hv" using linear_list [OF a l(1)] by simp
  finally have "hv_list ?hv = hv_list hv" .
  moreover have "lazy_in ?hv 0" using s by (simp add: linear_shape_def lazy_in_def HvEITER_get_def e)
  ultimately show ?thesis using ar r by (simp add: hv_same_def e)
qed

lemma linear_room:
  assumes "hv_array hv = Linear es" "hv_max_raw hv = 64 + length es" "length es < 64" "hv_keys hv < length es"
    "\<forall>j<length es. es ! j \<noteq> None \<longleftrightarrow> j < hv_keys hv" "lazy_in hv 0" "length (hv_list hv) = hv_keys hv"
  shows "room hv (hv_keys hv)"
  using assms by (simp add: room_def)

lemma oa_promote_ok:
  assumes "hv_src hv" "hv_keys hv < 64"
  shows "\<exists>hv' oa. oa_promote hv = Inr hv' \<and> oa_good hv' oa \<and> hv_same hv hv'"
proof -
  obtain k where k: "k \<le> 30" "promote_capacity (hv_keys hv) (2 ^ 3) = Inr (2 ^ k)" "hv_keys hv \<le> OA_ENTRY_CAPACITY (2 ^ k)"
    using promote_capacity_spec [of 3 "hv_keys hv"] assms(2) div_le_dividend [of "hv_keys hv" 2] by auto
  obtain hv' oa where r: "oa_index_resize hv (2 ^ k) = Inr hv'" "hv_array hv' = Indexed oa" "oa_shape hv' oa"
      "oa_indexed hv' oa" "hv_same hv hv'"
    using oa_index_resize_ok [OF assms(1) k(1,3)] by auto
  moreover have "oa_promote hv = Inr hv'" using k(2) r(1) by (simp add: oa_promote_def attempt_def)
  moreover have "length (hv_list hv') = hv_keys hv'" using r(5) assms(1) by (simp add: hv_same_def hv_src_def)
  ultimately show ?thesis by (auto simp: oa_good_def)
qed

lemma linear_new_entry_ok:
  assumes wf: "hv_wf H hv" and lin: "HvIS_LINEAR hv" and limit: "limit < 64" and keys: "hv_keys hv < HV_MAX_KEYS"
  shows "\<exists>hv' i. linear_new_entry limit hv = Inr (hv', i) \<and> room hv' i \<and> hv_same hv hv'"
proof -
  have sh: "hv_shape hv" and len: "length (hv_list hv) = hv_keys hv" using wf by (auto simp: hv_wf_def hv_list_ok_def)
  show ?thesis
  proof (cases "hv_array hv")
    case NoArray
    have a: "hv_keys hv = 0" "lazy_in hv 0" using sh NoArray by (simp_all add: hv_shape_def)
    let ?hv = "HvMAX_SET_LINEAR (hv\<lparr>hv_array := Linear [None]\<rparr>) 1"
    have r: "hv_max_raw ?hv = 64 + 1" by (rule HvMAX_SET_LINEAR_raw) simp
    have "lazy_in ?hv 0" using a(2) by (simp add: lazy_in_def HvEITER_get_def)
    moreover have L: "hv_list ?hv = []"
      using linear_list [of ?hv "[None]"] HvMAX_linear(1) [OF r] a(1) by (simp add: List.map_filter_def)
    ultimately have "room ?hv 0" using r a(1) by (simp add: room_def)
    moreover have "hv_same hv ?hv" using L len a(1) by (simp add: hv_same_def)
    moreover have "linear_new_entry limit hv = Inr (?hv, 0)" using NoArray a(1) by (simp add: linear_new_entry_def)
    ultimately show ?thesis by blast
  next
    case (Linear es)
    then have s: "linear_shape hv es" using sh by (simp add: hv_shape_def)
    note l = Linear_facts [OF Linear s]
    have c: "hv_max_raw hv = 64 + length es" "length es < 64" "hv_keys hv \<le> length es" "0 < hv_keys hv"
      "\<forall>j<length es. es ! j \<noteq> None \<longleftrightarrow> j < hv_keys hv" "lazy_in hv 0"
      using s by (auto simp: linear_shape_def)
    show ?thesis
    proof (cases "hv_keys hv = length es")
      case False
      then have "linear_new_entry limit hv = Inr (hv, hv_keys hv)"
        using Linear l(5) by (simp add: linear_new_entry_def Let_def)
      then show ?thesis using linear_room [OF Linear c(1,2) _ c(5,6) len] False c(3) by auto
    next
      case full: True
      show ?thesis
      proof (cases "length es < limit")
        case True
        define n where "n = (if length es * 2 > limit then limit else length es * 2)"
        have n: "length es < n" "n < 64" "n \<le> HV_LINEAR_CAP_MASK"
          using True limit c(4) full by (auto simp: n_def HV_LINEAR_CAP_MASK_def HV_MAX_EXPONENT_MASK_def)
        have e: "linear_new_entry limit hv = Inr (linear_reserve hv n, hv_keys hv)"
          using Linear full True l(5) c(4) n by (auto simp: linear_new_entry_def Let_def n_def)
        note q = linear_reserve_ok [OF Linear s n(1,2)]
        let ?hv = "linear_reserve hv n" and ?es = "zero_rest es (hv_keys hv) n"
        have k: "hv_keys ?hv = hv_keys hv" "length (hv_list ?hv) = hv_keys ?hv" using q len by (simp_all add: hv_same_def)
        have z: "length ?es = n \<and> (j < n \<longrightarrow> ?es ! j = (if j < hv_keys hv then es ! j else None))" for j
          using zero_rest_nth [of "hv_keys hv" es n j] full n(1) by (auto simp: zero_rest_def)
        have "\<forall>j<length ?es. ?es ! j \<noteq> None \<longleftrightarrow> j < hv_keys ?hv" using z c(5) full k by auto
        then have "room ?hv (hv_keys ?hv)"
          using linear_room [of ?hv ?es] q z n full k by auto
        then show ?thesis using e q k by auto
      next
        case False
        have src: "hv_src hv" using Linear s len by (simp add: hv_src_def)
        obtain hv1 oa where p: "oa_promote hv = Inr hv1" "oa_good hv1 oa" "hv_same hv hv1"
          using oa_promote_ok [OF src] c(2,3) by auto
        have "hv_keys hv1 < HV_MAX_KEYS" using p(3) keys by (simp add: hv_same_def)
        from oa_new_entry_room [OF p(2) this] obtain hv' i where
          "oa_new_entry hv1 = Inr (hv', i)" "room hv' i" "hv_same hv1 hv'" by blast
        moreover have "linear_new_entry limit hv = attempt (oa_promote hv) oa_new_entry"
          using False full Linear l(5) by (simp add: linear_new_entry_def Let_def)
        ultimately show ?thesis using p hv_same_trans by (fastforce simp: attempt_def)
      qed
    qed
  next
    case (Indexed oa)
    then have "oa_shape hv oa" using sh by (simp add: hv_shape_def)
    then show ?thesis using Indexed_facts(1) [OF Indexed] lin by simp
  qed
qed

lemma hv_new_entry_ok:
  assumes wf: "hv_wf H hv" and limit: "limit < 64" and keys: "hv_keys hv < HV_MAX_KEYS"
    and r: "hv_array hv = NoArray \<longrightarrow> hv_max_raw hv = 64"
  shows "\<exists>hv' i. hv_new_entry limit hv = Inr (hv', i) \<and> room hv' i \<and> hv_same hv hv'"
proof (cases "HvIS_LINEAR hv")
  case True
  then show ?thesis using linear_new_entry_ok [OF wf True limit keys] by (simp add: hv_new_entry_def)
next
  case False
  have sh: "hv_shape hv" and len: "length (hv_list hv) = hv_keys hv" using wf by (auto simp: hv_wf_def hv_list_ok_def)
  have "hv_array hv \<noteq> NoArray" using r False HvMAX_linear(1) [of hv 0] by auto
  moreover have "\<nexists>es. hv_array hv = Linear es"
    using sh False Linear_facts(1) [of hv] by (auto simp: hv_shape_def)
  ultimately obtain oa where oa: "hv_array hv = Indexed oa" by (cases "hv_array hv") auto
  then have "oa_good hv oa" using sh len by (simp add: oa_good_def hv_shape_def)
  from oa_new_entry_room [OF this keys] show ?thesis using False oa by (simp add: hv_new_entry_def attempt_def)
qed

lemma keys_update [simp]:
  "HvMAX (hv\<lparr>hv_keys := n\<rparr>) = HvMAX hv" "HvIS_LINEAR (hv\<lparr>hv_keys := n\<rparr>) = HvIS_LINEAR hv"
  "HvENTRY_FIRST (hv\<lparr>hv_keys := n\<rparr>) = HvENTRY_FIRST hv" "lazy_in (hv\<lparr>hv_keys := n\<rparr>) = lazy_in hv"
  "HvOA_INDEX_GET (hv\<lparr>hv_keys := n\<rparr>) = HvOA_INDEX_GET hv" "HvEITER_get (hv\<lparr>hv_keys := n\<rparr>) = HvEITER_get hv"
proof -
  show m: "HvMAX (hv\<lparr>hv_keys := n\<rparr>) = HvMAX hv" "HvIS_LINEAR (hv\<lparr>hv_keys := n\<rparr>) = HvIS_LINEAR hv"
    by (rule HvMAX_cong HvIS_LINEAR_cong, simp)+
  show e: "HvEITER_get (hv\<lparr>hv_keys := n\<rparr>) = HvEITER_get hv" by (simp add: HvEITER_get_def)
  show "HvENTRY_FIRST (hv\<lparr>hv_keys := n\<rparr>) = HvENTRY_FIRST hv"
    by (simp add: HvENTRY_FIRST_def fun_eq_iff m e HvENTRIES_def)
  show "lazy_in (hv\<lparr>hv_keys := n\<rparr>) = lazy_in hv" by (simp add: lazy_in_def fun_eq_iff e)
  show "HvOA_INDEX_GET (hv\<lparr>hv_keys := n\<rparr>) = HvOA_INDEX_GET hv"
    by (simp add: HvOA_INDEX_GET_def fun_eq_iff m split: harray.splits)
qed

lemma indexed_keys_update:
  assumes "\<not> HvIS_LINEAR hv"
  shows "HvENTRY_LIMIT (hv\<lparr>hv_keys := n\<rparr>) = HvENTRY_LIMIT hv" "hv_list (hv\<lparr>hv_keys := n\<rparr>) = hv_list hv"
    "he_home (hv\<lparr>hv_keys := n\<rparr>) = he_home hv"
proof -
  show l: "HvENTRY_LIMIT (hv\<lparr>hv_keys := n\<rparr>) = HvENTRY_LIMIT hv" using assms by (simp add: HvENTRY_LIMIT_def)
  show "hv_list (hv\<lparr>hv_keys := n\<rparr>) = hv_list hv" by (simp add: hv_list_def l)
  show "he_home (hv\<lparr>hv_keys := n\<rparr>) = he_home hv" by (simp add: he_home_def fun_eq_iff l)
qed

text \<open>Linking a free entry and counting it.\<close>

lemma fill_linear:
  fixes hv :: "'v hv" and e :: "'v he"
  assumes r: "room hv i" and a: "hv_array hv = Linear es"
  defines "hv' \<equiv> (entry_set hv i (Some e))\<lparr>hv_keys := hv_keys hv + 1\<rparr>"
  shows "hv_shape hv' \<and> hv_list hv' = hv_list hv @ [e] \<and> HvENTRIES hv' ! i = Some e \<and> HvIS_LINEAR hv"
proof -
  have c: "hv_max_raw hv = 64 + length es" "length es < 64" "i = hv_keys hv" "i < length es"
    "\<forall>j<length es. es ! j \<noteq> None \<longleftrightarrow> j < i" "lazy_in hv 0"
    using r a by (auto simp: room_def)
  have l: "HvIS_LINEAR hv" using HvMAX_linear(1) [OF c(1,2)] .
  have a': "hv_array hv' = Linear (es[i := Some e])" "HvIS_LINEAR hv'"
    using entry_set_array(1) [OF a] l by (simp_all add: hv'_def)
  have k: "hv_keys hv' = Suc i" "hv_max_raw hv' = 64 + length es" "lazy_in hv' 0" using c by (simp_all add: hv'_def)
  have "linear_shape hv' (es[i := Some e])"
    using c k by (auto simp: linear_shape_def nth_list_update less_Suc_eq)
  moreover have "hv_list hv' = List.map_filter (\<lambda>j. es ! j) [0..<i] @ [e]"
    unfolding linear_list [OF a'] k(1) map_filter_upt_Suc using c(4)
    by (simp, intro map_filter_cong) simp
  moreover have "HvENTRIES hv' ! i = Some e" using a'(1) c(4) by (simp add: HvENTRIES_def)
  ultimately show ?thesis using linear_list [OF a l] c(3) a' l by (simp add: hv_shape_def)
qed

lemma fill_indexed:
  fixes hv :: "'v hv" and e :: "'v he"
  assumes r: "room hv i" and a: "hv_array hv = Indexed oa"
  defines "hv' \<equiv> (oa_index_insert (entry_set hv i (Some e)) i (hek_hash (he_hek e)))\<lparr>hv_keys := hv_keys hv + 1\<rparr>"
  shows "hv_shape hv' \<and> hv_list hv' = hv_list hv @ [e] \<and> HvENTRIES hv' ! i = Some e \<and> \<not> HvIS_LINEAR hv \<and>
    hv_flags hv' = hv_flags (hv\<lparr>hv_keys := hv_keys hv + 1\<rparr>) \<and> hv_aux hv' = hv_aux hv"
proof -
  have c: "oa_shape hv oa" "oa_indexed hv oa" "oa_used oa = i + 1" "oa_entries oa ! i = None" "lazy_in hv i"
    "hv_keys hv < OA_ENTRY_CAPACITY (HvMAX hv + 1)"
    using r a by (simp_all add: room_def oa_good_def)
  note f = Indexed_facts [OF a c(1)]
  let ?hv1 = "entry_set hv i (Some e)" and ?oa1 = "oa\<lparr>oa_entries := (oa_entries oa)[i := Some e]\<rparr>"
  have ic: "i < oa_capacity oa" "i < length (oa_entries oa)" using c(1,3) by (simp_all add: oa_shape_def)
  have nl: "\<not> (hv_lazydel hv \<and> HvEITER_get hv = EntryAt i)" using c(5) by (auto simp: lazy_in_def)
  have first: "HvENTRY_FIRST ?hv1 j = (if j = i then Some e else HvENTRY_FIRST hv j)" for j
    using entry_set_first [of hv i "Some e" j] f(4,6) ic(2) nl by simp
  have no: "HvENTRY_FIRST hv i = None" using c(4) f(1,4) by (simp add: HvENTRY_FIRST_def)
  have lim: "HvENTRY_LIMIT hv = Suc i" using f(3) c(3) by simp
  have a1: "hv_array ?hv1 = Indexed ?oa1" using entry_set_array(2) [OF a] .
  have sh1: "oa_shape ?hv1 ?oa1" using oa_shape_set [OF a c(1)] c(3) by simp
  have hn: "he_home hv i = None" using no by (simp add: he_home_def)
  have ci: "index_ok (oa_indices oa) (oa_capacity oa) (HvMAX hv + 1)"
    "chains_ok (HvOA_INDEX_GET hv) (HvMAX hv + 1) (oa_capacity oa) (he_home hv)"
    using c(2) by (simp_all add: oa_indexed_def)
  have raw: "hv_max_raw hv < 64" using c(1) by (simp add: oa_shape_def)
  obtain ix where ix: "oa_index_insert ?hv1 i (hek_hash (he_hek e)) = with_index ?hv1 ?oa1 ix"
    "index_ok ix (oa_capacity oa) (HvMAX hv + 1)"
    "chains_ok (hv_oa_index_get ix (oa_capacity oa) (HvMAX hv + 1)) (HvMAX hv + 1) (oa_capacity oa)
      ((he_home hv)(i \<mapsto> unat (hek_hash (he_hek e)) mod (HvMAX hv + 1)))"
    using oa_index_insert_ok [OF a1, of "he_home hv" i "hek_hash (he_hek e)"] ci raw hn ic(1) f(1) by auto
  let ?hv2 = "with_index ?hv1 ?oa1 ix"
  have "(he_home hv)(i \<mapsto> unat (hek_hash (he_hek e)) mod (HvMAX hv + 1)) = he_home ?hv1"
    using lim by (auto simp: he_home_def first fun_eq_iff)
  then have ind: "oa_indexed ?hv2 (?oa1\<lparr>oa_indices := ix\<rparr>)"
    using oa_indexed_with [OF a1, of ix] ix(2,3) by simp
  have sh2: "oa_shape ?hv2 (?oa1\<lparr>oa_indices := ix\<rparr>)" using with_index_same(7) [OF a1] sh1 by blast
  have nlin: "\<not> HvIS_LINEAR ?hv2" using with_index_same(1) [OF a1] f(1) by simp
  have "hv_list ?hv1 = List.map_filter (HvENTRY_FIRST ?hv1) [0..<i] @ [e]"
    unfolding hv_list_def entry_set_sel(13) lim map_filter_upt_Suc by (simp add: first)
  also have "List.map_filter (HvENTRY_FIRST ?hv1) [0..<i] = hv_list hv"
    unfolding hv_list_def lim map_filter_upt_Suc no by (simp, intro map_filter_cong) (simp add: first)
  finally have L: "hv_list ?hv2 = hv_list hv @ [e]" using with_index_same(3) [OF a1] by simp
  have e: "hv' = ?hv2\<lparr>hv_keys := hv_keys hv + 1\<rparr>" by (simp add: hv'_def ix(1))
  have "hv_keys hv + 1 \<le> OA_ENTRY_CAPACITY (HvMAX hv + 1)" using c(6) by simp
  then have "oa_shape hv' (?oa1\<lparr>oa_indices := ix\<rparr>)" using sh2 unfolding e oa_shape_def by (simp add: with_index_get)
  moreover have "oa_indexed hv' (?oa1\<lparr>oa_indices := ix\<rparr>)"
    using ind unfolding e oa_indexed_def by (simp add: indexed_keys_update [OF nlin])
  moreover have "hv_array hv' = Indexed (?oa1\<lparr>oa_indices := ix\<rparr>)" by (simp add: e)
  moreover have "HvENTRIES hv' ! i = Some e"
    using ic(2) by (simp add: HvENTRIES_def e)
  ultimately show ?thesis using L f(1) nlin unfolding e
    by (simp add: hv_shape_def indexed_keys_update hv_flags_def) (simp add: with_index_def)
qed

theorem hv_fill_entry_ok:
  assumes r: "room hv i" and ok: "hv_list_ok H hv" and q: "q_hash q = H (q_key q)"
    and new: "(q_key q, q_utf8 q) \<notin> he_key ` set (hv_list hv)" and keys: "hv_keys hv < HV_MAX_KEYS"
  shows "hv_wf H (hv_fill_entry hv i q addr val) \<and> hv_list (hv_fill_entry hv i q addr val) =
    hv_list hv @ [\<lparr>he_hek = new_hek addr q (\<not> hv_sharekeys hv), he_val = val\<rparr>] \<and>
    HvENTRIES (hv_fill_entry hv i q addr val) ! i =
      Some \<lparr>he_hek = new_hek addr q (\<not> hv_sharekeys hv), he_val = val\<rparr> \<and>
    hv_readonly (hv_fill_entry hv i q addr val) = hv_readonly hv"
proof -
  define e where "e = \<lparr>he_hek = new_hek addr q (\<not> hv_sharekeys hv), he_val = val\<rparr>"
  let ?hv1 = "entry_set hv i (Some e)"
  define hv2 where "hv2 = (if \<not> HvIS_LINEAR hv then oa_index_insert ?hv1 i (q_hash q) else ?hv1)"
  define hv3 where "hv3 = hv2\<lparr>hv_keys := hv_keys hv + 1\<rparr>"
  have k: "he_key e = (q_key q, q_utf8 q)" "hek_hash (he_hek e) = q_hash q"
    by (simp_all add: e_def he_key_def new_hek_def)
  have main: "hv_shape hv3 \<and> HvENTRIES hv3 ! i = Some e \<and> hv_list hv3 = hv_list hv @ [e] \<and> hv_keys hv2 = hv_keys hv \<and> hv_aux hv2 = hv_aux hv \<and>
      hv_readonly hv2 = hv_readonly hv"
  proof (cases "hv_array hv")
    case NoArray
    then show ?thesis using r by (simp add: room_def)
  next
    case (Linear es)
    show ?thesis using fill_linear [OF r Linear, of e] by (simp add: hv3_def hv2_def)
  next
    case (Indexed oa)
    note fi = fill_indexed [OF r Indexed, of e]
    have "hv_flags hv3 = hv_flags (hv\<lparr>hv_keys := hv_keys hv + 1\<rparr>)" "hv_aux hv3 = hv_aux hv"
      using fi k(2) by (simp_all add: hv3_def hv2_def)
    moreover have "hv_keys (oa_index_insert x j h) = hv_keys x" for x :: "'a hv" and j h
      by (simp add: oa_index_insert_def HvOA_INDEX_SET_def HvCHAIN_NEXT_SET_def Let_def split: harray.splits)
    ultimately show ?thesis using fi k(2) by (simp add: hv3_def hv2_def hv_flags_def)
  qed
  have fe: "hv_fill_entry hv i q addr val = hv3
      \<lparr>hv_aux := map_option (\<lambda>a. a\<lparr>iter_inserted := (iter_inserted a \<or> xhv_riter a \<noteq> - 1 \<or> iter_active a)\<rparr>) (hv_aux hv3),
       hv_placeholders := hv_placeholders hv3 + of_bool (val = Placeholder),
       hv_haskflags := (hv_haskflags hv3 \<or> q_enable_kflags q)\<rparr>"
    unfolding hv_fill_entry_def Let_def e_def [symmetric] entry_set_def [symmetric] entry_set_sel hv2_def [symmetric]
    using main by (simp add: hv3_def)
  have cong: "hv_list (hv_fill_entry hv i q addr val) = hv_list hv3" "hv_wf H (hv_fill_entry hv i q addr val) = hv_wf H hv3"
    unfolding fe by (rule hv_wf_cong; simp add: HvEITER_get_def split: option.splits)+
  have "hv_list_ok H hv3" using ok main new keys q k
    by (auto simp: hv_list_ok_def hv3_def)
      (auto simp: he_key_def)
  then have "hv_wf H hv3" using main by (simp add: hv_wf_def)
  moreover have "HvENTRIES (hv_fill_entry hv i q addr val) = HvENTRIES hv3" by (simp add: fe HvENTRIES_def)
  ultimately show ?thesis using cong main unfolding e_def [symmetric] by (simp add: fe hv3_def)
qed

section \<open>Fetching and storing\<close>

text \<open>What a store does to the list of live entries: it replaces the entry of the key, or appends one.\<close>

definition list_store :: "'v he \<Rightarrow> 'v he list \<Rightarrow> 'v he list" where
  "list_store e L =
     (if he_key e \<in> he_key ` set L then map (\<lambda>x. if he_key x = he_key e then e else x) L else L @ [e])"

lemma list_store_present:
  assumes "distinct (map he_key (A @ e # B))" "he_key e' = he_key e"
  shows "list_store e' (A @ e # B) = A @ e' # B"
proof -
  have "map (\<lambda>x. if he_key x = he_key e then e' else x) A = A" "map (\<lambda>x. if he_key x = he_key e then e' else x) B = B"
    using assms(1) by (auto intro!: map_idI) (metis image_eqI)+
  then show ?thesis using assms(2) by (simp add: list_store_def)
qed

lemma list_store_map:
  assumes "distinct (map he_key L)"
  shows "list_map (list_store e L) = (list_map L)(he_key e \<mapsto> he_val e)"
proof (cases "he_key e \<in> he_key ` set L")
  case True
  then obtain d where d: "d \<in> set L" "he_key e = he_key d" by auto
  then obtain A B where L: "L = A @ d # B" by (auto simp: in_set_conv_decomp)
  show ?thesis using list_store_present [of A d B e] list_map_change [of A d B e] assms d(2) by (simp add: L)
next
  case False
  then show ?thesis by (simp add: list_store_def list_map_append)
qed

lemma list_store_keys:
  "map he_key (list_store e L) = (if he_key e \<in> he_key ` set L then map he_key L else map he_key L @ [he_key e])"
  by (simp add: list_store_def)

lemma list_store_twice: "he_key e = he_key e' \<Longrightarrow> list_store e' (list_store e L) = list_store e' L"
proof -
  assume k: "he_key e = he_key e'"
  show ?thesis
  proof (cases "he_key e \<in> he_key ` set L")
    case True
    have "set (map he_key (list_store e L)) = set (map he_key L)" unfolding list_store_keys using True by simp
    then have "he_key e' \<in> he_key ` set (list_store e L)" using True k by simp
    then have 1: "list_store e' (list_store e L) = map (\<lambda>x. if he_key x = he_key e' then e' else x) (list_store e L)"
      by (simp only: list_store_def if_True)
    have 2: "list_store e L = map (\<lambda>x. if he_key x = he_key e then e else x) L" using True by (simp only: list_store_def if_True)
    have 3: "map (\<lambda>x. if he_key x = he_key e' then e' else x) (map (\<lambda>x. if he_key x = he_key e then e else x) L) = list_store e' L"
      using True k by (simp add: list_store_def)
    show ?thesis unfolding 1 unfolding 2 by (rule 3)
  next
    case False
    then have "map (\<lambda>x. if he_key x = he_key e' then e' else x) L = L" using k by (intro map_idI) (auto simp: image_iff)
    then show ?thesis using False k by (simp add: list_store_def)
  qed
qed

text \<open>One step of \<open>found\<close>: a live entry is replaced by one with the same key.\<close>

definition entry_step :: "(bytes \<Rightarrow> u32) \<Rightarrow> 'v hv \<Rightarrow> 'v hv \<Rightarrow> nat \<Rightarrow> 'v he \<Rightarrow> bool" where
  "entry_step H hv hv' i e' \<longleftrightarrow> hv_wf H hv' \<and> i < HvENTRY_LIMIT hv' \<and> HvENTRY_FIRST hv' i = Some e' \<and>
     hv_list hv' = list_store e' (hv_list hv) \<and> hv_readonly hv' = hv_readonly hv"

lemma entry_step_refl:
  assumes "hv_wf H hv" "i < HvENTRY_LIMIT hv" "HvENTRY_FIRST hv i = Some e"
  shows "entry_step H hv hv i e"
proof -
  have "e \<in> set (hv_list hv)" using assms(2,3) in_hv_list by auto
  then obtain A B where L: "hv_list hv = A @ e # B" by (auto simp: in_set_conv_decomp)
  have "distinct (map he_key (hv_list hv))" using assms(1) by (simp add: hv_wf_def hv_list_ok_def)
  then have "list_store e (hv_list hv) = hv_list hv" using list_store_present [of A e B e] by (simp add: L)
  then show ?thesis using assms by (simp add: entry_step_def)
qed

lemma entry_step_update:
  assumes s: "entry_step H hv hv1 i e1"
    and f: "he_key (f e1) = he_key e1" "hek_hash (he_hek (f e1)) = hek_hash (he_hek e1)"
    and hv': "hv_array hv' = hv_array (he_update hv1 i f)" "hv_max_raw hv' = hv_max_raw hv1" "hv_keys hv' = hv_keys hv1"
      "hv_lazydel hv' = hv_lazydel hv1" "hv_aux hv' = hv_aux hv1" "hv_readonly hv' = hv_readonly hv1"
  shows "entry_step H hv hv' i (f e1)"
proof -
  have wf: "hv_wf H hv1" and i: "i < HvENTRY_LIMIT hv1" "HvENTRY_FIRST hv1 i = Some e1"
    using s by (simp_all add: entry_step_def)
  have u: "he_update hv1 i f = entry_set hv1 i (Some (f e1))"
    using HvENTRY_FIRST_entries [OF i(2)] by (simp add: he_update_set)
  let ?hv = "entry_set hv1 i (Some (f e1))"
  note w = entry_set_wf [OF wf i f]
  obtain A B where AB: "hv_list hv1 = A @ e1 # B" "hv_list ?hv = A @ f e1 # B" using w(2) by blast
  have d: "distinct (map he_key (A @ e1 # B))" using wf unfolding hv_wf_def hv_list_ok_def AB(1) by blast
  have c: "hv_list hv' = hv_list ?hv" "hv_wf H hv' = hv_wf H ?hv"
    by (rule hv_wf_cong; simp add: hv' u HvEITER_get_def)+
  have "hv_list ?hv = list_store (f e1) (hv_list hv1)" using list_store_present [OF d f(1)] AB by simp
  also have "\<dots> = list_store (f e1) (hv_list hv)"
    using s f(1) by (simp add: entry_step_def list_store_twice)
  finally have L: "hv_list ?hv = list_store (f e1) (hv_list hv)" .
  have l: "HvIS_LINEAR hv' = HvIS_LINEAR ?hv" by (rule HvIS_LINEAR_cong) (simp add: hv')
  have "HvENTRIES hv' = HvENTRIES ?hv" "HvEITER_get hv' = HvEITER_get ?hv"
    using hv' u by (simp_all add: HvENTRIES_def HvEITER_get_def)
  then have "HvENTRY_FIRST hv' i = HvENTRY_FIRST ?hv i" using l hv' by (simp add: HvENTRY_FIRST_def)
  moreover have "HvENTRY_LIMIT hv' = HvENTRY_LIMIT ?hv" using l hv' u by (simp add: HvENTRY_LIMIT_def)
  ultimately show ?thesis using c L w i s hv' by (simp add: entry_step_def)
qed

definition found_val :: "'v action \<Rightarrow> 'v hval \<Rightarrow> 'v hval" where
  "found_val act old = (case act of Store v \<Rightarrow> v | Lvalue v _ \<Rightarrow> if old = Placeholder then SV v else old | _ \<Rightarrow> old)"

lemma swap_hek_key:
  "hek_key (he_hek e) = q_key q \<Longrightarrow> hek_utf8 (he_hek e) = q_utf8 q \<Longrightarrow> hek_hash (he_hek e) = q_hash q \<Longrightarrow>
   he_key (e\<lparr>he_hek := swap_hek addr q (he_hek e)\<rparr>) = he_key e \<and>
   hek_hash (he_hek (e\<lparr>he_hek := swap_hek addr q (he_hek e)\<rparr>)) = hek_hash (he_hek e)"
  by (simp add: he_key_def swap_hek_def new_hek_def)

lemma hv_found_ok:
  assumes wf: "hv_wf H hv" and q: "q_hash q = H (q_key q)"
    and i: "i < HvENTRY_LIMIT hv" "HvENTRY_FIRST hv i = Some e" and k: "he_key e = (q_key q, q_utf8 q)"
    and st: "stores act"
  shows "\<exists>hv' e'. hv_found hv i q addr act = (hv', True) \<and> entry_step H hv hv' i e' \<and> he_key e' = he_key e \<and>
    he_val e' = found_val act (he_val e)"
proof -
  have ent: "HvENTRIES hv ! i = Some e" using HvENTRY_FIRST_entries [OF i(2)] .
  have hh: "hek_hash (he_hek e) = q_hash q"
  proof -
    have "e \<in> set (hv_list hv)" using i in_hv_list by blast
    then have "hek_hash (he_hek e) = H (hek_key (he_hek e))" using wf by (simp add: hv_wf_def hv_list_ok_def)
    then show ?thesis using k q by (simp add: he_key_def)
  qed
  have kk: "hek_key (he_hek e) = q_key q" "hek_utf8 (he_hek e) = q_utf8 q" using k by (simp_all add: he_key_def)
  define hv1 where "hv1 = (if hek_wasutf8 (he_hek e) \<noteq> q_wasutf8 q
                   then (he_update hv i (\<lambda>e. e\<lparr>he_hek := swap_hek addr q (he_hek e)\<rparr>))
                     \<lparr>hv_haskflags := (hv_haskflags hv \<or> q_enable_kflags q)\<rparr>
                   else hv)"
  obtain e1 where s1: "entry_step H hv hv1 i e1" "he_key e1 = he_key e" "he_val e1 = he_val e"
  proof (cases "hek_wasutf8 (he_hek e) \<noteq> q_wasutf8 q")
    case True
    have "entry_step H hv hv1 i (e\<lparr>he_hek := swap_hek addr q (he_hek e)\<rparr>)"
      using entry_step_update [OF entry_step_refl [OF wf i], of "\<lambda>e. e\<lparr>he_hek := swap_hek addr q (he_hek e)\<rparr>" hv1]
        swap_hek_key [OF kk hh] True by (simp add: hv1_def he_update_set)
    then show ?thesis using that swap_hek_key [OF kk hh, of addr] by simp
  next
    case False
    then have "hv1 = hv" by (simp add: hv1_def)
    then show ?thesis using that [of e] entry_step_refl [OF wf i] by simp
  qed
  have upd: "entry_step H hv hv' i (e1\<lparr>he_val := v\<rparr>)"
    if "hv_array hv' = hv_array (he_update hv1 i (\<lambda>e. e\<lparr>he_val := v\<rparr>))" "hv_max_raw hv' = hv_max_raw hv1"
      "hv_keys hv' = hv_keys hv1" "hv_lazydel hv' = hv_lazydel hv1" "hv_aux hv' = hv_aux hv1" "hv_readonly hv' = hv_readonly hv1"
    for hv' v
    using entry_step_update [OF s1(1), of "\<lambda>e. e\<lparr>he_val := v\<rparr>" hv'] that by (simp add: he_key_def)
  have kv: "he_key (e1\<lparr>he_val := v\<rparr>) = he_key e" for v using s1(2) by (simp add: he_key_def)
  have fnd: "hv_found hv i q addr act = (if he_val e = Placeholder then
              case act of
                Lvalue v empty_he \<Rightarrow>
                  ((he_update hv1 i (\<lambda>e. e\<lparr>he_val := SV v\<rparr>))\<lparr>hv_placeholders := hv_placeholders hv1 - 1\<rparr>, True)
              | Store val \<Rightarrow>
                  ((he_update hv1 i (\<lambda>e. e\<lparr>he_val := val\<rparr>))
                     \<lparr>hv_placeholders := hv_placeholders hv1 - of_bool (val \<noteq> Placeholder)\<rparr>, True)
              | _ \<Rightarrow> (hv1, True)
            else
              case act of
                Store val \<Rightarrow> (he_update hv1 i (\<lambda>e. e\<lparr>he_val := val\<rparr>), True)
              | _ \<Rightarrow> (hv1, True))"
    unfolding hv_found_def ent Let_def option.case hv1_def [symmetric] using st by (simp only: if_True)
  consider (store) v where "act = Store v" | (lval) v b where "act = Lvalue v b"
    using st by (cases act) (auto simp: stores_def)
  then show ?thesis
  proof cases
    case store
    let ?r = "if he_val e = Placeholder then (he_update hv1 i (\<lambda>e. e\<lparr>he_val := v\<rparr>))
                     \<lparr>hv_placeholders := hv_placeholders hv1 - of_bool (v \<noteq> Placeholder)\<rparr>
              else he_update hv1 i (\<lambda>e. e\<lparr>he_val := v\<rparr>)"
    have "entry_step H hv ?r i (e1\<lparr>he_val := v\<rparr>)" by (rule upd) (simp_all add: he_update_set)
    moreover have "hv_found hv i q addr act = (?r, True)" unfolding fnd unfolding store by simp
    ultimately show ?thesis using kv [of v] by (intro exI [of _ ?r] exI [of _ "e1\<lparr>he_val := v\<rparr>"]) (simp add: store found_val_def)
  next
    case lval
    show ?thesis
    proof (cases "he_val e = Placeholder")
      case True
      let ?r = "(he_update hv1 i (\<lambda>e. e\<lparr>he_val := SV v\<rparr>))\<lparr>hv_placeholders := hv_placeholders hv1 - 1\<rparr>"
      have "entry_step H hv ?r i (e1\<lparr>he_val := SV v\<rparr>)" by (rule upd) (simp_all add: he_update_set)
      then show ?thesis using kv [of "SV v"] True
        by (intro exI [of _ ?r] exI [of _ "e1\<lparr>he_val := SV v\<rparr>"], unfold fnd, unfold lval) (simp add: found_val_def)
    next
      case False
      then show ?thesis using s1 by (intro exI [of _ hv1] exI [of _ e1], unfold fnd, unfold lval) (simp add: found_val_def)
    qed
  qed
qed

text \<open>The whole of \<open>hv_common\<close>, for a store or a fetch for modification.\<close>

definition stored_val :: "'v action \<Rightarrow> 'v hval option \<Rightarrow> 'v hval" where
  "stored_val act old = (case old of
     Some v \<Rightarrow> found_val act v
   | None \<Rightarrow> (case act of Store v \<Rightarrow> v | Lvalue v empty_he \<Rightarrow> if empty_he then NullSV else SV v | _ \<Rightarrow> NullSV))"

lemma hv_map_at:
  assumes "hv_wf H hv" "i < HvENTRY_LIMIT hv" "HvENTRY_FIRST hv i = Some e"
  shows "hv_map hv (he_key e) = Some (he_val e)"
proof -
  have "e \<in> set (hv_list hv)" using assms(2,3) in_hv_list by blast
  then obtain A B where L: "hv_list hv = A @ e # B" by (auto simp: in_set_conv_decomp)
  have "distinct (map he_key (hv_list hv))" using assms(1) by (simp add: hv_wf_def hv_list_ok_def)
  then show ?thesis using list_map_at [of A e B] by (simp add: hv_map_list L)
qed

theorem hv_store_ok:
  assumes wf: "hv_wf H hv" and q: "query_ok H hv q" and limit: "limit < 64" and st: "stores act"
    and room: "(q_key q, q_utf8 q) \<in> he_key ` set (hv_list hv) \<or> \<not> hv_readonly hv \<and> hv_keys hv < HV_MAX_KEYS"
  shows "\<exists>hv' i e. hv_common limit hv q addr act = Inr (hv', Some i) \<and> hv_wf H hv' \<and>
    HvENTRIES hv' ! i = Some e \<and> he_key e = (q_key q, q_utf8 q) \<and> he_val e = stored_val act (hv_map hv (q_key q, q_utf8 q)) \<and>
    hv_list hv' = list_store e (hv_list hv) \<and> hv_readonly hv' = hv_readonly hv"
proof -
  let ?k = "(q_key q, q_utf8 q)"
  obtain hv1 where p: "hv_prepare limit hv = Inr hv1" "hv_wf H hv1" "hv_same hv hv1"
    "hv_array hv1 = NoArray \<longrightarrow> hv_max_raw hv1 = 64"
    using hv_prepare_ok [OF wf] by blast
  have s: "hv_list hv1 = hv_list hv" "hv_keys hv1 = hv_keys hv" "hv_readonly hv1 = hv_readonly hv"
    using p(3) by (simp_all add: hv_same_def)
  have q1: "query_ok H hv1 q" and qh: "q_hash q = H (q_key q)" using q s(1) by (simp_all add: query_ok_def)
  obtain r where r: "oa_find hv1 q = Inr r" "case r of
      None \<Rightarrow> \<forall>e\<in>set (hv_list hv1). he_key e \<noteq> ?k
    | Some (i, slot) \<Rightarrow> i < HvENTRY_LIMIT hv1 \<and> (\<exists>e. HvENTRY_FIRST hv1 i = Some e \<and> he_key e = ?k)"
    using oa_find_correct [OF p(2) q1] by (auto split: option.splits prod.splits)
  have c: "hv_common limit hv q addr act = (case r of
            None \<Rightarrow> hv_not_found limit hv1 False q addr act
          | Some (i, slot) \<Rightarrow>
              let (hv, found) = hv_found hv1 i q addr act
              in if found then Inr (hv, Some i) else hv_not_found limit hv True q addr act)"
    using p(1) r(1) st unfolding hv_common_def attempt_def Let_def by (simp split: option.splits prod.splits)
  show ?thesis
  proof (cases r)
    case (Some x)
    obtain i slot where ri: "r = Some (i, slot)" using Some by (cases x) auto
    then obtain e where e: "i < HvENTRY_LIMIT hv1" "HvENTRY_FIRST hv1 i = Some e" "he_key e = ?k" using r(2) by auto
    obtain hv' e' where f: "hv_found hv1 i q addr act = (hv', True)" "entry_step H hv1 hv' i e'"
      "he_key e' = he_key e" "he_val e' = found_val act (he_val e)"
      using hv_found_ok [OF p(2) qh e, OF st, of addr] by blast
    have "HvENTRIES hv' ! i = Some e'" using f(2) HvENTRY_FIRST_entries by (auto simp: entry_step_def)
    moreover have "hv_map hv ?k = Some (he_val e)"
      using hv_map_at [OF p(2) e(1,2)] e(3) s(1) by (simp add: hv_map_def)
    ultimately show ?thesis using c ri f e(3) s by (simp add: entry_step_def stored_val_def)
  next
    case None
    then have no: "?k \<notin> he_key ` set (hv_list hv1)" using r(2) by auto
    then have k: "\<not> hv_readonly hv1" "hv_keys hv1 < HV_MAX_KEYS" using room s by auto
    obtain hv2 where p2: "hv_prepare limit hv1 = Inr hv2" "hv_wf H hv2" "hv_same hv1 hv2"
      "hv_array hv2 = NoArray \<longrightarrow> hv_max_raw hv2 = 64"
      using hv_prepare_ok [OF p(2)] by blast
    have k2: "hv_keys hv2 < HV_MAX_KEYS" using p2(3) k(2) by (simp add: hv_same_def)
    obtain hv3 i where n: "hv_new_entry limit hv2 = Inr (hv3, i)" "room hv3 i" "hv_same hv2 hv3"
      using hv_new_entry_ok [OF p2(2) limit k2 p2(4)] by blast
    have L: "hv_list hv3 = hv_list hv" "hv_keys hv3 = hv_keys hv" "hv_readonly hv3 = hv_readonly hv"
      using n(3) p2(3) p(3) by (simp_all add: hv_same_def)
    have ok: "hv_list_ok H hv3" using wf L by (simp add: hv_wf_def hv_list_ok_def)
    define val where "val = stored_val act None"
    have none: "hv_map hv ?k = None" using no s(1) by (simp add: hv_map_list list_map_None)
    define e where "e = \<lparr>he_hek = new_hek addr q (\<not> hv_sharekeys hv3), he_val = val\<rparr>"
    have ek: "he_key e = ?k" "he_val e = val" by (simp_all add: e_def he_key_def new_hek_def)
    note fl = hv_fill_entry_ok [OF n(2) ok qh, of addr val, folded e_def]
    have "hv_common limit hv q addr act = Inr (hv_fill_entry hv3 i q addr val, Some i)"
      using c None k p2(1) n(1) st by (cases act)
        (simp_all add: hv_not_found_def hv_store_new_def attempt_def val_def stored_val_def stores_def)
    moreover have "list_store e (hv_list hv) = hv_list hv @ [e]" using no s(1) ek(1) by (simp add: list_store_def)
    ultimately show ?thesis using fl no k(2) s L ek none by (simp add: val_def)
  qed
qed

theorem hv_fetch_ok:
  assumes wf: "hv_wf H hv" and q: "query_ok H hv q" and st: "\<not> stores act"
  shows "case hv_map hv (q_key q, q_utf8 q) of
      Some v \<Rightarrow> if v = Placeholder then hv_common limit hv q addr act = Inr (hv, None)
        else (\<exists>i e. hv_common limit hv q addr act = Inr (hv, Some i) \<and> HvENTRIES hv ! i = Some e \<and>
          he_key e = (q_key q, q_utf8 q) \<and> he_val e = v)
    | None \<Rightarrow> hv_common limit hv q addr act =
        (if hv_array hv \<noteq> NoArray \<and> hv_readonly hv \<and> act \<noteq> Exists then Inl AccessDisallowed else Inr (hv, None))"
proof (cases "hv_array hv = NoArray")
  case True
  have "hv_shape hv" using wf by (simp add: hv_wf_def)
  then have "hv_map hv (q_key q, q_utf8 q) = None" using NoArray_list [OF True] by (simp add: hv_map_list list_map_Nil)
  then show ?thesis using True st by (simp add: hv_common_def)
next
  case False
  let ?k = "(q_key q, q_utf8 q)"
  obtain r where r: "oa_find hv q = Inr r" "case r of
      None \<Rightarrow> \<forall>e\<in>set (hv_list hv). he_key e \<noteq> ?k
    | Some (i, slot) \<Rightarrow> i < HvENTRY_LIMIT hv \<and> (\<exists>e. HvENTRY_FIRST hv i = Some e \<and> he_key e = ?k)"
    using oa_find_correct [OF wf q] by (auto split: option.splits prod.splits)
  have c: "hv_common limit hv q addr act = (case r of
            None \<Rightarrow> hv_not_found limit hv False q addr act
          | Some (i, slot) \<Rightarrow>
              let (hv, found) = hv_found hv i q addr act
              in if found then Inr (hv, Some i) else hv_not_found limit hv True q addr act)"
    using False r(1) unfolding hv_common_def hv_prepare_def attempt_def Let_def by (simp split: option.splits prod.splits)
  show ?thesis
  proof (cases r)
    case None
    then have "?k \<notin> he_key ` set (hv_list hv)" using r(2) by auto
    then have "hv_map hv ?k = None" by (simp add: hv_map_list list_map_None)
    then show ?thesis using c None False st by (simp add: hv_not_found_def)
  next
    case (Some x)
    obtain i slot where ri: "r = Some (i, slot)" using Some by (cases x) auto
    then obtain e where e: "i < HvENTRY_LIMIT hv" "HvENTRY_FIRST hv i = Some e" "he_key e = ?k" using r(2) by auto
    have m: "hv_map hv ?k = Some (he_val e)" using hv_map_at [OF wf e(1,2)] e(3) by simp
    have ent: "HvENTRIES hv ! i = Some e" using HvENTRY_FIRST_entries [OF e(2)] .
    have "hv_found hv i q addr act = (hv, he_val e \<noteq> Placeholder)" using ent st by (simp add: hv_found_def)
    then show ?thesis using c ri m ent e(3) st by (simp add: hv_not_found_def)
  qed
qed

section \<open>Deleting\<close>

text \<open>Removing a live entry removes one element of the list.\<close>

definition list_remove :: "bytes \<times> bool \<Rightarrow> 'v he list \<Rightarrow> 'v he list" where
  "list_remove k L = filter (\<lambda>e. he_key e \<noteq> k) L"

lemma list_remove_map: "list_map (list_remove k L) = (list_map L)(k := None)"
  by (induction L) (auto simp: list_remove_def list_map_Nil list_map_Cons fun_eq_iff)

lemma map_filter_entries: "n \<le> length es \<Longrightarrow>
    List.map_filter (\<lambda>i. es ! i) [0..<n] = List.map_filter (\<lambda>x. x) (take n es)"
proof (induction n)
  case (Suc n)
  then show ?case unfolding map_filter_upt_Suc
    by (simp add: take_Suc_conv_app_nth List.map_filter_def split: option.splits)
qed (simp add: List.map_filter_def)

lemma iter_removed_lazy:
  assumes "hv_lazydel hv \<longrightarrow> (\<forall>j. HvEITER_get hv \<noteq> EntryAt j)" "hv_lazydel hv' = hv_lazydel hv"
    "hv_aux hv' = map_option (iter_removed used idx) (hv_aux hv)"
  shows "lazy_in hv' n"
  using assms by (auto simp: lazy_in_def HvEITER_get_def iter_removed_def split: option.splits eiter.splits if_splits)

lemma linear_list_take:
  assumes a: "hv_array hv = Linear es" and s: "linear_shape hv es"
  shows "take (hv_keys hv) es = map Some (hv_list hv)" "length (hv_list hv) = hv_keys hv"
proof -
  note l = Linear_facts [OF a s]
  let ?used = "hv_keys hv" and ?L = "hv_list hv"
  have c: "?used \<le> length es" using s by (simp add: linear_shape_def)
  have "es ! j = Some (the (es ! j))" if "j < ?used" for j using l(6) [OF that] by auto
  then have t: "take ?used es = map Some (map (\<lambda>j. the (es ! j)) [0..<?used])"
    using c by (intro nth_equalityI) auto
  have "?L = List.map_filter (\<lambda>x. x) (take ?used es)"
    using linear_list [OF a l(1)] map_filter_entries [OF c] by simp
  then have "?L = map (\<lambda>j. the (es ! j)) [0..<?used]" by (simp add: t List.map_filter_def comp_def)
  then show "take ?used es = map Some ?L" "length ?L = ?used" using t by simp_all
qed

theorem linear_remove_at_ok:
  assumes a: "hv_array hv = Linear es" and s: "linear_shape hv es" and i: "i < hv_keys hv"
  shows "hv_shape (linear_remove_at hv i) \<and> hv_keys (linear_remove_at hv i) = hv_keys hv - 1 \<and>
    hv_list (linear_remove_at hv i) = take i (hv_list hv) @ drop (i + 1) (hv_list hv) \<and>
    hv_readonly (linear_remove_at hv i) = hv_readonly hv"
proof -
  note l = Linear_facts [OF a s]
  obtain cap where c: "hv_max_raw hv = 64 + cap" "cap < 64" "length es = cap" "hv_keys hv \<le> length es"
    "\<forall>j<length es. es ! j \<noteq> None \<longleftrightarrow> j < hv_keys hv" "lazy_in hv 0"
    using s by (auto simp: linear_shape_def)
  let ?used = "hv_keys hv" and ?L = "hv_list hv"
  define hv1 where "hv1 = hv\<lparr>hv_aux := map_option (iter_removed ?used i) (hv_aux hv)\<rparr>"
  have lz: "lazy_in hv' n" if "hv_lazydel hv' = hv_lazydel hv" "hv_aux hv' = map_option (iter_removed ?used i) (hv_aux hv)"
    for hv' :: "'a hv" and n
    by (rule iter_removed_lazy [OF _ that]) (use c(6) in \<open>auto simp: lazy_in_def\<close>)
  note take = linear_list_take [OF a s]
  show ?thesis
  proof (cases "?used = 1")
    case True
    let ?hv = "HvMAX_SET_LINEAR (hv1\<lparr>hv_array := NoArray, hv_keys := 0\<rparr>) 0"
    have e: "linear_remove_at hv i = ?hv" using True by (simp add: linear_remove_at_def Let_def hv1_def)
    have "lazy_in ?hv 0" by (rule lz) (simp_all add: hv1_def)
    then have sh: "hv_shape ?hv" using HvMAX_SET_LINEAR_raw [of 0 "hv1\<lparr>hv_array := NoArray, hv_keys := 0\<rparr>"] by (simp add: hv_shape_def)
    then have "hv_list ?hv = []" using NoArray_list [of ?hv] by simp
    moreover have "take i ?L @ drop (i + 1) ?L = []" using take(2) True i by simp
    ultimately show ?thesis using e sh True by (simp add: hv1_def)
  next
    case False
    define es1 where "es1 = (take i es @ take (?used - i - 1) (drop (i + 1) es) @ drop (?used - 1) es)[?used - 1 := None]"
    define L' where "L' = take i ?L @ drop (i + 1) ?L"
    have len: "length es1 = length es" using i c(4) by (simp add: es1_def)
    define A where "A = take i es @ take (?used - i - 1) (drop (i + 1) es)"
    have pre: "length A = ?used - 1" using i c(4) by (simp add: A_def)
    have es1: "es1 = (A @ drop (?used - 1) es)[?used - 1 := None]" by (simp add: es1_def A_def)
    have "take (?used - 1) es1 = A" using pre by (simp add: es1)
    also have "\<dots> = take i es @ take (?used - i - 1) (drop (i + 1) es)" by (rule A_def)
    also have "\<dots> = take i (take ?used es) @ drop (i + 1) (take ?used es)"
      using i by (simp add: min_def drop_take)
    also have "\<dots> = map Some L'" by (simp add: take(1) L'_def take_map drop_map)
    finally have T: "take (?used - 1) es1 = map Some L'" .
    have L'len: "length L' = ?used - 1" using i take(2) by (simp add: L'_def)
    have nth: "es1 ! j = (if j < ?used - 1 then Some (L' ! j) else None)" if "j < length es" for j
    proof (cases "j < ?used - 1")
      case True
      then have "es1 ! j = take (?used - 1) es1 ! j" by simp
      also have "\<dots> = Some (L' ! j)" unfolding T using True L'len by simp
      finally show ?thesis using True by simp
    next
      case f: False
      show ?thesis
      proof (cases "j = ?used - 1")
        case True
        then show ?thesis using that i len by (simp add: es1_def)
      next
        case False
        then have "es1 ! j = (A @ drop (?used - 1) es) ! j" by (simp add: es1)
        also have "\<dots> = drop (?used - 1) es ! (j - (?used - 1))" using pre f by (simp add: nth_append)
        also have "\<dots> = es ! j" using f that i c(4) by simp
        also have "\<dots> = None" using c(5) that False f by (metis Suc_diff_1 less_Suc_eq not_gr_zero not_less0)
        finally show ?thesis using f by simp
      qed
    qed
    define es2 where "es2 = (if ?used = 2 then [es1 ! 0] else es1)"
    define hv2 where "hv2 = hv1\<lparr>hv_array := Linear es1, hv_keys := ?used - 1\<rparr>"
    define hv3 where "hv3 = (if ?used = 2 then HvMAX_SET_LINEAR (hv2\<lparr>hv_array := Linear [es1 ! 0]\<rparr>) 1 else hv2)"
    have e: "linear_remove_at hv i = hv3"
      using False l(3) by (simp add: linear_remove_at_def Let_def hv3_def hv2_def hv1_def es1_def)
    have r1: "hv_max_raw (HvMAX_SET_LINEAR x (Suc 0)) = 65" for x :: "'a hv" using HvMAX_SET_LINEAR_raw [of 1 x] by simp
    have f3: "hv_array hv3 = Linear es2" "hv_keys hv3 = ?used - 1" "hv_readonly hv3 = hv_readonly hv"
      "hv_max_raw hv3 = 64 + length es2"
      using r1 c(1,3) len by (simp_all add: hv3_def hv2_def hv1_def es2_def)
    have lz3: "lazy_in hv3 0" by (rule lz) (simp_all add: hv3_def hv2_def hv1_def)
    have len2: "length es2 < 64" "?used - 1 \<le> length es2" "0 < ?used - 1"
      using c(2-4) len False i by (auto simp: es2_def)
    have nth2: "es2 ! j = (if j < ?used - 1 then Some (L' ! j) else None)" if "j < length es2" for j
    proof -
      have "es \<noteq> []" using c(4) i by auto
      then show ?thesis using nth [of j] nth [of 0] that len c(4) i by (auto simp: es2_def split: if_splits)
    qed
    have sh: "linear_shape hv3 es2" using f3 len2 lz3 nth2 by (auto simp: linear_shape_def)
    have "take (?used - 1) es2 = map Some L'" using nth2 len2(2) L'len by (intro nth_equalityI) auto
    then have "hv_list hv3 = L'"
      using linear_list [OF f3(1) Linear_facts(1) [OF f3(1) sh]] map_filter_entries [OF len2(2)] f3(2)
      by (simp add: List.map_filter_def comp_def)
    then show ?thesis using e sh f3 by (simp add: hv_shape_def L'_def)
  qed
qed

lemma list_remove_at:
  assumes "distinct (map he_key (A @ e # B))"
  shows "list_remove (he_key e) (A @ e # B) = A @ B"
  unfolding list_remove_def by (rule remove_key [OF assms, symmetric])

lemma list_remove_nth:
  assumes "distinct (map he_key L)" "i < length L"
  shows "take i L @ drop (i + 1) L = list_remove (he_key (L ! i)) L"
  using list_remove_at [of "take i L" "L ! i" "drop (Suc i) L"] assms id_take_nth_drop [OF assms(2)] by simp

lemma remove_indexed:
  assumes wf: "hv_wf H hv" and a: "hv_array hv = Indexed oa"
    and i: "i < HvENTRY_LIMIT hv" "HvENTRY_FIRST hv i = Some e"
    and ch: "chain (HvOA_INDEX_GET hv) (HvMAX hv + 1) (oa_capacity oa) h (ys @ i # zs)" "h < HvMAX hv + 1"
  defines "hv1 \<equiv> (oa_index_delete hv (link (HvMAX hv + 1) h ys))\<lparr>hv_keys := hv_keys hv - 1\<rparr>"
  defines "hv' \<equiv> (if HvEITER_get hv = EntryAt i then hv1\<lparr>hv_lazydel := True\<rparr>
                  else HvENTRIES_SET hv1 ((HvENTRIES hv1)[i := None]))"
  shows "hv_shape hv' \<and> hv_list hv' = list_remove (he_key e) (hv_list hv) \<and> hv_keys hv' = hv_keys hv - 1 \<and>
    hv_readonly hv' = hv_readonly hv"
proof -
  have sh: "hv_shape hv" and ok: "hv_list_ok H hv" using wf by (simp_all add: hv_wf_def)
  have s: "oa_shape hv oa" "oa_indexed hv oa" using sh a by (simp_all add: hv_shape_def)
  note f = Indexed_facts [OF a s(1)]
  note l = live_entry [OF sh i]
  let ?b = "HvMAX hv + 1" and ?c = "oa_capacity oa"
  have ci: "index_ok (oa_indices oa) ?c ?b" "chains_ok (HvOA_INDEX_GET hv) ?b ?c (he_home hv)"
    using s(2) by (simp_all add: oa_indexed_def)
  obtain ix where ix: "oa_index_delete hv (link ?b h ys) = with_index hv oa ix" "index_ok ix ?c ?b"
    "chains_ok (hv_oa_index_get ix ?c ?b) ?b ?c ((he_home hv)(i := None))"
    using oa_index_delete_ok [OF a ci ch] by blast
  let ?w = "with_index hv oa ix" and ?oa = "oa\<lparr>oa_indices := ix\<rparr>"
  note ws = with_index_same [OF a, of ix]
  have h1: "hv1 = ?w\<lparr>hv_keys := hv_keys hv - 1\<rparr>" unfolding hv1_def ix(1) by (rule refl)
  have nlin: "\<not> HvIS_LINEAR ?w" using ws(1) f(1) by simp
  have wr: "hv_readonly ?w = hv_readonly hv" by (simp add: with_index_def)
  have w1: "HvENTRY_FIRST hv1 = HvENTRY_FIRST hv" "HvENTRY_LIMIT hv1 = HvENTRY_LIMIT hv" "HvMAX hv1 = HvMAX hv"
    "HvEITER_get hv1 = HvEITER_get hv" "hv_lazydel hv1 = hv_lazydel hv" "hv_array hv1 = Indexed ?oa"
    "HvIS_LINEAR hv1 = HvIS_LINEAR hv" "hv_max_raw hv1 = hv_max_raw hv" "hv_aux hv1 = hv_aux hv"
    using ws with_index_first [OF a] indexed_keys_update [OF nlin] by (simp_all add: h1 with_index_get)
  have E1: "HvENTRIES hv1 = oa_entries oa" using w1(6) by (simp add: HvENTRIES_def)
  have G: "HvOA_INDEX_GET hv1 = hv_oa_index_get ix ?c ?b" using index_get_fun [OF w1(6)] w1(3) by simp
  have first: "HvENTRY_FIRST hv' j = (if j = i then None else HvENTRY_FIRST hv j)" for j
  proof (cases "HvEITER_get hv = EntryAt i")
    case True
    then have "hv' = hv1\<lparr>hv_lazydel := True\<rparr>" by (simp add: hv'_def)
    moreover have "HvEITER_get (hv1\<lparr>hv_lazydel := True\<rparr>) = EntryAt i" using True w1(4) by (simp add: HvEITER_get_def)
    moreover have "\<not> hv_lazydel hv" using True l(3) by simp
    ultimately show ?thesis using w1(7) f(1,4) E1 w1(6)
      by (auto simp: HvENTRY_FIRST_def HvIS_LINEAR_def HvENTRIES_def)
  next
    case False
    then have e: "hv' = entry_set hv1 i None" by (simp add: hv'_def entry_set_def)
    show ?thesis unfolding e using entry_set_first [of hv1 i None j] w1 E1 l(2) f(4) False by simp
  qed
  have e': "hv_max_raw hv' = hv_max_raw hv" "hv_keys hv' = hv_keys hv - 1" "hv_readonly hv' = hv_readonly hv"
    "HvEITER_get hv' = HvEITER_get hv" "HvOA_INDEX_GET hv' = HvOA_INDEX_GET hv1"
    "\<exists>es. hv_array hv' = Indexed (?oa\<lparr>oa_entries := es\<rparr>) \<and> (es = oa_entries oa \<or> es = (oa_entries oa)[i := None])"
    using w1(4,6,8,9) E1 wr
    by (auto simp: hv'_def HvENTRIES_SET_def h1 HvEITER_get_def HvOA_INDEX_GET_def fun_eq_iff HvMAX_def HvIS_LINEAR_def
        HvLINEAR_CAP_def intro: exI [of _ "oa_entries oa"])
  then obtain es where es: "hv_array hv' = Indexed (?oa\<lparr>oa_entries := es\<rparr>)" "es = oa_entries oa \<or> es = (oa_entries oa)[i := None]"
    by blast
  have m: "HvMAX hv' = HvMAX hv" "HvIS_LINEAR hv' = HvIS_LINEAR hv"
    by (rule HvMAX_cong HvIS_LINEAR_cong, simp add: e')+
  have lim: "HvENTRY_LIMIT hv' = HvENTRY_LIMIT hv" using m f(1,3) es(1) by (simp add: HvENTRY_LIMIT_def)
  obtain A B where AB: "hv_list hv = A @ e # B" "hv_list hv' = A @ B"
    using hv_list_update [OF i] lim first by (metis append_Nil option.simps(4))
  have "distinct (map he_key (A @ e # B))" using ok unfolding hv_list_ok_def AB(1) by blast
  then have L: "hv_list hv' = list_remove (he_key e) (hv_list hv)" using list_remove_at AB by metis
  have "he_home hv' = (he_home hv)(i := None)" by (auto simp: he_home_def lim first m fun_eq_iff)
  then have "oa_indexed hv' (?oa\<lparr>oa_entries := es\<rparr>)" using ix(2,3) by (simp add: oa_indexed_def e'(5) G m)
  moreover have "lazy_in hv' (oa_used oa)" using s(1) i(1) f(3)
    by (auto simp: oa_shape_def lazy_in_def e'(4)) (auto simp: hv'_def h1 with_index_def HvENTRIES_SET_def split: if_splits harray.splits)
  then have "oa_shape hv' (?oa\<lparr>oa_entries := es\<rparr>)" using s(1) es(2) l(2) f(4)
    by (auto simp: oa_shape_def e' m nth_list_update)
  ultimately show ?thesis using L es(1) e' by (simp add: hv_shape_def)
qed

lemma hv_remove_ok:
  assumes wf: "hv_wf H hv" and i: "i < HvENTRY_LIMIT hv" "HvENTRY_FIRST hv i = Some e"
    and slot: "HvIS_LINEAR hv \<longrightarrow> slot = None"
      "\<not> HvIS_LINEAR hv \<longrightarrow> (\<exists>ys zs h. slot = Some (link (HvMAX hv + 1) h ys) \<and> h < HvMAX hv + 1 \<and>
          chain (HvOA_INDEX_GET hv) (HvMAX hv + 1) (oa_capacity (HvOA hv)) h (ys @ i # zs))"
  shows "hv_wf H (hv_remove hv i slot) \<and> hv_list (hv_remove hv i slot) = list_remove (he_key e) (hv_list hv) \<and>
    hv_readonly (hv_remove hv i slot) = hv_readonly hv"
proof -
  have sh: "hv_shape hv" and ok: "hv_list_ok H hv" using wf by (simp_all add: hv_wf_def)
  note l = live_entry [OF sh i]
  define e1 where "e1 = e\<lparr>he_val := NullSV\<rparr>"
  have k1: "he_key e1 = he_key e" "hek_hash (he_hek e1) = hek_hash (he_hek e)" by (simp_all add: e1_def he_key_def)
  define hv1 where "hv1 = entry_set hv i (Some e1)"
  note w = entry_set_wf [OF wf i k1, folded hv1_def]
  have u: "he_update hv i (\<lambda>e. e\<lparr>he_val := NullSV\<rparr>) = hv1" using l(4) by (simp add: he_update_set hv1_def e1_def)
  have same1: "hv_keys hv1 = hv_keys hv" "HvMAX hv1 = HvMAX hv" "HvIS_LINEAR hv1 = HvIS_LINEAR hv"
    "HvOA_INDEX_GET hv1 = HvOA_INDEX_GET hv" "HvENTRY_LIMIT hv1 = HvENTRY_LIMIT hv" "HvEITER_get hv1 = HvEITER_get hv"
    "hv_readonly hv1 = hv_readonly hv"
    by (simp_all add: hv1_def)
  obtain A B where AB: "hv_list hv = A @ e # B" "hv_list hv1 = A @ e1 # B" using w(2) by blast
  have d: "distinct (map he_key (A @ e # B))" "distinct (map he_key (A @ e1 # B))"
    using ok k1(1) unfolding hv_list_ok_def AB(1) by auto
  have rm: "list_remove (he_key e) (hv_list hv1) = list_remove (he_key e) (hv_list hv)"
    using list_remove_at [OF d(1)] list_remove_at [OF d(2)] k1(1) AB by simp
  define hv2 where "hv2 = (if HvIS_LINEAR hv then linear_remove_at hv1 i
                else
                  let hv = (case slot of Some pos \<Rightarrow> oa_index_delete hv1 pos | None \<Rightarrow> hv1);
                      hv = hv\<lparr>hv_keys := hv_keys hv - 1\<rparr>
                  in if HvEITER_get hv = EntryAt i then hv\<lparr>hv_lazydel := True\<rparr>
                     else HvENTRIES_SET hv ((HvENTRIES hv)[i := None]))"
  have main: "hv_shape hv2 \<and> hv_list hv2 = list_remove (he_key e) (hv_list hv) \<and> hv_keys hv2 = hv_keys hv - 1 \<and>
      hv_readonly hv2 = hv_readonly hv"
  proof (cases "hv_array hv")
    case NoArray
    then show ?thesis using l(1) by simp
  next
    case (Linear es)
    have a1: "hv_array hv1 = Linear (es[i := Some e1])" using entry_set_array(1) [OF Linear] by (simp add: hv1_def)
    have s1: "linear_shape hv1 (es[i := Some e1])" using w(1) a1 by (simp add: hv_wf_def hv_shape_def)
    have lin: "HvIS_LINEAR hv" using Linear_facts(1) [OF Linear] sh Linear by (simp add: hv_shape_def)
    have ik: "i < hv_keys hv1" using i(1) lin same1 by (simp add: HvENTRY_LIMIT_def)
    note t = linear_list_take [OF a1 s1]
    have "HvENTRY_FIRST hv1 i = Some e1" by (rule w(3))
    then have "es[i := Some e1] ! i = Some e1" using Linear_facts(4) [OF a1 s1] by simp
    then have n: "hv_list hv1 ! i = e1"
      using arg_cong [OF t(1), of "\<lambda>xs. xs ! i"] ik t(2) by simp
    have "distinct (map he_key (hv_list hv1))" using d(2) AB(2) by simp
    from list_remove_nth [OF this, of i]
    have "take i (hv_list hv1) @ drop (i + 1) (hv_list hv1) = list_remove (he_key e) (hv_list hv)"
      using ik t(2) n k1(1) rm by simp
    then show ?thesis using linear_remove_at_ok [OF a1 s1 ik] lin same1 by (simp add: hv2_def)
  next
    case (Indexed oa)
    have nl: "\<not> HvIS_LINEAR hv" using Indexed_facts(1) [OF Indexed] sh Indexed by (simp add: hv_shape_def)
    obtain ys zs h where c: "slot = Some (link (HvMAX hv + 1) h ys)" "h < HvMAX hv + 1"
      "chain (HvOA_INDEX_GET hv) (HvMAX hv + 1) (oa_capacity oa) h (ys @ i # zs)"
      using slot(2) nl Indexed by (auto simp: HvOA_def)
    let ?oa1 = "oa\<lparr>oa_entries := (oa_entries oa)[i := Some e1]\<rparr>"
    have a1: "hv_array hv1 = Indexed ?oa1" using entry_set_array(2) [OF Indexed] by (simp add: hv1_def)
    have i1: "i < HvENTRY_LIMIT hv1" "HvENTRY_FIRST hv1 i = Some e1" using i(1) same1(5) w(3) by simp_all
    have sel: "hv_keys (oa_index_delete hv1 p) = hv_keys hv1 \<and> HvEITER_get (oa_index_delete hv1 p) = HvEITER_get hv1" for p
      by (simp add: oa_index_delete_def Let_def HvCHAIN_NEXT_SET_def HvOA_INDEX_SET_def HvEITER_get_def split: harray.splits)
    have c1: "chain (HvOA_INDEX_GET hv1) (HvMAX hv1 + 1) (oa_capacity ?oa1) h (ys @ i # zs)" "h < HvMAX hv1 + 1"
      using c(2,3) same1 by simp_all
    let ?d = "(oa_index_delete hv1 (link (HvMAX hv + 1) h ys))\<lparr>hv_keys := hv_keys hv - 1\<rparr>"
    have e2: "hv2 = (if HvEITER_get hv = EntryAt i then ?d\<lparr>hv_lazydel := True\<rparr>
        else HvENTRIES_SET ?d ((HvENTRIES ?d)[i := None]))"
      unfolding hv2_def Let_def c(1) option.case using nl sel [of "link (HvMAX hv + 1) h ys"] same1 by simp
    show ?thesis unfolding e2 by (rule remove_indexed [OF w(1) a1 i1 c1, unfolded same1 k1(1) rm])
  qed
  have "hv_remove hv i slot = (if hv_keys hv2 = 0 then hv2\<lparr>hv_haskflags := False\<rparr> else hv2)"
    unfolding hv_remove_def Let_def u same1 hv2_def by simp
  moreover have "hv2\<lparr>hv_haskflags := hv_haskflags hv2\<rparr> = hv2" by (cases hv2) simp
  ultimately have "\<exists>b. hv_remove hv i slot = hv2\<lparr>hv_haskflags := b\<rparr>" by metis
  then obtain b where r: "hv_remove hv i slot = hv2\<lparr>hv_haskflags := b\<rparr>" by blast
  have "hv_list_ok H hv2"
  proof -
    have "length (list_remove (he_key e) (hv_list hv)) = hv_keys hv - 1"
      using list_remove_at [OF d(1)] ok AB(1) by (auto simp: hv_list_ok_def)
    then show ?thesis using main ok by (auto simp: hv_list_ok_def list_remove_def distinct_map_filter)
  qed
  then have "hv_wf H hv2" using main by (simp add: hv_wf_def)
  moreover have "hv_list (hv2\<lparr>hv_haskflags := b\<rparr>) = hv_list hv2" "hv_wf H (hv2\<lparr>hv_haskflags := b\<rparr>) = hv_wf H hv2"
    by (rule hv_wf_cong; simp add: HvEITER_get_def)+
  ultimately show ?thesis using main r by simp
qed

text \<open>The whole of \<open>S_hv_delete_common\<close> on an ordinary hash.\<close>

theorem hv_delete_ok:
  assumes wf: "hv_wf H hv" and q: "query_ok H hv q"
  shows "case hv_map hv (q_key q, q_utf8 q) of
      None \<Rightarrow> hv_delete_common sv_readonly hv q =
        (if hv_readonly hv \<and> hv_keys hv \<noteq> 0 then Inl DeletionDisallowed else Inr (hv, None))
    | Some v \<Rightarrow>
        if v = Placeholder then hv_delete_common sv_readonly hv q = Inr (hv, None)
        else if hv_readonly hv \<and> (case v of SV x \<Rightarrow> sv_readonly x | _ \<Rightarrow> False)
          then hv_delete_common sv_readonly hv q = Inl ReadOnlyDeletion
        else (\<exists>hv'. hv_delete_common sv_readonly hv q = Inr (hv', Some v) \<and> hv_wf H hv' \<and>
          hv_readonly hv' = hv_readonly hv \<and>
          (if hv_readonly hv
           then (\<exists>e. he_key e = (q_key q, q_utf8 q) \<and> he_val e = Placeholder \<and> hv_list hv' = list_store e (hv_list hv))
           else hv_list hv' = list_remove (q_key q, q_utf8 q) (hv_list hv)))"
proof -
  let ?k = "(q_key q, q_utf8 q)"
  obtain r where r: "oa_find hv q = Inr r" "case r of
      None \<Rightarrow> \<forall>e\<in>set (hv_list hv). he_key e \<noteq> ?k
    | Some (i, slot) \<Rightarrow> i < HvENTRY_LIMIT hv \<and> (\<exists>e. HvENTRY_FIRST hv i = Some e \<and> he_key e = ?k) \<and>
        (HvIS_LINEAR hv \<longrightarrow> slot = None) \<and>
        (\<not> HvIS_LINEAR hv \<longrightarrow> (\<exists>ys zs h. slot = Some (link (HvMAX hv + 1) h ys) \<and> h < HvMAX hv + 1 \<and>
          chain (HvOA_INDEX_GET hv) (HvMAX hv + 1) (oa_capacity (HvOA hv)) h (ys @ i # zs)))"
    using oa_find_correct [OF wf q] by blast
  have len: "length (hv_list hv) = hv_keys hv" using wf by (simp add: hv_wf_def hv_list_ok_def)
  show ?thesis
  proof (cases "hv_map hv ?k")
    case None
    then have no: "?k \<notin> he_key ` set (hv_list hv)" by (simp add: hv_map_list list_map_None)
    have "r = None"
    proof (rule ccontr)
      assume "r \<noteq> None"
      then obtain i slot e where "i < HvENTRY_LIMIT hv" "HvENTRY_FIRST hv i = Some e" "he_key e = ?k"
        using r(2) by auto
      then show False using no in_hv_list [of e hv] by force
    qed
    then show ?thesis using None r(1) by (simp add: hv_delete_common_def attempt_def)
  next
    case (Some v)
    have ne: "hv_keys hv \<noteq> 0"
    proof
      assume "hv_keys hv = 0"
      then have "hv_list hv = []" using len by simp
      then show False using Some by (simp add: hv_map_list list_map_Nil)
    qed
    have "?k \<in> he_key ` set (hv_list hv)" using Some list_map_None [of "hv_list hv" ?k] by (auto simp: hv_map_list)
    then obtain i slot where ri: "r = Some (i, slot)" using r(2) by (cases r) force+
    then obtain e where e: "i < HvENTRY_LIMIT hv" "HvENTRY_FIRST hv i = Some e" "he_key e = ?k"
      "HvIS_LINEAR hv \<longrightarrow> slot = None"
      "\<not> HvIS_LINEAR hv \<longrightarrow> (\<exists>ys zs h. slot = Some (link (HvMAX hv + 1) h ys) \<and> h < HvMAX hv + 1 \<and>
          chain (HvOA_INDEX_GET hv) (HvMAX hv + 1) (oa_capacity (HvOA hv)) h (ys @ i # zs))"
      using r(2) by auto
    have v: "he_val e = v" using hv_map_at [OF wf e(1,2)] e(3) Some by simp
    have ent: "HvENTRIES hv ! i = Some e" using HvENTRY_FIRST_entries [OF e(2)] .
    have c: "hv_delete_common sv_readonly hv q =
        (if v = Placeholder then Inr (hv, None)
         else if hv_readonly hv \<and> (case v of SV x \<Rightarrow> sv_readonly x | _ \<Rightarrow> False) then Inl ReadOnlyDeletion
         else if hv_readonly hv then
              Inr ((he_update hv i (\<lambda>e. e\<lparr>he_val := Placeholder\<rparr>))
                     \<lparr>hv_placeholders := hv_placeholders hv + 1\<rparr>, Some v)
         else Inr (hv_remove hv i slot, Some v))"
      using ne r(1) ri ent v by (simp add: hv_delete_common_def attempt_def Let_def)
    show ?thesis
    proof (cases "v = Placeholder \<or> hv_readonly hv \<and> (case v of SV x \<Rightarrow> sv_readonly x | _ \<Rightarrow> False)")
      case True
      then show ?thesis using c Some by auto
    next
      case False
      show ?thesis
      proof (cases "hv_readonly hv")
        case True
        let ?hv = "(he_update hv i (\<lambda>e. e\<lparr>he_val := Placeholder\<rparr>))\<lparr>hv_placeholders := hv_placeholders hv + 1\<rparr>"
        have "entry_step H hv ?hv i (e\<lparr>he_val := Placeholder\<rparr>)"
          by (rule entry_step_update [OF entry_step_refl [OF wf e(1,2)]]) (simp_all add: he_update_set he_key_def)
        moreover have "he_key (e\<lparr>he_val := Placeholder\<rparr>) = ?k" using e(3) by (simp add: he_key_def)
        ultimately have "\<exists>hv'. hv_delete_common sv_readonly hv q = Inr (hv', Some v) \<and> hv_wf H hv' \<and>
          hv_readonly hv' = hv_readonly hv \<and>
          (\<exists>e. he_key e = ?k \<and> he_val e = Placeholder \<and> hv_list hv' = list_store e (hv_list hv))"
          using c False True
          by (intro exI [of _ ?hv]) (simp add: entry_step_def, intro exI [of _ "e\<lparr>he_val := Placeholder\<rparr>"], simp)
        then show ?thesis using Some False True by auto
      next
        case nr: False
        have "hv_delete_common sv_readonly hv q = Inr (hv_remove hv i slot, Some v)" using c False nr by simp
        moreover note hv_remove_ok [OF wf e(1,2,4,5)]
        ultimately show ?thesis using Some False nr e(3) by auto
      qed
    qed
  qed
qed

end
