(* ===== verification/Hv_Props.thy ===== *)
theory Hv_Props
  imports Hv_Store
begin

text \<open>
  What the operations of an ordinary hash promise: each refines an operation on a finite map, and
  so does every sequence of them.
\<close>

section \<open>The contract of a keyed store\<close>

text \<open>
  What callers of \<open>hv_store\<close>, \<open>hv_fetch\<close> and \<open>hv_delete\<close> rely on.  Operations may fail;
  within the capacity they do not.
\<close>

datatype ('k, 'v) map_op = Put 'k 'v | Del 'k

definition apply_op :: "('k \<Rightarrow> 'v option) \<Rightarrow> ('k, 'v) map_op \<Rightarrow> ('k \<Rightarrow> 'v option)" where
  "apply_op m p = (case p of Put k v \<Rightarrow> m(k \<mapsto> v) | Del k \<Rightarrow> m(k := None))"

fun run_ops :: "('s \<Rightarrow> ('k, 'v) map_op \<Rightarrow> 'e + 's) \<Rightarrow> 's \<Rightarrow> ('k, 'v) map_op list \<Rightarrow> 'e + 's" where
  "run_ops step s [] = Inr s"
| "run_ops step s (p # ps) = attempt (step s p) (\<lambda>s. run_ops step s ps)"

locale map_store =
  fixes inv :: "'s \<Rightarrow> bool" and lookup :: "'s \<Rightarrow> 'k \<Rightarrow> 'v option" and used :: "'s \<Rightarrow> nat" and limit :: nat
    and step :: "'s \<Rightarrow> ('k, 'v) map_op \<Rightarrow> 'e + 's"
  assumes step_ok: "inv s \<Longrightarrow> used s < limit \<Longrightarrow>
      \<exists>s'. step s p = Inr s' \<and> inv s' \<and> lookup s' = apply_op (lookup s) p \<and> used s' \<le> used s + 1"
begin

lemma run_ok:
  "inv s \<Longrightarrow> used s + length ps \<le> limit \<Longrightarrow>
    \<exists>s'. run_ops step s ps = Inr s' \<and> inv s' \<and> lookup s' = foldl apply_op (lookup s) ps"
proof (induction ps arbitrary: s)
  case (Cons p ps)
  obtain s1 where 1: "step s p = Inr s1" "inv s1" "lookup s1 = apply_op (lookup s) p" "used s1 \<le> used s + 1"
    using step_ok [OF Cons.prems(1), of p] Cons.prems(2) by auto
  from Cons.IH [OF 1(2)] 1(4) Cons.prems(2) obtain s2 where
    "run_ops step s1 ps = Inr s2" "inv s2" "lookup s2 = foldl apply_op (lookup s1) ps" by auto
  then show ?case using 1 by (simp add: attempt_def)
qed simp

end

section \<open>Ordinary hashes as a keyed store\<close>

definition plain_query :: "(bytes \<Rightarrow> u32) \<Rightarrow> bytes \<times> bool \<Rightarrow> query" where
  "plain_query H k = \<lparr>q_hash = H (fst k), q_key = fst k, q_utf8 = snd k, q_wasutf8 = False, q_keyhek = None\<rparr>"

definition hv_step :: "(bytes \<Rightarrow> u32) \<Rightarrow> nat \<Rightarrow> nat \<Rightarrow> ('v \<Rightarrow> bool) \<Rightarrow> 'v hv \<Rightarrow> (bytes \<times> bool, 'v) map_op \<Rightarrow> hv_error + 'v hv" where
  "hv_step H limit addr sv_readonly hv p = (case p of
     Put k v \<Rightarrow> attempt (hv_common limit hv (plain_query H k) addr (Store (SV v))) (\<lambda>(hv, _). Inr hv)
   | Del k \<Rightarrow> attempt (hv_delete_common sv_readonly hv (plain_query H k)) (\<lambda>(hv, _). Inr hv))"

text \<open>What a fetch returns for a key.\<close>

definition hv_lookup :: "'v hv \<Rightarrow> bytes \<times> bool \<Rightarrow> 'v option" where
  "hv_lookup hv k = (case hv_map hv k of Some (SV v) \<Rightarrow> Some v | _ \<Rightarrow> None)"

lemma plain_query_ok: "query_ok H hv (plain_query H k)"
  by (simp add: query_ok_def plain_query_def)

lemma store_map:
  assumes "hv_wf H hv" "hv_list hv' = list_store e (hv_list hv)"
  shows "hv_map hv' = (hv_map hv)(he_key e \<mapsto> he_val e)"
  using list_store_map [of "hv_list hv" e] assms by (simp add: hv_map_list hv_wf_def hv_list_ok_def)

lemma remove_map: "hv_list hv' = list_remove k (hv_list hv) \<Longrightarrow> hv_map hv' = (hv_map hv)(k := None)"
  by (simp add: hv_map_list list_remove_map)

lemma wf_keys: "hv_wf H hv \<Longrightarrow> hv_keys hv = length (hv_list hv)"
  by (simp add: hv_wf_def hv_list_ok_def)

interpretation hv_map: map_store "\<lambda>hv. hv_wf H hv \<and> \<not> hv_readonly hv \<and> limit < 64" hv_lookup hv_keys HV_MAX_KEYS
    "hv_step H limit addr sv_readonly" for H limit addr sv_readonly
proof
  fix hv :: "'a hv" and p :: "(bytes \<times> bool, 'a) map_op"
  assume i: "hv_wf H hv \<and> \<not> hv_readonly hv \<and> limit < 64" and k: "hv_keys hv < HV_MAX_KEYS"
  then have wf: "hv_wf H hv" by simp
  show "\<exists>hv'. hv_step H limit addr sv_readonly hv p = Inr hv' \<and> (hv_wf H hv' \<and> \<not> hv_readonly hv' \<and> limit < 64) \<and>
      hv_lookup hv' = apply_op (hv_lookup hv) p \<and> hv_keys hv' \<le> hv_keys hv + 1"
  proof (cases p)
    case (Put key v)
    obtain hv' j e where r: "hv_common limit hv (plain_query H key) addr (Store (SV v)) = Inr (hv', Some j)" "hv_wf H hv'"
      "he_key e = key" "he_val e = SV v" "hv_list hv' = list_store e (hv_list hv)" "hv_readonly hv' = hv_readonly hv"
      using hv_store_ok [OF wf plain_query_ok [of H hv key], of limit "Store (SV v)" addr] i k
      by (auto simp: stores_def plain_query_def stored_val_def found_val_def split: option.splits)
    have "hv_lookup hv' = apply_op (hv_lookup hv) p"
      using store_map [OF wf r(5)] r(3,4) Put by (auto simp: hv_lookup_def apply_op_def fun_eq_iff)
    moreover have "hv_keys hv' \<le> hv_keys hv + 1"
      using wf_keys [OF wf] wf_keys [OF r(2)] r(5) by (simp add: list_store_def)
    ultimately show ?thesis using r Put i by (simp add: hv_step_def attempt_def)
  next
    case (Del key)
    note d = hv_delete_ok [OF wf plain_query_ok [of H hv key], of sv_readonly]
    have nr: "\<not> hv_readonly hv" using i by simp
    show ?thesis
    proof (cases "hv_map hv key = None \<or> hv_map hv key = Some Placeholder")
      case True
      then have "hv_delete_common sv_readonly hv (plain_query H key) = Inr (hv, None)"
        using d nr by (auto simp: plain_query_def)
      moreover have "hv_lookup hv = apply_op (hv_lookup hv) p"
        using True Del by (auto simp: hv_lookup_def apply_op_def fun_eq_iff)
      ultimately show ?thesis using Del i by (simp add: hv_step_def attempt_def)
    next
      case False
      then obtain hv' x where r: "hv_delete_common sv_readonly hv (plain_query H key) = Inr (hv', Some x)" "hv_wf H hv'"
        "hv_readonly hv' = hv_readonly hv" "hv_list hv' = list_remove key (hv_list hv)"
        using d nr by (auto simp: plain_query_def split: option.splits)
      have "hv_lookup hv' = apply_op (hv_lookup hv) p"
        using remove_map [OF r(4)] Del by (auto simp: hv_lookup_def apply_op_def fun_eq_iff)
      moreover have "hv_keys hv' \<le> hv_keys hv + 1"
        using wf_keys [OF wf] wf_keys [OF r(2)] r(4) by (simp add: list_remove_def le_SucI)
      ultimately show ?thesis using r Del i by (simp add: hv_step_def attempt_def)
    qed
  qed
qed

section \<open>The properties\<close>

text \<open>An example: a new hash, a hash function and two keys.\<close>

definition byte_sum :: "bytes \<Rightarrow> u32" where
  "byte_sum bs = (\<Sum>b\<leftarrow>bs. ucast b)"

definition key_a :: "bytes \<times> bool" where "key_a = ([97], False)"
definition key_b :: "bytes \<times> bool" where "key_b = ([98], False)"

lemma hv_new_wf: "hv_wf H (hv_new :: 'v hv)" and hv_new_list: "hv_list (hv_new :: 'v hv) = []"
proof -
  have sh: "hv_shape (hv_new :: 'v hv)" by (simp add: hv_new_def hv_shape_def lazy_in_def)
  then show l: "hv_list (hv_new :: 'v hv) = []" using NoArray_list [of "hv_new :: 'v hv"] by (simp add: hv_new_def)
  show "hv_wf H (hv_new :: 'v hv)" using sh l by (simp add: hv_wf_def hv_list_ok_def) (simp add: hv_new_def)
qed

lemma hv_new_sel [simp]: "hv_readonly hv_new = False" "hv_keys hv_new = 0" "hv_array hv_new = NoArray"
  by (simp_all add: hv_new_def)

lemma plain_query_key [simp]: "(q_key (plain_query H k), q_utf8 (plain_query H k)) = k"
  by (simp add: plain_query_def)

text \<open>A hash that holds \<open>5\<close> under one key.\<close>

lemma one_entry:
  obtains hv :: "nat hv" and e where "hv_wf byte_sum hv" "\<not> hv_readonly hv" "hv_list hv = [e]" "he_key e = key_a"
    "he_val e = SV 5" "hv_map hv key_a = Some (SV 5)"
proof -
  have "0 < HV_MAX_KEYS" by (simp add: HV_MAX_KEYS_def HV_MAX_BUCKETS_def)
  then obtain hv' :: "nat hv" and e where r: "hv_wf byte_sum hv'" "he_key e = key_a" "hv_readonly hv' = hv_readonly (hv_new :: nat hv)"
      "he_val e = stored_val (Store (SV 5)) (hv_map (hv_new :: nat hv) key_a)" "hv_list hv' = list_store e (hv_list hv_new)"
    using hv_store_ok [of byte_sum "hv_new :: nat hv" "plain_query byte_sum key_a" 8 "Store (SV 5)" 1, OF hv_new_wf plain_query_ok]
    by (auto simp: stores_def)
  have v: "he_val e = SV 5" using r(4) by (simp add: hv_map_list hv_new_list list_map_Nil stored_val_def)
  have l: "hv_list hv' = [e]" using r(5) by (simp add: hv_new_list list_store_def)
  have "hv_map hv' key_a = Some (SV 5)" using store_map [OF hv_new_wf r(5)] r(2) v by simp
  with r(1-3) v l show ?thesis by (intro that) (auto simp: hv_new_def)
qed

text \<open>C10: every sequence of stores and deletions on a hash without restrictions, as long as it
  fits in the maximum number of keys, succeeds, keeps the invariant (packed entries, acyclic
  index chains that hold each live entry once, load factor), and leaves a hash that holds exactly
  what the same sequence leaves in a finite map: linear growth, promotion to an index, index
  resizing, entry growth and compaction are invisible.\<close>

theorem operations_refine_map:
  assumes "hv_wf H hv" "\<not> hv_readonly hv" "limit < 64" "hv_keys hv + length ps \<le> HV_MAX_KEYS"
  shows "\<exists>hv'. run_ops (hv_step H limit addr sv_readonly) hv ps = Inr hv' \<and> hv_wf H hv' \<and>
    hv_lookup hv' = foldl apply_op (hv_lookup hv) ps"
  using hv_map.run_ok [of H hv limit ps addr sv_readonly] assms by blast

theorem operations_refine_map_witness:
  "\<exists>hv'. run_ops (hv_step byte_sum 8 1 (\<lambda>_. False)) (hv_new :: nat hv) [Put key_a 1, Put key_b 2, Del key_a] = Inr hv' \<and>
    hv_wf byte_sum hv' \<and> hv_lookup hv' key_a = None \<and> hv_lookup hv' key_b = Some 2"
proof -
  have "3 \<le> HV_MAX_KEYS" by (simp add: HV_MAX_KEYS_def HV_MAX_BUCKETS_def)
  then obtain hv' where "run_ops (hv_step byte_sum 8 1 (\<lambda>_. False)) (hv_new :: nat hv) [Put key_a 1, Put key_b 2, Del key_a] = Inr hv'"
    "hv_wf byte_sum hv'" "hv_lookup hv' = foldl apply_op (hv_lookup hv_new) [Put key_a 1, Put key_b 2, Del key_a]"
    using operations_refine_map [of byte_sum "hv_new :: nat hv" 8 "[Put key_a 1, Put key_b 2, Del key_a]" 1 "\<lambda>_. False"] hv_new_wf
    by auto
  then show ?thesis by (auto simp: apply_op_def key_a_def key_b_def)
qed

text \<open>C11: a store (or a fetch for modification) of a key in \<open>hv_common\<close> replaces the value in
  place when the key is there, and otherwise appends an entry after all the others, so the order of
  the entries is the order of their first insertion; the entry it returns is that of the key.\<close>

theorem store_keeps_order:
  assumes "hv_wf H hv" "query_ok H hv q" "limit < 64" "stores act"
    "(q_key q, q_utf8 q) \<in> he_key ` set (hv_list hv) \<or> \<not> hv_readonly hv \<and> hv_keys hv < HV_MAX_KEYS"
  shows "\<exists>hv' i e. hv_common limit hv q addr act = Inr (hv', Some i) \<and> hv_wf H hv' \<and>
    HvENTRIES hv' ! i = Some e \<and> he_key e = (q_key q, q_utf8 q) \<and>
    he_val e = stored_val act (hv_map hv (q_key q, q_utf8 q)) \<and> hv_map hv' = (hv_map hv)(he_key e \<mapsto> he_val e) \<and>
    map he_key (hv_list hv') = (if he_key e \<in> he_key ` set (hv_list hv) then map he_key (hv_list hv)
      else map he_key (hv_list hv) @ [he_key e])"
proof -
  obtain hv' i e where r: "hv_common limit hv q addr act = Inr (hv', Some i)" "hv_wf H hv'"
    "HvENTRIES hv' ! i = Some e" "he_key e = (q_key q, q_utf8 q)" "he_val e = stored_val act (hv_map hv (q_key q, q_utf8 q))"
    "hv_list hv' = list_store e (hv_list hv)"
    using hv_store_ok [OF assms] by blast
  then show ?thesis using store_map [OF assms(1) r(6)] list_store_keys [of e "hv_list hv"] by auto
qed

theorem store_keeps_order_witness:
  "\<exists>hv' i e. hv_common 8 (hv_new :: nat hv) (plain_query byte_sum key_a) 1 (Store (SV 5)) = Inr (hv', Some i) \<and>
    HvENTRIES hv' ! i = Some e \<and> he_key e = key_a \<and> he_val e = SV 5"
proof -
  let ?q = "plain_query byte_sum key_a"
  have q: "(q_key ?q, q_utf8 ?q) = key_a" by (simp add: plain_query_def key_a_def)
  have "0 < HV_MAX_KEYS" by (simp add: HV_MAX_KEYS_def HV_MAX_BUCKETS_def)
  then obtain hv' i e where "hv_common 8 (hv_new :: nat hv) ?q 1 (Store (SV 5)) = Inr (hv', Some i)"
    "HvENTRIES hv' ! i = Some e" "he_key e = key_a" "he_val e = stored_val (Store (SV 5)) (hv_map (hv_new :: nat hv) key_a)"
    using store_keeps_order [of byte_sum "hv_new :: nat hv" ?q 8 "Store (SV 5)" 1, OF hv_new_wf plain_query_ok, unfolded q]
    by (auto simp: stores_def)
  then show ?thesis by (auto simp: hv_map_list hv_new_list list_map_Nil stored_val_def)
qed

text \<open>C12: a fetch or an existence test changes nothing; it finds exactly the keys of the hash,
  treats a placeholder as missing, and on a restricted hash with storage a fetch of a key that was
  never there is refused.\<close>

theorem fetch_finds:
  assumes "hv_wf H hv" "query_ok H hv q" "\<not> stores act"
  shows "case hv_map hv (q_key q, q_utf8 q) of
      Some v \<Rightarrow> if v = Placeholder then hv_common limit hv q addr act = Inr (hv, None)
        else (\<exists>i e. hv_common limit hv q addr act = Inr (hv, Some i) \<and> HvENTRIES hv ! i = Some e \<and>
          he_key e = (q_key q, q_utf8 q) \<and> he_val e = v)
    | None \<Rightarrow> hv_common limit hv q addr act =
        (if hv_array hv \<noteq> NoArray \<and> hv_readonly hv \<and> act \<noteq> Exists then Inl AccessDisallowed else Inr (hv, None))"
  using hv_fetch_ok [OF assms] .

theorem fetch_finds_witness:
  "\<exists>hv :: nat hv. \<exists>i e. hv_common 8 hv (plain_query byte_sum key_a) 1 Fetch = Inr (hv, Some i) \<and>
    HvENTRIES hv ! i = Some e \<and> he_key e = key_a \<and> he_val e = SV 5"
proof -
  obtain hv :: "nat hv" and e0 where hv: "hv_wf byte_sum hv" "hv_map hv key_a = Some (SV 5)" by (rule one_entry)
  then show ?thesis
    using fetch_finds [of byte_sum hv "plain_query byte_sum key_a" Fetch 8 1, OF hv(1) plain_query_ok]
    by (auto simp: stores_def)
qed

text \<open>C13: a deletion removes exactly the key and keeps the order of the others; on a restricted
  hash it leaves a placeholder, refuses a read-only value and refuses a key that was never there;
  a placeholder counts as missing.\<close>

theorem delete_removes:
  assumes "hv_wf H hv" "query_ok H hv q"
  shows "case hv_map hv (q_key q, q_utf8 q) of
      None \<Rightarrow> hv_delete_common sv_readonly hv q =
        (if hv_readonly hv \<and> hv_keys hv \<noteq> 0 then Inl DeletionDisallowed else Inr (hv, None))
    | Some v \<Rightarrow>
        if v = Placeholder then hv_delete_common sv_readonly hv q = Inr (hv, None)
        else if hv_readonly hv \<and> (case v of SV x \<Rightarrow> sv_readonly x | _ \<Rightarrow> False)
          then hv_delete_common sv_readonly hv q = Inl ReadOnlyDeletion
        else (\<exists>hv'. hv_delete_common sv_readonly hv q = Inr (hv', Some v) \<and> hv_wf H hv' \<and>
          hv_readonly hv' = hv_readonly hv \<and>
          (if hv_readonly hv
           then (\<exists>e. he_key e = (q_key q, q_utf8 q) \<and> he_val e = Placeholder \<and> hv_list hv' = list_store e (hv_list hv))
           else hv_list hv' = list_remove (q_key q, q_utf8 q) (hv_list hv)))"
  using hv_delete_ok [OF assms] .

theorem delete_removes_witness:
  "\<exists>hv :: nat hv. \<exists>hv'. length (hv_list hv) = 1 \<and> hv_list hv' = [] \<and>
    hv_delete_common (\<lambda>_. False) hv (plain_query byte_sum key_a) = Inr (hv', Some (SV 5))"
proof -
  obtain hv :: "nat hv" and e where hv: "hv_wf byte_sum hv" "\<not> hv_readonly hv" "hv_list hv = [e]" "he_key e = key_a"
    "hv_map hv key_a = Some (SV 5)" by (rule one_entry)
  then obtain hv' where "hv_delete_common (\<lambda>_. False) hv (plain_query byte_sum key_a) = Inr (hv', Some (SV 5))" "hv_list hv' = []"
    using delete_removes [of byte_sum hv "plain_query byte_sum key_a" "\<lambda>_. False", OF hv(1) plain_query_ok]
    by (auto simp: list_remove_def)
  with hv(3) show ?thesis by (intro exI [of _ hv] exI [of _ hv']) simp
qed

text \<open>C14: rebuilding (\<open>S_oa_rebuild\<close>), from a linear or an indexed vector and with or without
  packing, keeps the live entries and their order, drops the holes when asked to pack or when the
  new vector is smaller than the old one, and links every live entry into its bucket exactly once;
  whatever the old index held.\<close>

theorem rebuild_keeps_entries:
  assumes "hv_src hv" "k \<le> 30" "hv_keys hv \<le> OA_ENTRY_CAPACITY (2 ^ k)" "hv_keys hv \<le> ec" "8 \<le> ec" "ec \<le> I32_MAX"
  shows "\<exists>hv' oa. oa_rebuild hv (2 ^ k) ec pack = Inr hv' \<and> hv_array hv' = Indexed oa \<and>
    hv_list hv' = hv_list hv \<and> oa_indexed hv' oa \<and> oa_capacity oa = ec \<and>
    oa_used oa = (if pack \<or> ec < HvENTRY_LIMIT hv then hv_keys hv else HvENTRY_LIMIT hv)"
  using oa_rebuild_ok [OF assms, of pack] by (auto simp: hv_same_def)

theorem rebuild_keeps_entries_witness:
  "\<exists>hv' oa. oa_rebuild (hv_new :: nat hv) (2 ^ 3) 8 True = Inr hv' \<and> hv_array hv' = Indexed oa \<and> hv_list hv' = [] \<and> oa_used oa = 0"
proof -
  have "hv_src (hv_new :: nat hv)" by (simp add: hv_src_def hv_new_list lazy_in_def) (simp add: hv_new_def)
  then show ?thesis using rebuild_keeps_entries [of "hv_new :: nat hv" 3 8 True] by (auto simp: hv_new_list I32_MAX_def)
qed

text \<open>C15: \<open>S_hv_oa_capacity_for\<close> gives, for a legal request, the least power of two not below the
  minimum that keeps three buckets for every key, capped at \<open>2 ^ 30\<close>; so the load factor is at most
  1/3 after a resize below the cap, and at most 2/3 at the cap.\<close>

theorem capacity_for_least:
  assumes "live \<le> HV_MAX_KEYS" "3 \<le> j" "j \<le> 30"
  shows "\<exists>k. j \<le> k \<and> k \<le> 30 \<and> hv_oa_capacity_for live (2 ^ j) = 2 ^ k \<and> (3 * live \<le> 2 ^ k \<or> k = 30) \<and>
    (\<forall>i. j \<le> i \<longrightarrow> i < k \<longrightarrow> 2 ^ i < 3 * live) \<and> live \<le> OA_ENTRY_CAPACITY (2 ^ k)"
proof -
  obtain k where k: "j \<le> k" "k \<le> 30" "hv_oa_capacity_for live (2 ^ j) = 2 ^ k" "3 * live \<le> 2 ^ k \<or> k = 30"
    "\<forall>i. j \<le> i \<longrightarrow> i < k \<longrightarrow> 2 ^ i < 3 * live"
    using capacity_for_spec [OF assms(1,3,2)] by blast
  have "live \<le> OA_ENTRY_CAPACITY (2 ^ k)"
    using k(4) assms(1) by (auto simp: OA_ENTRY_CAPACITY_eq HV_MAX_KEYS_def HV_MAX_BUCKETS_def less_eq_div_iff_mult_less_eq)
  then show ?thesis using k by blast
qed

theorem capacity_for_least_witness: "hv_oa_capacity_for 100 8 = 512"
proof -
  obtain k where k: "k \<le> 30" "hv_oa_capacity_for 100 (2 ^ 3) = 2 ^ k" "3 * 100 \<le> (2 :: nat) ^ k \<or> k = 30"
      "\<forall>i. 3 \<le> i \<longrightarrow> i < k \<longrightarrow> (2 :: nat) ^ i < 3 * 100"
    using capacity_for_least [of 100 3] by (auto simp: HV_MAX_KEYS_def HV_MAX_BUCKETS_def)
  have "\<not> 9 < k" using k(4) [rule_format, of 9] by auto
  moreover have "\<not> k < 9" using k(3) power_increasing [of k 8 "2 :: nat"] by auto
  ultimately show ?thesis using k(2) by (simp add: not_less)
qed

text \<open>C16: the size check that guards every allocation rules out wrap-around: sizes that pass it fit
  in \<open>MEM_SIZE\<close> with the header of the index, the entry vector too, and every cell number fits in
  32 bits; a zero bucket count or one that is not a power of two never passes.\<close>

theorem size_valid_no_wrap:
  assumes "hv_oa_size_valid buckets entries"
  shows "hv_oa_header + HvOA_STORAGE_BYTES buckets entries \<le> MEM_SIZE_MAX \<and> entries * sizeof_HE \<le> MEM_SIZE_MAX \<and>
    buckets + entries \<le> U32_MAX \<and> 0 < buckets \<and> buckets \<le> HV_MAX_BUCKETS \<and> is_pow2 buckets"
proof -
  let ?w = "HvOA_INDEX_WIDTH_FOR entries" and ?a = "MEM_SIZE_MAX - hv_oa_header"
  have v: "buckets \<noteq> 0" "buckets \<le> HV_MAX_BUCKETS" "is_pow2 buckets" "entries = 0 \<or> sizeof_HE \<le> MEM_SIZE_MAX div entries"
    "buckets \<le> ?a div ?w" "entries \<le> U32_MAX - buckets" "entries \<le> (?a - buckets * ?w) div ?w"
    using assms by (auto simp: hv_oa_size_valid_def Let_def HvOA_RECORD_WIDTH_FOR_def split: if_splits)
  have "buckets * ?w \<le> ?a" using v(5) by (simp add: less_eq_div_iff_mult_less_eq)
  moreover have "entries * ?w \<le> ?a - buckets * ?w" using v(7) by (simp add: less_eq_div_iff_mult_less_eq)
  ultimately have "(buckets + entries) * ?w \<le> ?a" by (simp add: algebra_simps)
  then have 1: "hv_oa_header + HvOA_STORAGE_BYTES buckets entries \<le> MEM_SIZE_MAX"
    by (simp add: HvOA_STORAGE_BYTES_def hv_oa_header_def MEM_SIZE_MAX_def)
  have 2: "entries * sizeof_HE \<le> MEM_SIZE_MAX"
    using v(4) by (cases "entries = 0") (auto simp: less_eq_div_iff_mult_less_eq mult.commute)
  have "buckets + entries \<le> U32_MAX" using v(2,6) by (simp add: U32_MAX_def HV_MAX_BUCKETS_def)
  then show ?thesis using 1 2 v(1-3) by simp
qed

theorem size_valid_no_wrap_witness:
  "hv_oa_header + HvOA_STORAGE_BYTES (2 ^ 30) I32_MAX \<le> MEM_SIZE_MAX"
  using size_valid_no_wrap [OF size_valid [of 30 I32_MAX]] by simp

text \<open>C17: cells of 1, 2 or 4 bytes: writing one and reading any gives back the value written or
  leaves the other as it was, and the array keeps its size.\<close>

theorem cells_roundtrip:
  assumes "index_ok ix c b" "pos < b + c" "pos' < b + c" "v \<le> c"
  shows "hv_oa_index_get (hv_oa_index_set ix c b pos v) c b pos' = (if pos' = pos then v else hv_oa_index_get ix c b pos') \<and>
    index_ok (hv_oa_index_set ix c b pos v) c b"
  using index_get_set [OF assms] index_set_ok [OF assms(1,2)] by blast

theorem cells_roundtrip_witness:
  "hv_oa_index_get (hv_oa_index_set (replicate 616 0) 300 8 5 299) 300 8 5 = 299"
  using cells_roundtrip [of "replicate 616 0" 300 8 5 5 299]
  by (simp add: index_ok_def HvOA_STORAGE_BYTES_def HvOA_INDEX_WIDTH_FOR_def)

text \<open>C18: a lookup ends: on a well-formed hash \<open>S_oa_find\<close> never follows a chain for ever; it returns
  an entry if and only if the key is there, and then the entry of that key.\<close>

theorem find_terminates:
  assumes "hv_wf H hv" "query_ok H hv q"
  shows "\<exists>r. oa_find hv q = Inr r \<and> (r = None \<longleftrightarrow> (q_key q, q_utf8 q) \<notin> he_key ` set (hv_list hv)) \<and>
    (\<forall>i slot. r = Some (i, slot) \<longrightarrow> (\<exists>e. HvENTRIES hv ! i = Some e \<and> he_key e = (q_key q, q_utf8 q)))"
proof -
  obtain r where r: "oa_find hv q = Inr r" "case r of
      None \<Rightarrow> \<forall>e\<in>set (hv_list hv). he_key e \<noteq> (q_key q, q_utf8 q)
    | Some (i, slot) \<Rightarrow> i < HvENTRY_LIMIT hv \<and> (\<exists>e. HvENTRY_FIRST hv i = Some e \<and> he_key e = (q_key q, q_utf8 q))"
    using oa_find_correct [OF assms] by (auto split: option.splits prod.splits)
  show ?thesis
  proof (cases r)
    case None
    then show ?thesis using r by auto
  next
    case (Some p)
    then obtain i slot e where e: "r = Some (i, slot)" "i < HvENTRY_LIMIT hv" "HvENTRY_FIRST hv i = Some e"
      "he_key e = (q_key q, q_utf8 q)"
      using r(2) by (cases p) auto
    have "e \<in> set (hv_list hv)" using e(2,3) in_hv_list by blast
    then have "(q_key q, q_utf8 q) \<in> he_key ` set (hv_list hv)" using e(4) by (metis image_eqI)
    then show ?thesis using r(1) e HvENTRY_FIRST_entries [OF e(3)] by auto
  qed
qed

theorem find_terminates_witness:
  "\<exists>hv :: nat hv. \<exists>i slot e. oa_find hv (plain_query byte_sum key_a) = Inr (Some (i, slot)) \<and>
    HvENTRIES hv ! i = Some e \<and> he_key e = key_a \<and> oa_find hv (plain_query byte_sum key_b) = Inr None"
proof -
  obtain hv :: "nat hv" and e where hv: "hv_wf byte_sum hv" "hv_list hv = [e]" "he_key e = key_a" by (rule one_entry)
  have "oa_find hv (plain_query byte_sum key_b) = Inr None"
    using find_terminates [of byte_sum hv "plain_query byte_sum key_b", OF hv(1) plain_query_ok] hv(2,3)
    by (auto simp: key_b_def key_a_def)
  moreover obtain i slot e' where "oa_find hv (plain_query byte_sum key_a) = Inr (Some (i, slot))"
      "HvENTRIES hv ! i = Some e'" "he_key e' = key_a"
    using find_terminates [of byte_sum hv "plain_query byte_sum key_a", OF hv(1) plain_query_ok] hv(2,3) by auto
  ultimately show ?thesis by blast
qed

end
