(* ===== verification/Strtab.thy ===== *)
theory Strtab
  imports Hv
begin

text \<open>
  The shared key table \<open>PL_strtab\<close> (\<open>hv.c\<close>): interned, reference-counted hash keys in an
  open-addressed table with linear probing and tombstones.  A slot is empty, a tombstone or a
  shared HEK; the reference count of a HEK is kept by its address.  \<open>st_pins\<close> are the intentional
  references of \<open>immortalize_key\<close>, newest first.
\<close>

section \<open>The table\<close>

datatype slot = EmptySlot | Tombstone | Full hek

record strtab =
  st_slots :: "slot list option"
  st_tombstones :: nat
  st_keys :: nat
  st_refs :: "nat \<Rightarrow> nat"
  st_pins :: "(nat \<times> nat) list"

datatype strtab_error = StrtabMemoryWrap | KeyLengthOutOfRange | ProbeDiverges

definition STRTAB_MIN_CAPACITY :: nat where "STRTAB_MIN_CAPACITY = 32768"

text \<open>The bytes of \<open>struct hv_strtab\<close> before its slots, and of a pointer, on a 64-bit build.\<close>

definition hv_strtab_header :: nat where "hv_strtab_header = 16"
definition sizeof_ptr :: nat where "sizeof_ptr = 8"

definition hv_strtab_size_valid :: "nat \<Rightarrow> bool" where
  "hv_strtab_size_valid capacity \<longleftrightarrow>
     capacity \<ge> 32768 \<and> is_pow2 capacity \<and> capacity \<le> 2 ^ 63 \<and>
     capacity \<le> (MEM_SIZE_MAX - hv_strtab_header) div sizeof_ptr"

function strtab_capacity_loop :: "nat \<Rightarrow> nat \<Rightarrow> nat" where
  "strtab_capacity_loop capacity target =
     (if capacity < target then
        if capacity > MEM_SIZE_MAX div 2 \<or> capacity = 0 then 0 else strtab_capacity_loop (capacity * 2) target
      else capacity)"
  by pat_completeness auto
termination by (relation "measure (\<lambda>(c, t). t - c)") auto

declare strtab_capacity_loop.simps [simp del]

definition hv_strtab_capacity_for :: "nat \<Rightarrow> nat" where
  "hv_strtab_capacity_for live =
     (if live \<ge> MEM_SIZE_MAX div 2 then 0
      else let capacity = strtab_capacity_loop 32768 (live * 2 + 1)
           in if hv_strtab_size_valid capacity then capacity else 0)"

section \<open>Probing\<close>

definition strtab_matches :: "query \<Rightarrow> hek \<Rightarrow> bool" where
  "strtab_matches q h \<longleftrightarrow> hek_hash h = q_hash q \<and> hek_key h = q_key q \<and>
     hek_utf8 h = q_utf8 q \<and> hek_wasutf8 h = q_wasutf8 q"

text \<open>The loop of \<open>S_strtab_find\<close>: \<open>n\<close> probes are left, \<open>first_deleted\<close> is the first tombstone.\<close>

fun strtab_probe :: "(hek \<Rightarrow> bool) \<Rightarrow> slot list \<Rightarrow> nat \<Rightarrow> nat \<Rightarrow> nat option \<Rightarrow> hek option \<times> nat option" where
  "strtab_probe eq slots 0 pos first_deleted = (None, first_deleted)"
| "strtab_probe eq slots (Suc n) pos first_deleted = (case slots ! pos of
     EmptySlot \<Rightarrow> (None, Some (case first_deleted of Some d \<Rightarrow> d | None \<Rightarrow> pos))
   | Tombstone \<Rightarrow> strtab_probe eq slots n ((pos + 1) AND (length slots - 1))
       (case first_deleted of Some d \<Rightarrow> Some d | None \<Rightarrow> Some pos)
   | Full h \<Rightarrow> if eq h then (Some h, Some pos)
       else strtab_probe eq slots n ((pos + 1) AND (length slots - 1)) first_deleted)"

text \<open>The HEK found, and the slot it is in or a new one would go to.\<close>

definition strtab_find :: "strtab \<Rightarrow> query \<Rightarrow> hek option \<times> nat option" where
  "strtab_find st q = (case st_slots st of
     None \<Rightarrow> (None, None)
   | Some slots \<Rightarrow> strtab_probe (strtab_matches q) slots (length slots)
       (unat (q_hash q) AND (length slots - 1)) None)"

section \<open>Resizing\<close>

text \<open>\<open>while (table->slots[pos]) pos = (pos + 1) & (capacity - 1)\<close>\<close>

partial_function (option) strtab_free_slot :: "slot list \<Rightarrow> nat \<Rightarrow> nat option" where
  "strtab_free_slot slots pos =
     (if slots ! pos \<noteq> EmptySlot then strtab_free_slot slots ((pos + 1) AND (length slots - 1)) else Some pos)"

definition strtab_rehash_one :: "slot list \<Rightarrow> slot \<Rightarrow> slot list option" where
  "strtab_rehash_one table s = (case s of
     Full h \<Rightarrow> (case strtab_free_slot table (unat (hek_hash h) AND (length table - 1)) of
         None \<Rightarrow> None | Some pos \<Rightarrow> Some (table[pos := Full h]))
   | _ \<Rightarrow> Some table)"

fun strtab_rehash :: "slot list \<Rightarrow> slot list \<Rightarrow> slot list option" where
  "strtab_rehash table [] = Some table"
| "strtab_rehash table (s # ss) = (case strtab_rehash_one table s of
     None \<Rightarrow> None | Some table \<Rightarrow> strtab_rehash table ss)"

definition strtab_resize :: "strtab \<Rightarrow> nat \<Rightarrow> strtab_error + strtab" where
  "strtab_resize st capacity =
     (let capacity = (if capacity < STRTAB_MIN_CAPACITY then STRTAB_MIN_CAPACITY else capacity) in
      if \<not> hv_strtab_size_valid capacity then Inl StrtabMemoryWrap
      else case strtab_rehash (replicate capacity EmptySlot) (case st_slots st of None \<Rightarrow> [] | Some old \<Rightarrow> old) of
          None \<Rightarrow> Inl ProbeDiverges
        | Some table \<Rightarrow> Inr (st\<lparr>st_slots := Some table, st_tombstones := 0\<rparr>))"

section \<open>Inserting\<close>

definition strtab_slots :: "strtab \<Rightarrow> slot list" where
  "strtab_slots st = (case st_slots st of None \<Rightarrow> [] | Some slots \<Rightarrow> slots)"

definition strtab_prepare_insert :: "strtab \<Rightarrow> query \<Rightarrow> nat option \<Rightarrow> strtab_error + strtab \<times> nat option" where
  "strtab_prepare_insert st q pos =
     (let capacity = length (strtab_slots st); occupied = st_keys st + st_tombstones st in
      if occupied \<ge> capacity div 2
         \<and> (case pos of None \<Rightarrow> True | Some p \<Rightarrow> strtab_slots st ! p \<noteq> Tombstone) then
        if st_tombstones st < (occupied + 1) div 2 \<and> capacity > MEM_SIZE_MAX div 2 then Inl StrtabMemoryWrap
        else
          attempt (strtab_resize st (if st_tombstones st < (occupied + 1) div 2 then capacity * 2 else capacity))
            (\<lambda>st. Inr (st, snd (strtab_find st q)))
      else Inr (st, pos))"

definition strtab_insert :: "strtab \<Rightarrow> hek \<Rightarrow> nat option \<Rightarrow> strtab_error + strtab" where
  "strtab_insert st h pos = (case pos of
     None \<Rightarrow> Inl StrtabMemoryWrap
   | Some p \<Rightarrow> Inr (st\<lparr>
       st_tombstones := (if strtab_slots st ! p = Tombstone then st_tombstones st - 1 else st_tombstones st),
       st_slots := Some ((strtab_slots st)[p := Full h]),
       st_keys := st_keys st + 1\<rparr>))"

section \<open>Sharing and unsharing\<close>

definition share_hek_hek :: "strtab \<Rightarrow> nat \<Rightarrow> strtab_error + strtab" where
  "share_hek_hek st addr =
     (if st_refs st addr = U32_MAX then Inl StrtabMemoryWrap
      else Inr (st\<lparr>st_refs := (st_refs st)(addr := st_refs st addr + 1)\<rparr>))"

text \<open>\<open>addr\<close> is the address that \<open>Newx\<close> would return for a new HEK.\<close>

definition share_hek_flags :: "strtab \<Rightarrow> query \<Rightarrow> nat \<Rightarrow> strtab_error + strtab \<times> hek" where
  "share_hek_flags st q addr =
     (if length (q_key q) > I32_MAX then Inl KeyLengthOutOfRange
      else
        attempt (if st_slots st = None then strtab_resize st STRTAB_MIN_CAPACITY else Inr st) (\<lambda>st.
        case strtab_find st q of
          (Some h, _) \<Rightarrow> attempt (share_hek_hek st (hek_addr h)) (\<lambda>st. Inr (st, h))
        | (None, pos) \<Rightarrow>
            attempt (strtab_prepare_insert st q pos) (\<lambda>(st, pos).
              let h = new_hek addr q False; st = st\<lparr>st_refs := (st_refs st)(addr := 1)\<rparr>
              in attempt (strtab_insert st h pos) (\<lambda>st. Inr (st, h)))))"

text \<open>Look for a HEK by its address alone.\<close>

fun strtab_locate :: "nat \<Rightarrow> slot list \<Rightarrow> nat \<Rightarrow> nat \<Rightarrow> nat option" where
  "strtab_locate addr slots 0 pos = None"
| "strtab_locate addr slots (Suc n) pos = (case slots ! pos of
     EmptySlot \<Rightarrow> None
   | Tombstone \<Rightarrow> strtab_locate addr slots n ((pos + 1) AND (length slots - 1))
   | Full h \<Rightarrow> if hek_addr h = addr then Some pos
       else strtab_locate addr slots n ((pos + 1) AND (length slots - 1)))"

text \<open>Drop a reference to the HEK in a slot; the last one frees it and leaves a tombstone.\<close>

definition strtab_release :: "strtab \<Rightarrow> nat \<Rightarrow> nat \<Rightarrow> strtab" where
  "strtab_release st addr pos =
     (let st = st\<lparr>st_refs := (st_refs st)(addr := st_refs st addr - 1)\<rparr> in
      if st_refs st addr = 0 then
        st\<lparr>st_slots := Some ((strtab_slots st)[pos := Tombstone]),
           st_tombstones := st_tombstones st + 1, st_keys := st_keys st - 1\<rparr>
      else st)"

text \<open>The result tells whether the HEK was found; if not the code warns.\<close>

definition unshare_hek :: "strtab \<Rightarrow> hek \<Rightarrow> strtab \<times> bool" where
  "unshare_hek st h =
     (if st_refs st (hek_addr h) > 1 then
        (st\<lparr>st_refs := (st_refs st)(hek_addr h := st_refs st (hek_addr h) - 1)\<rparr>, True)
      else
        case strtab_locate (hek_addr h) (strtab_slots st) (length (strtab_slots st))
               (unat (hek_hash h) AND (length (strtab_slots st) - 1)) of
          None \<Rightarrow> (st, False)
        | Some pos \<Rightarrow> (strtab_release st (hek_addr h) pos, True))"

definition unsharepvn :: "strtab \<Rightarrow> query \<Rightarrow> strtab \<times> bool" where
  "unsharepvn st q = (case strtab_find st q of
     (Some h, Some pos) \<Rightarrow> (strtab_release st (hek_addr h) pos, True)
   | _ \<Rightarrow> (st, False))"

section \<open>Inspecting and pinning\<close>

definition shared_key_refcount :: "strtab \<Rightarrow> query \<Rightarrow> nat" where
  "shared_key_refcount st q =
     (if st_slots st = None \<or> length (q_key q) > I32_MAX then 0
      else case fst (strtab_find st q) of None \<Rightarrow> 0 | Some h \<Rightarrow> st_refs st (hek_addr h))"

definition shared_keys :: "strtab \<Rightarrow> hek list" where
  "shared_keys st = List.map_filter (\<lambda>s. case s of Full h \<Rightarrow> Some h | _ \<Rightarrow> None) (strtab_slots st)"

fun pin_key :: "nat \<Rightarrow> (nat \<times> nat) list \<Rightarrow> (nat \<times> nat) list option" where
  "pin_key addr [] = None"
| "pin_key addr ((a, n) # pins) =
     (if a = addr then Some ((a, n + 1) # pins) else map_option (Cons (a, n)) (pin_key addr pins))"

definition immortalize_key :: "strtab \<Rightarrow> query \<Rightarrow> nat \<Rightarrow> strtab_error + strtab \<times> nat" where
  "immortalize_key st q addr =
     attempt (share_hek_flags st q addr) (\<lambda>(st, h).
       let pins = (case pin_key (hek_addr h) (st_pins st) of
             Some pins \<Rightarrow> pins | None \<Rightarrow> (hek_addr h, 1) # st_pins st)
       in Inr (st\<lparr>st_pins := pins\<rparr>, st_refs st (hek_addr h)))"

definition strtab_new :: strtab where
  "strtab_new = \<lparr>st_slots = None, st_tombstones = 0, st_keys = 0, st_refs = (\<lambda>_. 0), st_pins = []\<rparr>"

end
