(* ===== verification/Strtab_Wf.thy ===== *)
theory Strtab_Wf
  imports Strtab Hv_Wf
begin

text \<open>
  The invariant of the shared key table: every HEK can be reached by probing from its home slot
  without crossing an empty slot, keys are interned (one HEK each), the counters are exact, at most
  half the slots are in use, and every HEK is referenced.
\<close>

section \<open>Probe sequences\<close>

definition hek_id :: "hek \<Rightarrow> u32 \<times> bytes \<times> bool \<times> bool" where
  "hek_id h = (hek_hash h, hek_key h, hek_utf8 h, hek_wasutf8 h)"

definition query_id :: "query \<Rightarrow> u32 \<times> bytes \<times> bool \<times> bool" where
  "query_id q = (q_hash q, q_key q, q_utf8 q, q_wasutf8 q)"

lemma strtab_matches_id: "strtab_matches q h \<longleftrightarrow> hek_id h = query_id q"
  by (auto simp: strtab_matches_def hek_id_def query_id_def)

definition at :: "slot list \<Rightarrow> nat \<Rightarrow> nat \<Rightarrow> slot" where
  "at slots home d = slots ! ((home + d) mod length slots)"

text \<open>Slot \<open>p\<close> comes up when probing from \<open>home\<close>.\<close>

definition reachable :: "slot list \<Rightarrow> nat \<Rightarrow> nat \<Rightarrow> bool" where
  "reachable slots home p \<longleftrightarrow> (\<exists>d<length slots. p = (home + d) mod length slots \<and>
     (\<forall>j<d. at slots home j \<noteq> EmptySlot))"

definition pow2_length :: "slot list \<Rightarrow> bool" where
  "pow2_length slots \<longleftrightarrow> (\<exists>k. length slots = 2 ^ k)"

lemma home_pos: "pow2_length slots \<Longrightarrow> p AND (length slots - 1) = p mod length slots"
  using mask_mod [of p] by (auto simp: pow2_length_def)

lemma step_pos:
  "pow2_length slots \<Longrightarrow> ((home + d) mod length slots + 1) AND (length slots - 1) = (home + Suc d) mod length slots"
  unfolding home_pos by (simp add: mod_simps)

definition free_at :: "slot list \<Rightarrow> nat \<Rightarrow> nat \<Rightarrow> bool" where
  "free_at slots home p \<longleftrightarrow> p < length slots \<and> slots ! p \<in> {EmptySlot, Tombstone} \<and> reachable slots home p"

lemma strtab_probe_spec:
  assumes p2: "pow2_length slots" and n: "n + d = length slots" "0 < length slots"
    and before: "\<forall>j<d. at slots home j \<noteq> EmptySlot \<and> (\<forall>h. at slots home j = Full h \<longrightarrow> \<not> eq h)"
    and fd: "\<forall>x. first_deleted = Some x \<longrightarrow> free_at slots home x"
  shows "case strtab_probe eq slots n ((home + d) mod length slots) first_deleted of
      (Some h, ip) \<Rightarrow> eq h \<and> (\<exists>p<length slots. ip = Some p \<and> slots ! p = Full h)
    | (None, ip) \<Rightarrow> (\<forall>p. reachable slots home p \<longrightarrow> (\<forall>h. slots ! p = Full h \<longrightarrow> \<not> eq h)) \<and>
        (case ip of Some p \<Rightarrow> free_at slots home p | None \<Rightarrow> \<forall>j<length slots. at slots home j \<noteq> EmptySlot)"
  using n(1) before fd
proof (induction n arbitrary: d first_deleted)
  case 0
  then show ?case using n(2) by (auto simp: reachable_def at_def split: option.splits)
next
  case (Suc n)
  let ?c = "length slots" and ?p = "(home + d) mod length slots"
  have dc: "d < ?c" and pc: "?p < ?c" using Suc.prems(1) n(2) by auto
  have reach: "reachable slots home ?p" using dc Suc.prems(2) by (auto simp: reachable_def)
  have step: "(?p + 1) AND (?c - 1) = (home + Suc d) mod ?c" by (rule step_pos [OF p2])
  note IH = Suc.IH [of "Suc d"]
  show ?case
  proof (cases "slots ! ?p")
    case EmptySlot
    have "\<forall>h. slots ! p = Full h \<longrightarrow> \<not> eq h" if re: "reachable slots home p" for p
    proof -
      obtain e where e: "e < ?c" "p = (home + e) mod ?c" "\<forall>j<e. at slots home j \<noteq> EmptySlot"
        using re by (auto simp: reachable_def)
      have "e \<le> d" using e(3) EmptySlot by (metis at_def not_less)
      then show ?thesis using Suc.prems(2) EmptySlot e(2) by (auto simp: at_def le_less)
    qed
    moreover have "free_at slots home (case first_deleted of Some x \<Rightarrow> x | None \<Rightarrow> ?p)"
      using Suc.prems(3) EmptySlot pc reach by (auto simp: free_at_def split: option.splits)
    ultimately show ?thesis using EmptySlot by simp
  next
    case Tombstone
    have b: "\<forall>j<Suc d. at slots home j \<noteq> EmptySlot \<and> (\<forall>h. at slots home j = Full h \<longrightarrow> \<not> eq h)"
      using Suc.prems(2) Tombstone by (auto simp: less_Suc_eq at_def)
    have f: "\<forall>x. (case first_deleted of Some d \<Rightarrow> Some d | None \<Rightarrow> Some ?p) = Some x \<longrightarrow> free_at slots home x"
      using Suc.prems(3) Tombstone pc reach by (auto simp: free_at_def split: option.splits)
    show ?thesis using IH [OF _ b f] Suc.prems(1) Tombstone step by simp
  next
    case (Full h)
    show ?thesis
    proof (cases "eq h")
      case True
      then show ?thesis using Full pc by simp
    next
      case False
      then have b: "\<forall>j<Suc d. at slots home j \<noteq> EmptySlot \<and> (\<forall>h. at slots home j = Full h \<longrightarrow> \<not> eq h)"
        using Suc.prems(2) Full by (auto simp: less_Suc_eq at_def)
      show ?thesis using IH [OF _ b Suc.prems(3)] Suc.prems(1) Full False step by simp
    qed
  qed
qed

text \<open>The probe of \<open>S_strtab_resize\<close> ends when there is an empty slot.\<close>

lemma strtab_free_slot_spec:
  assumes p2: "pow2_length slots" and d: "d \<le> e" "e < length slots" "at slots home e = EmptySlot"
    and before: "\<forall>j<d. at slots home j \<noteq> EmptySlot"
  shows "\<exists>p. strtab_free_slot slots ((home + d) mod length slots) = Some p \<and> free_at slots home p \<and> slots ! p = EmptySlot"
  using d(1) before
proof (induction "e - d" arbitrary: d)
  case 0
  then have "d = e" by simp
  then have "slots ! ((home + d) mod length slots) = EmptySlot" using d(3) by (simp add: at_def)
  moreover have "reachable slots home ((home + d) mod length slots)" using 0 d(2) \<open>d = e\<close> by (auto simp: reachable_def)
  moreover have "(home + d) mod length slots < length slots" using d(2) by (intro mod_less_divisor) linarith
  ultimately show ?case by (subst strtab_free_slot.simps) (simp add: free_at_def)
next
  case (Suc m)
  let ?p = "(home + d) mod length slots"
  have pc: "?p < length slots" using d(2) by (intro mod_less_divisor) linarith
  show ?case
  proof (cases "slots ! ?p = EmptySlot")
    case True
    have "reachable slots home ?p" unfolding reachable_def using Suc.prems d(2) by (intro exI [of _ d]) auto
    then show ?thesis using True pc by (subst strtab_free_slot.simps) (simp add: free_at_def)
  next
    case False
    then have "strtab_free_slot slots ?p = strtab_free_slot slots ((home + Suc d) mod length slots)"
      using step_pos [OF p2, of home d] by (subst strtab_free_slot.simps) simp
    moreover have "\<forall>j<Suc d. at slots home j \<noteq> EmptySlot" using Suc.prems(2) False by (auto simp: less_Suc_eq at_def)
    ultimately show ?thesis using Suc.hyps(1) [of "Suc d"] Suc.hyps(2) by simp
  qed
qed

section \<open>Tables\<close>

fun slot_heks :: "slot \<Rightarrow> hek list" where
  "slot_heks (Full h) = [h]"
| "slot_heks EmptySlot = []"
| "slot_heks Tombstone = []"

definition heks :: "slot list \<Rightarrow> hek list" where
  "heks slots = concat (map slot_heks slots)"

definition tombs :: "slot list \<Rightarrow> nat" where
  "tombs slots = length (filter (\<lambda>s. s = Tombstone) slots)"

lemma heks_simps [simp]: "heks [] = []" "heks (s # ss) = slot_heks s @ heks ss" "heks (xs @ ys) = heks xs @ heks ys"
  by (simp_all add: heks_def)

lemma in_heks: "h \<in> set (heks slots) \<longleftrightarrow> (\<exists>p<length slots. slots ! p = Full h)"
proof -
  have "h \<in> set (slot_heks s) \<longleftrightarrow> s = Full h" for s by (cases s) auto
  then have "h \<in> set (heks slots) \<longleftrightarrow> Full h \<in> set slots" by (auto simp: heks_def)
  then show ?thesis by (auto simp: in_set_conv_nth)
qed

lemma split_slots:
  assumes "p < length slots"
  obtains A B where "slots = A @ slots ! p # B" "length A = p" "\<And>s. slots[p := s] = A @ s # B"
  using assms id_take_nth_drop [OF assms] upd_conv_take_nth_drop [OF assms] that by (metis length_take min.absorb4)

lemma heks_replicate [simp]: "heks (replicate n EmptySlot) = []"
  by (induction n) simp_all

lemma tombs_replicate [simp]: "tombs (replicate n EmptySlot) = 0"
  by (simp add: tombs_def)

lemma slots_used: "length (heks slots) + tombs slots + length (filter (\<lambda>s. s = EmptySlot) slots) = length slots"
proof (induction slots)
  case (Cons s slots)
  then show ?case by (cases s) (auto simp: tombs_def)
qed (simp add: tombs_def)

lemma empty_exists: "length (heks slots) + tombs slots < length slots \<Longrightarrow> \<exists>p<length slots. slots ! p = EmptySlot"
proof -
  assume "length (heks slots) + tombs slots < length slots"
  then have "filter (\<lambda>s. s = EmptySlot) slots \<noteq> []" using slots_used [of slots] by (metis add.right_neutral less_irrefl list.size(3))
  then show ?thesis by (auto simp: filter_empty_conv in_set_conv_nth)
qed

text \<open>Every HEK can be reached from its home, and keys and addresses are unique.\<close>

definition slots_ok :: "slot list \<Rightarrow> bool" where
  "slots_ok slots \<longleftrightarrow> pow2_length slots \<and>
     (\<forall>p<length slots. \<forall>h. slots ! p = Full h \<longrightarrow> reachable slots (unat (hek_hash h)) p) \<and>
     distinct (map hek_id (heks slots)) \<and> distinct (map hek_addr (heks slots))"

lemma reachable_update:
  assumes "reachable slots home p" "slots ! i = EmptySlot \<or> s \<noteq> EmptySlot"
  shows "reachable (slots[i := s]) home p"
proof -
  obtain d where d: "d < length slots" "p = (home + d) mod length slots" "\<forall>j<d. at slots home j \<noteq> EmptySlot"
    using assms(1) by (auto simp: reachable_def)
  have "at (slots[i := s]) home j \<noteq> EmptySlot" if "j < d" for j
  proof -
    have "at slots home j \<noteq> EmptySlot" using d(3) that by simp
    moreover have "(home + j) mod length slots < length slots" using d(1) by (intro mod_less_divisor) linarith
    ultimately show ?thesis using assms(2)
      by (cases "(home + j) mod length slots = i") (auto simp: at_def)
  qed
  then show ?thesis using d by (auto simp: reachable_def)
qed

lemma reachable_from_home: "reachable slots (home mod length slots) p = reachable slots home p"
  by (simp add: reachable_def at_def mod_simps)

lemma slots_ok_fill:
  assumes ok: "slots_ok slots" and p: "free_at slots (unat (hek_hash h)) p"
    and new: "hek_id h \<notin> hek_id ` set (heks slots)" "hek_addr h \<notin> hek_addr ` set (heks slots)"
  shows "slots_ok (slots[p := Full h]) \<and> mset (heks (slots[p := Full h])) = add_mset h (mset (heks slots)) \<and>
    tombs (slots[p := Full h]) = tombs slots - of_bool (slots ! p = Tombstone)"
proof -
  have pc: "p < length slots" "slots ! p \<in> {EmptySlot, Tombstone}" "reachable slots (unat (hek_hash h)) p"
    using p by (simp_all add: free_at_def)
  obtain A B where AB: "slots = A @ slots ! p # B" "\<And>s. slots[p := s] = A @ s # B"
    using split_slots [OF pc(1)] by metis
  have m: "heks slots = heks A @ heks B" using AB(1) pc(2) by (metis append_Nil heks_simps(2,3) insertE singletonD slot_heks.simps(2,3))
  have n: "heks (slots[p := Full h]) = heks A @ h # heks B" by (simp add: AB(2))
  have t: "tombs (slots[p := Full h]) = tombs A + tombs B" by (simp add: AB(2) tombs_def)
  have t0: "tombs slots = tombs A + of_bool (slots ! p = Tombstone) + tombs B"
    using arg_cong [OF AB(1), of tombs] by (simp add: tombs_def)
  have "reachable (slots[p := Full h]) (unat (hek_hash g)) i" if "i < length slots" "slots[p := Full h] ! i = Full g" for i g
  proof (cases "i = p")
    case True
    then have "g = h" using that pc(1) by simp
    then show ?thesis using reachable_update [OF pc(3), of p "Full h"] True by simp
  next
    case False
    then have "slots ! i = Full g" using that by simp
    then have "reachable slots (unat (hek_hash g)) i" using ok that(1) by (simp add: slots_ok_def)
    then show ?thesis by (rule reachable_update) simp
  qed
  moreover have "distinct (map hek_id (heks (slots[p := Full h])))" "distinct (map hek_addr (heks (slots[p := Full h])))"
    using ok new unfolding slots_ok_def m n by auto
  moreover have "pow2_length (slots[p := Full h])" using ok by (simp add: slots_ok_def pow2_length_def)
  ultimately show ?thesis using t t0 unfolding slots_ok_def m n by simp
qed

lemma slots_ok_drop:
  assumes ok: "slots_ok slots" and p: "p < length slots" "slots ! p = Full h"
  shows "slots_ok (slots[p := Tombstone]) \<and> add_mset h (mset (heks (slots[p := Tombstone]))) = mset (heks slots) \<and>
    tombs (slots[p := Tombstone]) = tombs slots + 1"
proof -
  obtain A B where AB: "slots = A @ slots ! p # B" "\<And>s. slots[p := s] = A @ s # B"
    using split_slots [OF p(1)] by metis
  have m: "heks slots = heks A @ h # heks B" using arg_cong [OF AB(1), of heks] p(2) by simp
  have n: "heks (slots[p := Tombstone]) = heks A @ heks B" by (simp add: AB(2))
  have t: "tombs (slots[p := Tombstone]) = tombs A + tombs B + 1" by (simp add: AB(2) tombs_def)
  have t0: "tombs slots = tombs A + tombs B" using arg_cong [OF AB(1), of tombs] p(2) by (simp add: tombs_def)
  have "reachable (slots[p := Tombstone]) (unat (hek_hash g)) i"
    if "i < length slots" "slots[p := Tombstone] ! i = Full g" for i g
  proof -
    have "slots ! i = Full g" using that p(1) by (auto simp: nth_list_update split: if_splits)
    then have "reachable slots (unat (hek_hash g)) i" using ok that(1) by (simp add: slots_ok_def)
    then show ?thesis by (rule reachable_update) simp
  qed
  moreover have "distinct (map hek_id (heks (slots[p := Tombstone])))" "distinct (map hek_addr (heks (slots[p := Tombstone])))"
    using ok unfolding slots_ok_def m n by auto
  moreover have "pow2_length (slots[p := Tombstone])" using ok by (simp add: slots_ok_def pow2_length_def)
  ultimately show ?thesis using t t0 unfolding slots_ok_def m n by simp
qed

text \<open>Lookup by key and by address.\<close>

lemma strtab_find_spec:
  assumes ok: "slots_ok slots" and st: "st_slots st = Some slots"
  shows "case strtab_find st q of
      (Some h, ip) \<Rightarrow> hek_id h = query_id q \<and> h \<in> set (heks slots) \<and> (\<exists>p<length slots. ip = Some p \<and> slots ! p = Full h)
    | (None, ip) \<Rightarrow> query_id q \<notin> hek_id ` set (heks slots) \<and>
        (case ip of Some p \<Rightarrow> free_at slots (unat (q_hash q)) p
           | None \<Rightarrow> \<forall>p<length slots. slots ! p \<noteq> EmptySlot)"
proof -
  have p2: "pow2_length slots" using ok by (simp add: slots_ok_def)
  have c: "0 < length slots" using p2 by (auto simp: pow2_length_def)
  have e: "strtab_find st q = strtab_probe (strtab_matches q) slots (length slots) (unat (q_hash q) mod length slots) None"
    using home_pos [OF p2] by (simp add: strtab_find_def st)
  note s = strtab_probe_spec [OF p2, of "length slots" 0 "unat (q_hash q)" "strtab_matches q" None, simplified, OF length_greater_0_conv [THEN iffD1, OF c]]
  show ?thesis
  proof (cases "strtab_find st q")
    case (Pair r ip)
    show ?thesis
    proof (cases r)
      case None
      have no: "\<forall>p. reachable slots (unat (q_hash q)) p \<longrightarrow> (\<forall>h. slots ! p = Full h \<longrightarrow> \<not> strtab_matches q h)"
        "case ip of Some p \<Rightarrow> free_at slots (unat (q_hash q)) p
          | None \<Rightarrow> \<forall>j<length slots. at slots (unat (q_hash q)) j \<noteq> EmptySlot"
        using s e Pair None by auto
      have "query_id q \<notin> hek_id ` set (heks slots)"
      proof
        assume "query_id q \<in> hek_id ` set (heks slots)"
        then obtain h p where h: "p < length slots" "slots ! p = Full h" "hek_id h = query_id q"
          by (auto simp: in_heks)
        then have "reachable slots (unat (hek_hash h)) p" using ok by (simp add: slots_ok_def)
        moreover have "hek_hash h = q_hash q" using h(3) by (simp add: hek_id_def query_id_def)
        ultimately show False using no(1) h by (auto simp: strtab_matches_id)
      qed
      moreover have "\<forall>p<length slots. slots ! p \<noteq> EmptySlot" if i: "ip = None"
      proof (intro allI impI)
        fix p assume p: "p < length slots"
        let ?h = "unat (q_hash q) mod length slots"
        define j where "j = (p + length slots - ?h) mod length slots"
        have hl: "?h < length slots" using c by simp
        have "j < length slots" using c by (simp add: j_def)
        moreover have "(unat (q_hash q) + j) mod length slots = (?h + (p + length slots - ?h)) mod length slots"
          by (simp add: j_def mod_simps)
        then have "(unat (q_hash q) + j) mod length slots = p" using hl p by simp
        ultimately show "slots ! p \<noteq> EmptySlot" using no(2) i by (auto simp: at_def)
      qed
      ultimately show ?thesis using Pair None no(2) by (auto split: option.splits)
    next
      case (Some h)
      then obtain p where "p < length slots" "ip = Some p" "slots ! p = Full h" "hek_id h = query_id q"
        using s e Pair by (auto simp: strtab_matches_id)
      moreover then have "h \<in> set (heks slots)" by (auto simp: in_heks)
      ultimately show ?thesis using Pair Some by simp
    qed
  qed
qed

lemma strtab_locate_probe:
  "strtab_locate addr slots n pos = (case strtab_probe (\<lambda>h. hek_addr h = addr) slots n pos fd of
     (Some h, p) \<Rightarrow> p | (None, _) \<Rightarrow> None)"
  by (induction n arbitrary: pos fd) (simp_all split: slot.splits)

lemma strtab_locate_spec:
  assumes ok: "slots_ok slots" and h: "h \<in> set (heks slots)"
  shows "\<exists>p<length slots. strtab_locate (hek_addr h) slots (length slots) (unat (hek_hash h) AND (length slots - 1)) = Some p \<and>
    slots ! p = Full h"
proof -
  have p2: "pow2_length slots" using ok by (simp add: slots_ok_def)
  have ne: "slots \<noteq> []" using h by auto
  let ?eq = "\<lambda>g. hek_addr g = hek_addr h"
  obtain i where i: "i < length slots" "slots ! i = Full h" using h by (auto simp: in_heks)
  have re: "reachable slots (unat (hek_hash h)) i" using ok i by (simp add: slots_ok_def)
  have inj: "inj_on hek_addr (set (heks slots))" using ok by (simp add: slots_ok_def distinct_map)
  note s = strtab_probe_spec [OF p2, of "length slots" 0 "unat (hek_hash h)" ?eq None, simplified, OF ne]
  have l: "strtab_locate (hek_addr h) slots (length slots) (unat (hek_hash h) AND (length slots - 1)) =
    (case strtab_probe ?eq slots (length slots) (unat (hek_hash h) mod length slots) None of (Some h, p) \<Rightarrow> p | (None, _) \<Rightarrow> None)"
    using home_pos [OF p2] strtab_locate_probe [where fd = None] by simp
  show ?thesis
  proof (cases "strtab_probe ?eq slots (length slots) (unat (hek_hash h) mod length slots) None")
    case (Pair r ip)
    have "r \<noteq> None"
    proof
      assume "r = None"
      then have "\<forall>p. reachable slots (unat (hek_hash h)) p \<longrightarrow> (\<forall>g. slots ! p = Full g \<longrightarrow> hek_addr g \<noteq> hek_addr h)"
        using s Pair by simp
      then show False using re i(2) by blast
    qed
    then obtain g p where g: "r = Some g" "ip = Some p" "p < length slots" "slots ! p = Full g" "hek_addr g = hek_addr h"
      using s Pair by auto
    then have "g \<in> set (heks slots)" by (auto simp: in_heks)
    then have "g = h" using inj g(5) h by (auto dest: inj_onD)
    then show ?thesis using l Pair g by auto
  qed
qed

section \<open>Rehashing\<close>

lemma strtab_rehash_one_spec:
  assumes ok: "slots_ok table" and room: "length (heks table) + tombs table < length table"
    and new: "distinct (map hek_id (heks table @ slot_heks s))" "distinct (map hek_addr (heks table @ slot_heks s))"
  shows "\<exists>t. strtab_rehash_one table s = Some t \<and> slots_ok t \<and> mset (heks t) = mset (heks table) + mset (slot_heks s) \<and>
    (tombs table = 0 \<longrightarrow> tombs t = 0) \<and> length t = length table"
proof (cases s)
  case (Full h)
  have p2: "pow2_length table" using ok by (simp add: slots_ok_def)
  let ?home = "unat (hek_hash h)"
  obtain i where i: "i < length table" "table ! i = EmptySlot" using empty_exists [OF room] by blast
  define e where "e = (i + length table - ?home mod length table) mod length table"
  have hl: "?home mod length table < length table" using i(1) by (intro mod_less_divisor) linarith
  have "e < length table" unfolding e_def using i(1) by (intro mod_less_divisor) linarith
  moreover have "(?home + e) mod length table = (?home mod length table + (i + length table - ?home mod length table)) mod length table"
    by (simp add: e_def mod_simps)
  then have "at table ?home e = EmptySlot" using hl i by (simp add: at_def)
  ultimately obtain p where p: "strtab_free_slot table (?home mod length table) = Some p" "free_at table ?home p" "table ! p = EmptySlot"
    using strtab_free_slot_spec [OF p2, of 0 e ?home] by auto
  have "strtab_rehash_one table s = Some (table[p := Full h])"
    using p(1) home_pos [OF p2, of ?home] by (simp add: strtab_rehash_one_def Full)
  moreover have "hek_id h \<notin> hek_id ` set (heks table)" "hek_addr h \<notin> hek_addr ` set (heks table)" using new Full by auto
  ultimately show ?thesis using slots_ok_fill [OF ok p(2)] Full by auto
qed (use ok in \<open>auto simp: strtab_rehash_one_def\<close>)

lemma strtab_rehash_spec:
  assumes "slots_ok table" "tombs table = 0" "length (heks table) + length (heks ss) < length table"
    and "distinct (map hek_id (heks table @ heks ss))" "distinct (map hek_addr (heks table @ heks ss))"
  shows "\<exists>t. strtab_rehash table ss = Some t \<and> slots_ok t \<and> mset (heks t) = mset (heks table) + mset (heks ss) \<and>
    tombs t = 0 \<and> length t = length table"
  using assms
proof (induction ss arbitrary: table)
  case (Cons s ss)
  have "distinct (map hek_id (heks table @ slot_heks s))" "distinct (map hek_addr (heks table @ slot_heks s))"
    using Cons.prems(4,5) unfolding heks_simps(2) map_append append_assoc [symmetric] distinct_append by blast+
  moreover have "length (heks table) + tombs table < length table" using Cons.prems(2,3) by simp
  ultimately obtain t where t: "strtab_rehash_one table s = Some t" "slots_ok t" "mset (heks t) = mset (heks table) + mset (slot_heks s)"
    "tombs t = 0" "length t = length table"
    using strtab_rehash_one_spec [OF Cons.prems(1), of s] Cons.prems(2) by auto
  have l: "length (heks t) = length (heks table) + length (slot_heks s)"
    using arg_cong [OF t(3), of size] by simp
  have d: "mset (map f (heks t @ heks ss)) = mset (map f (heks table @ heks (s # ss)))" for f :: "hek \<Rightarrow> 'a"
    using t(3) by simp
  have "distinct (map hek_id (heks t @ heks ss))" "distinct (map hek_addr (heks t @ heks ss))"
    using Cons.prems(4,5) mset_eq_imp_distinct_iff [OF d [of hek_id]] mset_eq_imp_distinct_iff [OF d [of hek_addr]] by blast+
  moreover have "length (heks t) + length (heks ss) < length t" using Cons.prems(3) t(5) l by simp
  ultimately obtain u where u: "strtab_rehash t ss = Some u" "slots_ok u" "mset (heks u) = mset (heks t) + mset (heks ss)"
    "tombs u = 0" "length u = length t"
    using Cons.IH [OF t(2,4)] by blast
  have "mset (heks u) = mset (heks table) + mset (heks (s # ss))" unfolding u(3) t(3) by simp
  then show ?case using u t(1,5) by simp
qed simp

lemma empty_table_ok: "length table = 2 ^ k \<Longrightarrow> table = replicate c EmptySlot \<Longrightarrow> slots_ok table"
  by (auto simp: slots_ok_def pow2_length_def)

lemma strtab_size_valid_pow:
  assumes "15 \<le> k" "k \<le> 60"
  shows "hv_strtab_size_valid (2 ^ k)" "STRTAB_MIN_CAPACITY \<le> 2 ^ k"
proof -
  have "(2 :: nat) ^ 15 \<le> 2 ^ k" "(2 :: nat) ^ k \<le> 2 ^ 60" using assms by (intro power_increasing; simp)+
  then show "hv_strtab_size_valid (2 ^ k)" "STRTAB_MIN_CAPACITY \<le> 2 ^ k" using is_pow2_pow [of k]
    by (simp_all add: hv_strtab_size_valid_def MEM_SIZE_MAX_def hv_strtab_header_def sizeof_ptr_def STRTAB_MIN_CAPACITY_def)
qed

theorem strtab_resize_spec:
  assumes k: "15 \<le> k" "k \<le> 60" and d: "distinct (map hek_id (heks (strtab_slots st)))" "distinct (map hek_addr (heks (strtab_slots st)))"
    and room: "length (heks (strtab_slots st)) < 2 ^ k"
  shows "\<exists>t. strtab_resize st (2 ^ k) = Inr (st\<lparr>st_slots := Some t, st_tombstones := 0\<rparr>) \<and> slots_ok t \<and> length t = 2 ^ k \<and>
    tombs t = 0 \<and> mset (heks t) = mset (heks (strtab_slots st))"
proof -
  let ?z = "replicate (2 ^ k) EmptySlot"
  have "slots_ok ?z" using empty_table_ok [of ?z k] by simp
  then obtain t where t: "strtab_rehash ?z (strtab_slots st) = Some t" "slots_ok t" "mset (heks t) = mset (heks (strtab_slots st))"
    "tombs t = 0" "length t = 2 ^ k"
    using strtab_rehash_spec [of ?z "strtab_slots st"] d room by auto
  then have "strtab_resize st (2 ^ k) = Inr (st\<lparr>st_slots := Some t, st_tombstones := 0\<rparr>)"
    using strtab_size_valid_pow [OF k] unfolding strtab_resize_def strtab_slots_def by (simp add: Let_def)
  then show ?thesis using t by blast
qed

section \<open>The invariant and the counts\<close>

definition st_heks :: "strtab \<Rightarrow> hek list" where
  "st_heks st = heks (strtab_slots st)"

text \<open>How often a key is shared: 0 when it is not in the table.\<close>

definition st_count :: "strtab \<Rightarrow> u32 \<times> bytes \<times> bool \<times> bool \<Rightarrow> nat" where
  "st_count st k = (\<Sum>h\<leftarrow>filter (\<lambda>h. hek_id h = k) (st_heks st). st_refs st (hek_addr h))"

definition st_wf :: "strtab \<Rightarrow> bool" where
  "st_wf st \<longleftrightarrow> slots_ok (strtab_slots st) \<and> st_keys st = length (st_heks st) \<and>
     st_tombstones st = tombs (strtab_slots st) \<and> 2 * (st_keys st + st_tombstones st) \<le> length (strtab_slots st) \<and>
     (\<exists>k. 15 \<le> k \<and> k \<le> 60 \<and> length (strtab_slots st) = 2 ^ k) \<and>
     (\<forall>h\<in>set (st_heks st). 0 < st_refs st (hek_addr h) \<and> st_refs st (hek_addr h) \<le> U32_MAX)"

text \<open>The table before its first key.\<close>

definition st_fresh :: "strtab \<Rightarrow> bool" where
  "st_fresh st \<longleftrightarrow> st_slots st = None \<and> st_keys st = 0 \<and> st_tombstones st = 0"

lemma st_wf_slots: "st_wf st \<Longrightarrow> st_slots st = Some (strtab_slots st)"
  by (cases "st_slots st") (auto simp: st_wf_def strtab_slots_def)

lemma st_count_in:
  assumes "distinct (map hek_id (st_heks st))" "h \<in> set (st_heks st)"
  shows "st_count st (hek_id h) = st_refs st (hek_addr h)"
proof -
  obtain A B where L: "st_heks st = A @ h # B" using assms(2) by (auto simp: in_set_conv_decomp)
  then have "filter (\<lambda>g. hek_id g = hek_id h) A = []" "filter (\<lambda>g. hek_id g = hek_id h) B = []"
    using assms(1) by (auto simp: filter_empty_conv) (metis image_eqI)+
  then show ?thesis by (simp add: st_count_def L)
qed

lemma st_count_out: "k \<notin> hek_id ` set (st_heks st) \<Longrightarrow> st_count st k = 0"
  by (auto simp: st_count_def filter_empty_conv intro!: arg_cong [of _ "[]" "\<lambda>xs. sum_list (map _ xs)"])

lemma st_count_cong:
  assumes "mset (st_heks st') = mset (st_heks st)" "st_refs st' = st_refs st"
  shows "st_count st' = st_count st"
proof
  fix k
  have "mset (map (\<lambda>h. st_refs st (hek_addr h)) (filter (\<lambda>h. hek_id h = k) (st_heks st'))) =
      mset (map (\<lambda>h. st_refs st (hek_addr h)) (filter (\<lambda>h. hek_id h = k) (st_heks st)))"
    using assms(1) by simp
  then show "st_count st' k = st_count st k" unfolding st_count_def assms(2) by (metis sum_mset_sum_list)
qed

lemma st_ids: "st_wf st \<Longrightarrow> distinct (map hek_id (st_heks st)) \<and> inj_on hek_addr (set (st_heks st))"
  by (simp add: st_wf_def slots_ok_def st_heks_def distinct_map)

text \<open>A change of the references of one HEK only.\<close>

lemma st_refs_change:
  assumes wf: "st_wf st" and h: "h \<in> set (st_heks st)" and n: "0 < n" "n \<le> U32_MAX"
  defines "st' \<equiv> st\<lparr>st_refs := (st_refs st)(hek_addr h := n)\<rparr>"
  shows "st_wf st' \<and> st_count st' = (st_count st)(hek_id h := n) \<and> st_heks st' = st_heks st"
proof -
  have s: "strtab_slots st' = strtab_slots st" "st_heks st' = st_heks st"
    by (simp_all add: st'_def strtab_slots_def st_heks_def)
  note i = st_ids [OF wf]
  have i': "distinct (map hek_id (st_heks st'))" using i s by simp
  have "st_count st' k = ((st_count st)(hek_id h := n)) k" for k
  proof (cases "k \<in> hek_id ` set (st_heks st)")
    case True
    then obtain g where g: "g \<in> set (st_heks st)" "k = hek_id g" by auto
    have "hek_addr g = hek_addr h \<longleftrightarrow> g = h" using i g(1) h by (auto dest: inj_onD)
    moreover have "hek_id g = hek_id h \<longleftrightarrow> g = h" using i g(1) h by (auto simp: distinct_map dest: inj_onD)
    ultimately show ?thesis
      using st_count_in [OF i' g(1) [folded s(2)]] st_count_in [OF i [THEN conjunct1] g(1)] g(2) by (auto simp: st'_def)
  next
    case False
    then show ?thesis using st_count_out [of k st] st_count_out [of k st'] s h by auto
  qed
  moreover have "st_wf st'" using wf n s unfolding st_wf_def by (auto simp: st'_def)
  ultimately show ?thesis using s by auto
qed

text \<open>Making room for a new key.\<close>

lemma strtab_prepare_insert_ok:
  assumes wf: "st_wf st" and small: "length (strtab_slots st) < 2 ^ 60"
    and q: "query_id q \<notin> hek_id ` set (st_heks st)"
    and pos: "case pos of None \<Rightarrow> \<forall>p<length (strtab_slots st). strtab_slots st ! p \<noteq> EmptySlot
      | Some p \<Rightarrow> free_at (strtab_slots st) (unat (q_hash q)) p"
  shows "\<exists>st' p. strtab_prepare_insert st q pos = Inr (st', Some p) \<and> st_wf st' \<and> mset (st_heks st') = mset (st_heks st) \<and>
    st_refs st' = st_refs st \<and> st_pins st' = st_pins st \<and> free_at (strtab_slots st') (unat (q_hash q)) p \<and>
    (strtab_slots st' ! p \<noteq> Tombstone \<longrightarrow> 2 * (st_keys st' + st_tombstones st' + 1) \<le> length (strtab_slots st'))"
proof -
  let ?S = "strtab_slots st" and ?occ = "st_keys st + st_tombstones st"
  let ?cap = "length ?S"
  have w: "slots_ok ?S" "st_keys st = length (st_heks st)" "st_tombstones st = tombs ?S" "2 * ?occ \<le> ?cap"
    using wf by (simp_all add: st_wf_def)
  obtain k where k: "15 \<le> k" "k \<le> 60" "?cap = 2 ^ k" using wf by (auto simp: st_wf_def)
  have k59: "k < 60" using small k(3) power_less_imp_less_exp [of "2 :: nat" k 60] by simp
  have big: "32768 \<le> ?cap" using k power_increasing [of 15 k "2 :: nat"] by simp
  have "?occ < ?cap" using w(4) big by auto
  then have "\<exists>p<?cap. ?S ! p = EmptySlot" using empty_exists [of ?S] w(2,3) by (simp add: st_heks_def)
  then obtain p0 where p0: "pos = Some p0" "free_at ?S (unat (q_hash q)) p0" using pos by (cases pos) auto
  show ?thesis
  proof (cases "?occ \<ge> ?cap div 2 \<and> ?S ! p0 \<noteq> Tombstone")
    case False
    then have "strtab_prepare_insert st q pos = Inr (st, Some p0)" by (auto simp: strtab_prepare_insert_def Let_def p0(1))
    moreover have "2 * (?occ + 1) \<le> ?cap" if "?S ! p0 \<noteq> Tombstone" using False that by simp
    ultimately show ?thesis using wf p0(2) by auto
  next
    case True
    define grow where "grow \<longleftrightarrow> st_tombstones st < (?occ + 1) div 2"
    define k' where "k' = (if grow then Suc k else k)"
    have k': "15 \<le> k'" "k' \<le> 60" using k k59 by (auto simp: k'_def)
    have cap': "(if grow then ?cap * 2 else ?cap) = 2 ^ k'" using k(3) by (simp add: k'_def)
    have "(2 :: nat) ^ k \<le> 2 ^ 60" using k(2) by (intro power_increasing) simp_all
    then have nw: "\<not> ?cap > MEM_SIZE_MAX div 2" using k(3) by (simp add: MEM_SIZE_MAX_def)
    have d: "distinct (map hek_id (heks ?S))" "distinct (map hek_addr (heks ?S))" using w(1) by (simp_all add: slots_ok_def)
    have room: "2 * (st_keys st + 1) \<le> 2 ^ k'"
    proof (cases grow)
      case True
      then show ?thesis using w(4) big k(3) by (simp add: k'_def)
    next
      case False
      then have "2 * st_keys st \<le> ?occ + 1" unfolding grow_def by auto
      then show ?thesis using w(4) big k(3) False by (simp add: k'_def)
    qed
    then have lt: "length (heks ?S) < 2 ^ k'" using w(2) by (simp add: st_heks_def)
    obtain t where t: "strtab_resize st (2 ^ k') = Inr (st\<lparr>st_slots := Some t, st_tombstones := 0\<rparr>)" "slots_ok t"
      "length t = 2 ^ k'" "tombs t = 0" "mset (heks t) = mset (heks ?S)"
      using strtab_resize_spec [OF k' d lt] by blast
    let ?st = "st\<lparr>st_slots := Some t, st_tombstones := 0\<rparr>"
    have S: "strtab_slots ?st = t" "st_heks ?st = heks t" by (simp_all add: strtab_slots_def st_heks_def)
    have lh: "length (heks t) = st_keys st" using arg_cong [OF t(5), of size] w(2) by (simp add: st_heks_def)
    have set_t: "set (heks t) = set (st_heks st)" using arg_cong [OF t(5), of set_mset] by (simp add: st_heks_def)
    have wf': "st_wf ?st" using wf t k' lh set_t room unfolding st_wf_def S by auto
    have f: "\<forall>h\<in>set (heks t). hek_id h \<noteq> query_id q" using q set_t by (metis image_eqI)
    obtain p where p: "strtab_find ?st q = (None, Some p)" "free_at t (unat (q_hash q)) p"
    proof -
      have "\<exists>p<length t. t ! p = EmptySlot" using empty_exists [of t] t(3,4) lh lt w(2) by (simp add: st_heks_def)
      then show ?thesis using strtab_find_spec [OF t(2), of ?st q] f that
        by (auto split: prod.splits option.splits)
    qed
    have "strtab_prepare_insert st q pos = Inr (?st, Some p)"
      using True nw t(1) p(1) cap' unfolding strtab_prepare_insert_def Let_def p0(1) grow_def [symmetric] by (simp add: attempt_def)
    then show ?thesis using wf' S t(4,5) p(2) room lh t(3) by (intro exI [of _ ?st] exI [of _ p]) (simp add: st_heks_def)
  qed
qed

section \<open>Sharing\<close>

lemma new_hek_id: "hek_id (new_hek addr q b) = query_id q" "hek_addr (new_hek addr q b) = addr" "hek_hash (new_hek addr q b) = q_hash q"
  by (simp_all add: new_hek_def hek_id_def query_id_def)

lemma strtab_insert_ok:
  assumes wf: "st_wf st" and q: "query_id q \<notin> hek_id ` set (st_heks st)" and addr: "addr \<notin> hek_addr ` set (st_heks st)"
    and p: "free_at (strtab_slots st) (unat (q_hash q)) p"
    and room: "strtab_slots st ! p \<noteq> Tombstone \<longrightarrow> 2 * (st_keys st + st_tombstones st + 1) \<le> length (strtab_slots st)"
  defines "h \<equiv> new_hek addr q False"
  shows "\<exists>st'. strtab_insert (st\<lparr>st_refs := (st_refs st)(addr := 1)\<rparr>) h (Some p) = Inr st' \<and> st_wf st' \<and>
    mset (st_heks st') = add_mset h (mset (st_heks st)) \<and> st_count st' = (st_count st)(query_id q := 1) \<and>
    st_pins st' = st_pins st"
proof -
  let ?S = "strtab_slots st"
  note i = new_hek_id [of addr q False, folded h_def]
  define st' where "st' = st\<lparr>st_refs := (st_refs st)(addr := 1),
       st_tombstones := (if ?S ! p = Tombstone then st_tombstones st - 1 else st_tombstones st),
       st_slots := Some (?S[p := Full h]), st_keys := st_keys st + 1\<rparr>"
  have e: "strtab_insert (st\<lparr>st_refs := (st_refs st)(addr := 1)\<rparr>) h (Some p) = Inr st'"
    by (simp add: strtab_insert_def st'_def strtab_slots_def)
  have S: "strtab_slots st' = ?S[p := Full h]" "st_heks st' = heks (?S[p := Full h])" "st_pins st' = st_pins st"
    by (simp_all add: st'_def strtab_slots_def st_heks_def)
  have w: "slots_ok ?S" "st_keys st = length (st_heks st)" "st_tombstones st = tombs ?S"
    "2 * (st_keys st + st_tombstones st) \<le> length ?S"
    using wf by (simp_all add: st_wf_def)
  have p': "free_at ?S (unat (hek_hash h)) p" using p i(3) by simp
  have "hek_id h \<notin> hek_id ` set (heks ?S)" "hek_addr h \<notin> hek_addr ` set (heks ?S)"
    using q addr i(1,2) by (simp_all add: st_heks_def)
  note f = slots_ok_fill [OF w(1) p' this]
  have m: "mset (st_heks st') = add_mset h (mset (st_heks st))" using f S by (simp add: st_heks_def)
  then have set': "set (st_heks st') = insert h (set (st_heks st))" by (metis set_mset_add_mset_insert set_mset_mset)
  have keys: "st_keys st' = length (st_heks st')" using arg_cong [OF m, of size] w(2) by (simp add: st'_def)
  have pl: "p < length ?S" using p by (simp add: free_at_def)
  have tpos: "?S ! p = Tombstone \<Longrightarrow> 0 < tombs ?S" using pl by (auto simp: tombs_def filter_empty_conv in_set_conv_nth)
  have refs: "\<forall>g\<in>set (st_heks st). st_refs st' (hek_addr g) = st_refs st (hek_addr g)"
    using addr by (auto simp: st'_def)
  have "st_tombstones st' = tombs (strtab_slots st')" using f w(3) S by (simp add: st'_def)
  moreover have "2 * (st_keys st' + st_tombstones st') \<le> length (strtab_slots st')"
    using room w(3,4) tpos S by (auto simp: st'_def)
  moreover have "\<forall>g\<in>set (st_heks st'). 0 < st_refs st' (hek_addr g) \<and> st_refs st' (hek_addr g) \<le> U32_MAX"
    using wf refs unfolding set' st_wf_def by (auto simp: i st'_def U32_MAX_def)
  ultimately have wf': "st_wf st'" using f keys wf S unfolding st_wf_def by (simp add: st_heks_def)
  have "st_count st' k = ((st_count st)(query_id q := 1)) k" for k
  proof (cases "k \<in> hek_id ` set (st_heks st')")
    case True
    then obtain g where g: "g \<in> set (st_heks st')" "k = hek_id g" by auto
    have c: "st_count st' k = st_refs st' (hek_addr g)" using st_count_in [OF st_ids [OF wf', THEN conjunct1] g(1)] g(2) by simp
    show ?thesis
    proof (cases "g = h")
      case True
      then show ?thesis using c g(2) i by (simp add: st'_def)
    next
      case False
      then have g': "g \<in> set (st_heks st)" using g(1) set' by simp
      then have "k \<noteq> query_id q" using q g(2) by (metis image_eqI)
      then show ?thesis using c st_count_in [OF st_ids [OF wf, THEN conjunct1] g'] g(2) refs g' by simp
    qed
  next
    case False
    then have "k \<noteq> query_id q" "k \<notin> hek_id ` set (st_heks st)" using set' i(1) by auto
    then show ?thesis using False st_count_out [of k st] st_count_out [of k st'] by simp
  qed
  then have "st_count st' = (st_count st)(query_id q := 1)" by blast
  then show ?thesis using e wf' m S(3) by blast
qed

text \<open>The first key makes the table.\<close>

lemma strtab_create_ok:
  assumes "st_fresh st"
  shows "\<exists>st'. strtab_resize st STRTAB_MIN_CAPACITY = Inr st' \<and> st_wf st' \<and> st_heks st' = [] \<and> st_refs st' = st_refs st \<and>
    st_pins st' = st_pins st \<and> length (strtab_slots st') < 2 ^ 60"
proof -
  have s: "strtab_slots st = []" using assms by (simp add: st_fresh_def strtab_slots_def)
  obtain t where t: "strtab_resize st (2 ^ 15) = Inr (st\<lparr>st_slots := Some t, st_tombstones := 0\<rparr>)" "slots_ok t"
    "length t = 2 ^ 15" "tombs t = 0" "mset (heks t) = mset (heks (strtab_slots st))"
    using strtab_resize_spec [of 15 st] s by auto
  let ?st = "st\<lparr>st_slots := Some t, st_tombstones := 0\<rparr>"
  have h: "heks t = []" using t(5) s by simp
  have "st_wf ?st" using t h assms by (simp add: st_wf_def strtab_slots_def st_heks_def st_fresh_def exI [of _ 15])
  moreover have "st_heks ?st = []" "length (strtab_slots ?st) < 2 ^ 60" using h t(3) by (simp_all add: st_heks_def strtab_slots_def)
  ultimately show ?thesis using t(1) by (simp add: STRTAB_MIN_CAPACITY_def)
qed

lemma share_found:
  assumes wf: "st_wf st" and h: "h \<in> set (st_heks st)" "hek_id h = query_id q" and len: "length (q_key q) \<le> I32_MAX"
  shows "share_hek_flags st q addr =
      (if st_count st (query_id q) = U32_MAX then Inl StrtabMemoryWrap
       else Inr (st\<lparr>st_refs := (st_refs st)(hek_addr h := st_count st (query_id q) + 1)\<rparr>, h))"
proof -
  have ok: "slots_ok (strtab_slots st)" using wf by (simp add: st_wf_def)
  have d: "distinct (map hek_id (st_heks st))" using st_ids [OF wf] by simp
  have c: "st_count st (query_id q) = st_refs st (hek_addr h)" using st_count_in [OF d h(1)] h(2) by simp
  obtain g ip where g: "strtab_find st q = (Some g, ip)" "hek_id g = query_id q" "g \<in> set (st_heks st)"
  proof (cases "strtab_find st q")
    case (Pair r ip)
    have "query_id q \<in> hek_id ` set (heks (strtab_slots st))" using h by (auto simp: st_heks_def) (metis image_eqI)
    then show ?thesis using strtab_find_spec [OF ok st_wf_slots [OF wf], of q] Pair that
      by (cases r) (auto simp: st_heks_def)
  qed
  have "inj_on hek_id (set (st_heks st))" using d by (simp add: distinct_map)
  then have "g = h" by (rule inj_onD) (use g(2,3) h in simp_all)
  then show ?thesis using g(1) st_wf_slots [OF wf] len c
    by (simp add: share_hek_flags_def attempt_def share_hek_hek_def)
qed

lemma share_new:
  assumes wf: "st_wf st" and small: "length (strtab_slots st) < 2 ^ 60" and q: "query_id q \<notin> hek_id ` set (st_heks st)"
    and addr: "addr \<notin> hek_addr ` set (st_heks st)" and len: "length (q_key q) \<le> I32_MAX"
  shows "\<exists>st'. share_hek_flags st q addr = Inr (st', new_hek addr q False) \<and> st_wf st' \<and>
    mset (st_heks st') = add_mset (new_hek addr q False) (mset (st_heks st)) \<and>
    st_count st' = (st_count st)(query_id q := 1) \<and> st_pins st' = st_pins st"
proof -
  have ok: "slots_ok (strtab_slots st)" using wf by (simp add: st_wf_def)
  have n: "\<forall>h\<in>set (heks (strtab_slots st)). hek_id h \<noteq> query_id q" using q by (metis image_eqI st_heks_def)
  obtain ip where f: "strtab_find st q = (None, ip)" "case ip of None \<Rightarrow> \<forall>p<length (strtab_slots st). strtab_slots st ! p \<noteq> EmptySlot
      | Some p \<Rightarrow> free_at (strtab_slots st) (unat (q_hash q)) p"
  proof (cases "strtab_find st q")
    case (Pair r ip)
    then show ?thesis using strtab_find_spec [OF ok st_wf_slots [OF wf], of q] n that
      by (cases r) (auto split: option.splits)
  qed
  obtain st1 p where 1: "strtab_prepare_insert st q ip = Inr (st1, Some p)" "st_wf st1" "mset (st_heks st1) = mset (st_heks st)"
    "st_refs st1 = st_refs st" "st_pins st1 = st_pins st" "free_at (strtab_slots st1) (unat (q_hash q)) p"
    "strtab_slots st1 ! p \<noteq> Tombstone \<longrightarrow> 2 * (st_keys st1 + st_tombstones st1 + 1) \<le> length (strtab_slots st1)"
    using strtab_prepare_insert_ok [OF wf small q f(2)] by blast
  have s1: "set (st_heks st1) = set (st_heks st)" using 1(3) by (metis set_mset_mset)
  obtain st2 where 2: "strtab_insert (st1\<lparr>st_refs := (st_refs st1)(addr := 1)\<rparr>) (new_hek addr q False) (Some p) = Inr st2"
    "st_wf st2" "mset (st_heks st2) = add_mset (new_hek addr q False) (mset (st_heks st1))"
    "st_count st2 = (st_count st1)(query_id q := 1)" "st_pins st2 = st_pins st1"
    using strtab_insert_ok [OF 1(2) _ _ 1(6,7), of addr] q addr s1 by auto
  have "share_hek_flags st q addr = Inr (st2, new_hek addr q False)"
    using f(1) 1(1) 2(1) st_wf_slots [OF wf] len by (simp add: share_hek_flags_def attempt_def Let_def)
  then show ?thesis using 2 1 st_count_cong [OF 1(3,4)] by simp
qed

section \<open>Unsharing\<close>

lemma strtab_release_ok:
  assumes wf: "st_wf st" and p: "p < length (strtab_slots st)" "strtab_slots st ! p = Full h"
  shows "st_wf (strtab_release st (hek_addr h) p) \<and>
    st_count (strtab_release st (hek_addr h) p) = (st_count st)(hek_id h := st_count st (hek_id h) - 1) \<and>
    set (st_heks (strtab_release st (hek_addr h) p)) = (if st_count st (hek_id h) = 1 then set (st_heks st) - {h} else set (st_heks st)) \<and>
    st_pins (strtab_release st (hek_addr h) p) = st_pins st"
proof -
  let ?S = "strtab_slots st" and ?st' = "strtab_release st (hek_addr h) p"
  have h: "h \<in> set (st_heks st)" using p by (auto simp: st_heks_def in_heks)
  note ids = st_ids [OF wf]
  have c: "st_count st (hek_id h) = st_refs st (hek_addr h)" using st_count_in [OF ids [THEN conjunct1] h] .
  have pos: "0 < st_refs st (hek_addr h)" "st_refs st (hek_addr h) \<le> U32_MAX" using wf h by (auto simp: st_wf_def)
  show ?thesis
  proof (cases "st_refs st (hek_addr h) = 1")
    case False
    then have "?st' = st\<lparr>st_refs := (st_refs st)(hek_addr h := st_refs st (hek_addr h) - 1)\<rparr>"
      using pos by (simp add: strtab_release_def)
    then show ?thesis using st_refs_change [OF wf h, of "st_refs st (hek_addr h) - 1"] pos False c by simp
  next
    case True
    define st' where "st' = st\<lparr>st_refs := (st_refs st)(hek_addr h := 0), st_slots := Some (?S[p := Tombstone]),
           st_tombstones := st_tombstones st + 1, st_keys := st_keys st - 1\<rparr>"
    have e: "?st' = st'" using True by (simp add: strtab_release_def st'_def strtab_slots_def)
    have w: "slots_ok ?S" "st_keys st = length (st_heks st)" "st_tombstones st = tombs ?S"
      "2 * (st_keys st + st_tombstones st) \<le> length ?S"
      using wf by (simp_all add: st_wf_def)
    note f = slots_ok_drop [OF w(1) p]
    have S: "strtab_slots st' = ?S[p := Tombstone]" "st_heks st' = heks (?S[p := Tombstone])"
      by (simp_all add: st'_def strtab_slots_def st_heks_def)
    have m: "add_mset h (mset (st_heks st')) = mset (st_heks st)" using f S by (simp add: st_heks_def)
    have "distinct (st_heks st)" using ids by (simp add: distinct_map)
    then have "count (mset (st_heks st)) h = 1" using h by (simp add: count_mset_0_iff distinct_count_atmost_1)
    then have "h \<notin> set (st_heks st')" using arg_cong [OF m, of "\<lambda>M. count M h"] by (simp add: count_eq_zero_iff)
    moreover have "insert h (set (st_heks st')) = set (st_heks st)" using m by (metis set_mset_add_mset_insert set_mset_mset)
    ultimately have set': "set (st_heks st') = set (st_heks st) - {h}" by blast
    have len: "Suc (length (st_heks st')) = length (st_heks st)" using arg_cong [OF m, of size] by simp
    have other: "hek_addr g \<noteq> hek_addr h" if "g \<in> set (st_heks st')" for g
      using that set' ids h by (auto dest: inj_onD)
    have refs: "\<forall>g\<in>set (st_heks st'). st_refs st' (hek_addr g) = st_refs st (hek_addr g)"
      using other by (auto simp: st'_def)
    have "st_keys st' = length (st_heks st')" "st_tombstones st' = tombs (strtab_slots st')"
      using len w f S by (simp_all add: st'_def)
    moreover have "2 * (st_keys st' + st_tombstones st') \<le> length (strtab_slots st')"
      using len w S by (simp add: st'_def)
    moreover have "\<forall>g\<in>set (st_heks st'). 0 < st_refs st' (hek_addr g) \<and> st_refs st' (hek_addr g) \<le> U32_MAX"
      using refs set' wf by (auto simp: st_wf_def)
    ultimately have wf': "st_wf st'" using wf f S unfolding st_wf_def by simp
    have "st_count st' k = ((st_count st)(hek_id h := 0)) k" for k
    proof (cases "k \<in> hek_id ` set (st_heks st')")
      case t: True
      then obtain g where g: "g \<in> set (st_heks st')" "k = hek_id g" by auto
      then have g': "g \<in> set (st_heks st)" "g \<noteq> h" using set' by auto
      then have "k \<noteq> hek_id h" using ids g(2) h by (auto simp: distinct_map dest: inj_onD)
      then show ?thesis using st_count_in [OF st_ids [OF wf', THEN conjunct1] g(1)] st_count_in [OF ids [THEN conjunct1] g'(1)] g(2) refs g(1)
        by simp
    next
      case f: False
      then have "k = hek_id h \<or> k \<notin> hek_id ` set (st_heks st)" using set' by auto
      then show ?thesis using f st_count_out [of k st] st_count_out [of k st'] by auto
    qed
    then have "st_count st' = (st_count st)(hek_id h := 0)" by blast
    then show ?thesis using e wf' set' True c by (simp add: st'_def)
  qed
qed

theorem unshare_hek_ok:
  assumes wf: "st_wf st" and h: "h \<in> set (st_heks st)"
  shows "\<exists>st'. unshare_hek st h = (st', True) \<and> st_wf st' \<and> st_count st' = (st_count st)(hek_id h := st_count st (hek_id h) - 1) \<and>
    set (st_heks st') = (if st_count st (hek_id h) = 1 then set (st_heks st) - {h} else set (st_heks st)) \<and> st_pins st' = st_pins st"
proof -
  have ok: "slots_ok (strtab_slots st)" using wf by (simp add: st_wf_def)
  have c: "st_count st (hek_id h) = st_refs st (hek_addr h)" using st_count_in [OF st_ids [OF wf, THEN conjunct1] h] .
  have pos: "st_refs st (hek_addr h) \<le> U32_MAX" using wf h by (auto simp: st_wf_def)
  show ?thesis
  proof (cases "st_refs st (hek_addr h) > 1")
    case True
    then show ?thesis using st_refs_change [OF wf h, of "st_refs st (hek_addr h) - 1"] pos c
      by (simp add: unshare_hek_def)
  next
    case False
    obtain p where p: "p < length (strtab_slots st)" "strtab_slots st ! p = Full h"
      "strtab_locate (hek_addr h) (strtab_slots st) (length (strtab_slots st)) (unat (hek_hash h) AND (length (strtab_slots st) - 1)) = Some p"
      using strtab_locate_spec [OF ok] h by (auto simp: st_heks_def)
    then have "unshare_hek st h = (strtab_release st (hek_addr h) p, True)" using False by (simp add: unshare_hek_def)
    then show ?thesis using strtab_release_ok [OF wf p(1,2)] by simp
  qed
qed

end
