(* ===== verification/Strtab_Props.thy ===== *)
theory Strtab_Props
  imports Strtab_Wf Hv_Props
begin

text \<open>
  What the shared key table promises to the hashes and scalars that keep pointers into it: one HEK
  for each key, stable while it is referenced, freed with its last reference.
\<close>

definition st_valid :: "strtab \<Rightarrow> bool" where
  "st_valid st \<longleftrightarrow> st_wf st \<or> st_fresh st"

text \<open>A request that can be met: the key is not too long, its count not at its limit, the table not
  at the limit of the address space, and a new address is new.\<close>

definition share_ready :: "strtab \<Rightarrow> query \<Rightarrow> nat \<Rightarrow> bool" where
  "share_ready st q addr \<longleftrightarrow> length (q_key q) \<le> I32_MAX \<and> st_count st (query_id q) < U32_MAX \<and>
     length (strtab_slots st) < 2 ^ 60 \<and> addr \<notin> hek_addr ` set (st_heks st)"

lemma st_fresh_heks: "st_fresh st \<Longrightarrow> st_heks st = [] \<and> st_count st = (\<lambda>_. 0)"
  by (simp add: st_fresh_def st_heks_def strtab_slots_def st_count_def fun_eq_iff)

lemma share_hek_ok:
  assumes v: "st_valid st" and r: "share_ready st q addr"
  shows "\<exists>st' h. share_hek_flags st q addr = Inr (st', h) \<and> st_wf st' \<and> hek_id h = query_id q \<and>
    st_count st' = (st_count st)(query_id q := st_count st (query_id q) + 1) \<and>
    set (st_heks st') = insert h (set (st_heks st)) \<and>
    (query_id q \<in> hek_id ` set (st_heks st) \<longrightarrow> h \<in> set (st_heks st))"
  using v unfolding st_valid_def
proof
  assume wf: "st_wf st"
  show ?thesis
  proof (cases "query_id q \<in> hek_id ` set (st_heks st)")
    case True
    then obtain h where h: "h \<in> set (st_heks st)" "hek_id h = query_id q" by auto
    let ?n = "st_count st (query_id q) + 1"
    have "share_hek_flags st q addr = Inr (st\<lparr>st_refs := (st_refs st)(hek_addr h := ?n)\<rparr>, h)"
      using share_found [OF wf h, of addr] r by (simp add: share_ready_def)
    moreover note st_refs_change [OF wf h(1), of ?n]
    ultimately show ?thesis using r h
      by (intro exI [of _ "st\<lparr>st_refs := (st_refs st)(hek_addr h := ?n)\<rparr>"] exI [of _ h]) (auto simp: share_ready_def)
  next
    case False
    obtain st' where s: "share_hek_flags st q addr = Inr (st', new_hek addr q False)" "st_wf st'"
      "mset (st_heks st') = add_mset (new_hek addr q False) (mset (st_heks st))" "st_count st' = (st_count st)(query_id q := 1)"
      using share_new [OF wf _ False] r by (auto simp: share_ready_def)
    have "set (st_heks st') = insert (new_hek addr q False) (set (st_heks st))"
      using s(3) by (metis set_mset_add_mset_insert set_mset_mset)
    then show ?thesis using s False st_count_out [OF False] new_hek_id(1) [of addr q False]
      by (intro exI [of _ st'] exI [of _ "new_hek addr q False"]) simp
  qed
next
  assume f: "st_fresh st"
  obtain st1 where 1: "strtab_resize st STRTAB_MIN_CAPACITY = Inr st1" "st_wf st1" "st_heks st1 = []" "length (strtab_slots st1) < 2 ^ 60"
    using strtab_create_ok [OF f] by blast
  obtain st' where s: "share_hek_flags st1 q addr = Inr (st', new_hek addr q False)" "st_wf st'"
    "mset (st_heks st') = add_mset (new_hek addr q False) (mset (st_heks st1))" "st_count st' = (st_count st1)(query_id q := 1)"
    using share_new [OF 1(2,4), of q addr] 1(3) r by (auto simp: share_ready_def)
  have "st_slots st1 \<noteq> None" "st_slots st = None" using st_wf_slots [OF 1(2)] f by (auto simp: st_fresh_def)
  then have "share_hek_flags st q addr = share_hek_flags st1 q addr"
    using 1(1) by (auto simp: share_hek_flags_def attempt_def)
  moreover have "st_count st1 = (\<lambda>_. 0)" using 1(3) by (simp add: st_count_def fun_eq_iff)
  moreover have "set (st_heks st') = {new_hek addr q False}" using s(3) 1(3) by (metis set_mset_add_mset_insert set_mset_mset list.set(1) )
  ultimately show ?thesis using s st_fresh_heks [OF f] new_hek_id(1) [of addr q False]
    by (intro exI [of _ st'] exI [of _ "new_hek addr q False"]) simp
qed

lemma strtab_new_fresh: "st_fresh strtab_new" by (simp add: st_fresh_def strtab_new_def)

lemma strtab_new_ready: "length (fst k) \<le> I32_MAX \<Longrightarrow> share_ready strtab_new (plain_query H k) addr"
  using st_fresh_heks [OF strtab_new_fresh]
  by (simp add: share_ready_def plain_query_def U32_MAX_def) (simp add: strtab_new_def strtab_slots_def)



text \<open>C20: \<open>unshare_hek\<close> of a HEK in the table never warns: it finds the HEK by its address alone,
  drops exactly one reference of its key, and removes the HEK exactly when that was the last one.\<close>

theorem unshare_releases:
  assumes "st_wf st" "h \<in> set (st_heks st)"
  shows "\<exists>st'. unshare_hek st h = (st', True) \<and> st_wf st' \<and>
    st_count st' = (st_count st)(hek_id h := st_count st (hek_id h) - 1) \<and>
    set (st_heks st') = (if st_count st (hek_id h) = 1 then set (st_heks st) - {h} else set (st_heks st))"
  using unshare_hek_ok [OF assms] by blast

theorem unshare_releases_witness:
  "\<exists>st h st'. share_hek_flags strtab_new (plain_query byte_sum key_a) 7 = Inr (st, h) \<and> unshare_hek st h = (st', True) \<and>
    st_heks st' = []"
proof -
  obtain st h where s: "share_hek_flags strtab_new (plain_query byte_sum key_a) 7 = Inr (st, h)" "st_wf st" "set (st_heks st) = {h}"
    "st_count st = (\<lambda>_. 0)(query_id (plain_query byte_sum key_a) := 1)" "hek_id h = query_id (plain_query byte_sum key_a)"
    using share_hek_ok [of strtab_new "plain_query byte_sum key_a" 7] strtab_new_ready [of key_a byte_sum 7]
      st_fresh_heks [OF strtab_new_fresh] strtab_new_fresh
    by (auto simp: st_valid_def key_a_def I32_MAX_def)
  then obtain st' where "unshare_hek st h = (st', True)" "set (st_heks st') = {}"
    using unshare_releases [of st h] by auto
  then show ?thesis using s(1) by auto
qed

text \<open>C21: sharing a key and giving the HEK back leaves every count as it was.\<close>

theorem share_unshare_roundtrip:
  assumes "st_valid st" "share_ready st q addr"
  shows "\<exists>st1 h st2. share_hek_flags st q addr = Inr (st1, h) \<and> unshare_hek st1 h = (st2, True) \<and> st_wf st2 \<and>
    st_count st2 = st_count st"
proof -
  obtain st1 h where s: "share_hek_flags st q addr = Inr (st1, h)" "st_wf st1" "hek_id h = query_id q"
    "st_count st1 = (st_count st)(query_id q := st_count st (query_id q) + 1)" "set (st_heks st1) = insert h (set (st_heks st))"
    using share_hek_ok [OF assms] by blast
  then obtain st2 where "unshare_hek st1 h = (st2, True)" "st_wf st2"
    "st_count st2 = (st_count st1)(hek_id h := st_count st1 (hek_id h) - 1)"
    using unshare_hek_ok [of st1 h] by auto
  then show ?thesis using s by (intro exI [of _ st1] exI [of _ h] exI [of _ st2]) (simp add: fun_eq_iff)
qed

theorem share_unshare_roundtrip_witness:
  "\<exists>st1 h st2. share_hek_flags strtab_new (plain_query byte_sum key_b) 3 = Inr (st1, h) \<and> unshare_hek st1 h = (st2, True) \<and>
    st_count st2 = (\<lambda>_. 0)"
  using share_unshare_roundtrip [of strtab_new "plain_query byte_sum key_b" 3] strtab_new_ready [of key_b byte_sum 3]
    st_fresh_heks [OF strtab_new_fresh] strtab_new_fresh
  by (auto simp: st_valid_def key_b_def I32_MAX_def)

text \<open>C22: a resize (or a rehash in place, to get rid of tombstones) ends, keeps every HEK, drops every
  tombstone, and makes every HEK reachable in the new table; for any table size from the least one
  to the largest that the size check admits.\<close>

theorem strtab_resize_keeps:
  assumes "15 \<le> k" "k \<le> 60" "st_wf st" "st_keys st < 2 ^ k"
  shows "\<exists>st'. strtab_resize st (2 ^ k) = Inr st' \<and> slots_ok (strtab_slots st') \<and> length (strtab_slots st') = 2 ^ k \<and>
    tombs (strtab_slots st') = 0 \<and> st_tombstones st' = 0 \<and> mset (st_heks st') = mset (st_heks st)"
proof -
  have "slots_ok (strtab_slots st)" "st_keys st = length (heks (strtab_slots st))"
    using assms(3) by (simp_all add: st_wf_def st_heks_def)
  then show ?thesis using strtab_resize_spec [OF assms(1,2), of st] assms(4)
    by (auto simp: slots_ok_def strtab_slots_def st_heks_def)
qed

theorem strtab_resize_keeps_witness:
  "\<exists>st1 st'. strtab_resize strtab_new STRTAB_MIN_CAPACITY = Inr st1 \<and> strtab_resize st1 (2 ^ 16) = Inr st' \<and>
    length (strtab_slots st') = 2 ^ 16"
proof -
  obtain st1 where "strtab_resize strtab_new STRTAB_MIN_CAPACITY = Inr st1" "st_wf st1" "st_heks st1 = []"
    using strtab_create_ok [OF strtab_new_fresh] by blast
  moreover then have "st_keys st1 = 0" by (simp add: st_wf_def)
  ultimately show ?thesis using strtab_resize_keeps [of 16 st1] by auto
qed

lemma strtab_capacity_loop_spec:
  assumes "j \<le> 60" "t \<le> 2 ^ 60"
  shows "\<exists>k. j \<le> k \<and> k \<le> 60 \<and> strtab_capacity_loop (2 ^ j) t = 2 ^ k \<and> t \<le> 2 ^ k \<and> (\<forall>i. j \<le> i \<longrightarrow> i < k \<longrightarrow> 2 ^ i < t)"
  using assms(1)
proof (induction "60 - j" arbitrary: j)
  case 0
  then have "j = 60" by simp
  then have "strtab_capacity_loop (2 ^ j) t = 2 ^ j" using assms(2) by (subst strtab_capacity_loop.simps) simp
  then show ?case using \<open>j = 60\<close> assms(2) by (intro exI [of _ j]) simp
next
  case (Suc m)
  then have "j < 60" and m: "m = 60 - Suc j" by simp_all
  then have lt: "(2 :: nat) ^ j < 2 ^ 60" by (intro power_strict_increasing) simp_all
  show ?case
  proof (cases "2 ^ j < t")
    case True
    then have "strtab_capacity_loop (2 ^ j) t = strtab_capacity_loop (2 ^ Suc j) t"
      using lt by (subst strtab_capacity_loop.simps) (simp add: MEM_SIZE_MAX_def mult.commute)
    moreover obtain k where k: "Suc j \<le> k" "k \<le> 60" "strtab_capacity_loop (2 ^ Suc j) t = 2 ^ k" "t \<le> 2 ^ k"
      "\<forall>i. Suc j \<le> i \<longrightarrow> i < k \<longrightarrow> 2 ^ i < t"
      using Suc.hyps(1) [OF m] \<open>j < 60\<close> by auto
    moreover have "\<forall>i. j \<le> i \<longrightarrow> i < k \<longrightarrow> 2 ^ i < t" using k(5) True by (metis le_neq_implies_less Suc_leI)
    ultimately show ?thesis by (intro exI [of _ k]) auto
  next
    case False
    then have "strtab_capacity_loop (2 ^ j) t = 2 ^ j" by (subst strtab_capacity_loop.simps) simp
    then show ?thesis using False Suc.prems by (intro exI [of _ j]) auto
  qed
qed

text \<open>C23: \<open>S_hv_strtab_capacity_for\<close> gives the least legal capacity (a power of two from 32768 up)
  that leaves the table less than half full; it passes the size check, so the allocation cannot
  wrap.\<close>

theorem strtab_capacity_least:
  assumes "live < 2 ^ 59"
  shows "\<exists>k. 15 \<le> k \<and> k \<le> 60 \<and> hv_strtab_capacity_for live = 2 ^ k \<and> 2 * live < 2 ^ k \<and> hv_strtab_size_valid (2 ^ k) \<and>
    (\<forall>i. 15 \<le> i \<longrightarrow> i < k \<longrightarrow> 2 ^ i \<le> 2 * live)"
proof -
  obtain k where k: "15 \<le> k" "k \<le> 60" "strtab_capacity_loop (2 ^ 15) (live * 2 + 1) = 2 ^ k" "live * 2 + 1 \<le> 2 ^ k"
    "\<forall>i. 15 \<le> i \<longrightarrow> i < k \<longrightarrow> 2 ^ i < live * 2 + 1"
    using strtab_capacity_loop_spec [of 15 "live * 2 + 1"] assms by auto
  note v = strtab_size_valid_pow [OF k(1,2)]
  have "hv_strtab_capacity_for live = 2 ^ k"
    using assms k(3) v(1) by (simp add: hv_strtab_capacity_for_def MEM_SIZE_MAX_def Let_def)
  then show ?thesis using k v(1) by (intro exI [of _ k]) auto
qed

theorem strtab_capacity_least_witness:
  "\<exists>k. hv_strtab_capacity_for 20000 = 2 ^ k \<and> 40000 < (2 :: nat) ^ k"
  using strtab_capacity_least [of 20000] by auto

end
