(* ===== verification/Time64.thy ===== *)
theory Time64
  imports Complex_Main Prelude "HOL-Library.Signed_Division"
begin

text \<open>
  The calendar of \<open>src/time64.c\<close>: conversion between seconds since 1970 and broken-down
  UTC and local times for years far outside the range of the system's functions.

  \<^item> Tables, the leap-year test, the cheat constants and the \<open>WRAP\<close> macro.
  \<^item> \<open>TM64\<close> is the structure of \<open>time64.h\<close> (the build has \<open>tm_gmtoff\<close> and \<open>tm_zone\<close>).
  \<^item> \<open>S_timegm64\<close>, \<open>S_check_tm\<close>, \<open>S_cycle_offset\<close>, \<open>S_safe_year\<close>, \<open>Perl_gmtime64_r\<close> and
    \<open>Perl_localtime64_r\<close>, with each loop as a recursive function of its own.

  A \<open>Time64_T\<close> is a double that holds an integer here; it is modelled by \<open>int\<close>. \<open>%\<close> and \<open>/\<close> on
  the C integers and \<open>Perl_fmod\<close> truncate towards zero, so they are \<open>smod\<close> and \<open>sdiv\<close>;
  the pair \<open>Perl_floor\<close>, \<open>Perl_ceil\<close> of a quotient, chosen by the sign, is \<open>sdiv\<close> too. For
  \<open>\<bar>time\<bar> \<le> TIME_EXACT\<close> the rounding of the double division never crosses an integer (the
  fraction of the quotient by 60 is at most 56/60 where the spacing of doubles is 1/8), so
  the model and the code agree there; theorems carry that bound. Beyond it, in the last
  0.4 percent of the range that \<open>gmtime\<close> accepts, the quotient can round up to the next minute.
  The days that \<open>S_timegm64\<close> counts are a C \<open>int\<close> and wrap (\<open>c_int\<close>).

  An index outside a table, undefined in C, is \<open>None\<close>. The system's \<open>localtime\<close> and the bounds
  within which it is used (found by the build) are parameters of \<open>Perl_localtime64_r\<close>;
  \<open>gmtime\<close> of the system is not used on this platform.
\<close>

definition TIME_EXACT :: int where
  "TIME_EXACT = 60 * 2 ^ 50"

section \<open>Tables and macros\<close>

definition days_in_month :: "int list list" where
  "days_in_month =
     [[31, 28, 31, 30, 31, 30, 31, 31, 30, 31, 30, 31],
      [31, 29, 31, 30, 31, 30, 31, 31, 30, 31, 30, 31]]"

definition julian_days_by_month :: "int list list" where
  "julian_days_by_month =
     [[0, 31, 59, 90, 120, 151, 181, 212, 243, 273, 304, 334],
      [0, 31, 60, 91, 121, 152, 182, 213, 244, 274, 305, 335]]"

definition length_of_year :: "int list" where
  "length_of_year = [365, 366]"

definition years_in_gregorian_cycle :: int where
  "years_in_gregorian_cycle = 400"

definition days_in_gregorian_cycle :: int where
  "days_in_gregorian_cycle = 365 * 400 + 100 - 4 + 1"

definition SOLAR_CYCLE_LENGTH :: int where
  "SOLAR_CYCLE_LENGTH = 28"

definition safe_years :: "int list" where
  "safe_years =
     [2016, 2017, 2018, 2019,
      2020, 2021, 2022, 2023,
      2024, 2025, 2026, 2027,
      2028, 2029, 2030, 2031,
      2032, 2033, 2034, 2035,
      2036, 2037, 2010, 2011,
      2012, 2013, 2014, 2015]"

definition CHEAT_DAYS :: int where
  "CHEAT_DAYS = 1199145600 sdiv 24 sdiv 60 sdiv 60"

definition CHEAT_YEARS :: int where
  "CHEAT_YEARS = 108"

definition IS_LEAP :: "int \<Rightarrow> nat" where
  "IS_LEAP n = of_bool ((n + 1900) smod 400 = 0
     \<or> ((n + 1900) smod 4 = 0 \<and> (n + 1900) smod 100 \<noteq> 0))"

text \<open>\<open>WRAP(a,b,m)\<close>: the new values of \<open>a\<close> and \<open>b\<close>.\<close>

definition WRAP :: "int \<Rightarrow> int \<Rightarrow> int \<Rightarrow> int \<times> int" where
  "WRAP a b m = (if a < 0 then (a + m, b - 1) else (a, b))"

section \<open>The broken-down time\<close>

record TM64 =
  tm_sec :: int
  tm_min :: int
  tm_hour :: int
  tm_mday :: int
  tm_mon :: int
  tm_year :: int
  tm_wday :: int
  tm_yday :: int
  tm_isdst :: int
  tm_gmtoff :: int
  tm_zone :: string

section \<open>Broken-down time to seconds\<close>

definition S_is_exception_century :: "int \<Rightarrow> bool" where
  "S_is_exception_century year = (year smod 100 = 0 \<and> \<not> year smod 400 = 0)"

text \<open>A value kept in an \<open>int\<close> of 32 bits: it wraps around, as the build's \<open>-fwrapv\<close> has it. The days
  of \<open>S_timegm64\<close> and its products of hours and minutes are such values.\<close>

definition c_int :: "int \<Rightarrow> int" where
  "c_int x = signed_take_bit 31 x"

text \<open>The loop from 70 up to the year; the \<open>do\<close> loop from 69 down to it.\<close>

function timegm_up :: "int \<Rightarrow> int \<Rightarrow> int \<Rightarrow> int" where
  "timegm_up stop year days =
     (if year < stop then timegm_up stop (year + 1) (c_int (days + length_of_year ! IS_LEAP year)) else days)"
  by pat_completeness auto
termination by (relation "measure (\<lambda>(stop, year, days). nat (stop - year))") auto

declare timegm_up.simps [simp del]

function timegm_down :: "int \<Rightarrow> int \<Rightarrow> int \<Rightarrow> int" where
  "timegm_down stop year days =
     (let days = c_int (days - length_of_year ! IS_LEAP year); year = year - 1
      in if year \<ge> stop then timegm_down stop year days else days)"
  by pat_completeness auto
termination by (relation "measure (\<lambda>(stop, year, days). nat (year - stop))") auto

declare timegm_down.simps [simp del]

definition S_timegm64 :: "TM64 \<Rightarrow> int" where
  "S_timegm64 date =
     (let days = (if tm_year date > 70 then timegm_up (tm_year date) 70 0
                  else if tm_year date < 70 then timegm_down (tm_year date) 69 0
                  else 0);
          days = c_int (days + julian_days_by_month ! IS_LEAP (tm_year date) ! nat (tm_mon date));
          days = c_int (days + c_int (tm_mday date - 1));
          seconds = days * 60 * 60 * 24;
          seconds = seconds + c_int (c_int (tm_hour date * 60) * 60);
          seconds = seconds + c_int (tm_min date * 60)
      in seconds + tm_sec date)"

text \<open>The assertions of a debugging build on every result.\<close>

definition S_check_tm :: "TM64 \<Rightarrow> bool" where
  "S_check_tm tm \<longleftrightarrow>
     tm_sec tm \<ge> 0 \<and> tm_sec tm \<le> 61
     \<and> tm_min tm \<ge> 0 \<and> tm_min tm \<le> 59
     \<and> tm_hour tm \<ge> 0 \<and> tm_hour tm \<le> 23
     \<and> tm_mday tm \<ge> 1 \<and> tm_mday tm \<le> days_in_month ! IS_LEAP (tm_year tm) ! nat (tm_mon tm)
     \<and> tm_mon tm \<ge> 0 \<and> tm_mon tm \<le> 11
     \<and> tm_wday tm \<ge> 0 \<and> tm_wday tm \<le> 6
     \<and> tm_yday tm \<ge> 0 \<and> tm_yday tm \<le> length_of_year ! IS_LEAP (tm_year tm)
     \<and> tm_gmtoff tm \<ge> - 24 * 60 * 60 \<and> tm_gmtoff tm \<le> 24 * 60 * 60"

section \<open>Years with the same calendar\<close>

definition S_cycle_offset :: "int \<Rightarrow> int" where
  "S_cycle_offset year =
     (let start_year = 2000;
          year_diff = year - start_year;
          year_diff = (if year > start_year then year_diff - 1 else year_diff);
          exceptions = year_diff sdiv 100;
          exceptions = exceptions - year_diff sdiv 400
      in exceptions * 16)"

definition safe_year_cycle :: "int \<Rightarrow> int" where
  "safe_year_cycle year =
     (let year_cycle = year + S_cycle_offset year;
          year_cycle = (if S_is_exception_century year then year_cycle + 11 else year_cycle);
          year_cycle = (if S_is_exception_century (year - 1) then year_cycle + 17 else year_cycle);
          year_cycle = year_cycle smod SOLAR_CYCLE_LENGTH
      in if year_cycle < 0 then SOLAR_CYCLE_LENGTH + year_cycle else year_cycle)"

definition S_safe_year :: "int \<Rightarrow> int" where
  "S_safe_year year = safe_years ! nat (safe_year_cycle year)"

section \<open>Seconds to broken-down UTC\<close>

text \<open>The loops over the years and the months; \<open>m\<close> is the remaining number of days.\<close>

function gm_years_up :: "int \<Rightarrow> int \<Rightarrow> int \<times> int" where
  "gm_years_up m year =
     (if m \<ge> length_of_year ! IS_LEAP year
      then gm_years_up (m - length_of_year ! IS_LEAP year) (year + 1) else (m, year))"
  by pat_completeness auto
termination
  by (relation "measure (\<lambda>(m, year). nat m)") (auto simp: length_of_year_def IS_LEAP_def of_bool_def)

declare gm_years_up.simps [simp del]

function gm_years_down :: "int \<Rightarrow> int \<Rightarrow> int \<times> int" where
  "gm_years_down m year =
     (if m < - (length_of_year ! IS_LEAP year)
      then gm_years_down (m + length_of_year ! IS_LEAP year) (year - 1) else (m, year))"
  by pat_completeness auto
termination
  by (relation "measure (\<lambda>(m, year). nat (- m))") (auto simp: length_of_year_def IS_LEAP_def of_bool_def)

declare gm_years_down.simps [simp del]

function gm_months_up :: "nat \<Rightarrow> int \<Rightarrow> nat \<Rightarrow> (int \<times> nat) option" where
  "gm_months_up leap m mon =
     (if mon \<ge> 12 then None
      else if m \<ge> days_in_month ! leap ! mon
      then gm_months_up leap (m - days_in_month ! leap ! mon) (Suc mon) else Some (m, mon))"
  by pat_completeness auto
termination by (relation "measure (\<lambda>(leap, m, mon). 12 - mon)") auto

declare gm_months_up.simps [simp del]

fun gm_months_down :: "nat \<Rightarrow> int \<Rightarrow> nat \<Rightarrow> (int \<times> nat) option" where
  "gm_months_down leap m 0 = (if m < - (days_in_month ! leap ! 0) then None else Some (m, 0))"
| "gm_months_down leap m (Suc mon) =
     (if m < - (days_in_month ! leap ! Suc mon)
      then gm_months_down leap (m + days_in_month ! leap ! Suc mon) mon else Some (m, Suc mon))"

text \<open>
  The two branches: the days \<open>m\<close> after the first day of \<open>year\<close> (not negative), or before it.
  The result is the day of the month from 0, the month and the year.
\<close>

definition gm_date_up :: "int \<Rightarrow> int \<Rightarrow> (int \<times> nat \<times> int) option" where
  "gm_date_up m year =
     (let cycles = m sdiv days_in_gregorian_cycle;
          (m, year) = (if cycles \<noteq> 0
                       then (m - cycles * days_in_gregorian_cycle, year + cycles * years_in_gregorian_cycle)
                       else (m, year));
          (m, year) = gm_years_up m year
      in case gm_months_up (IS_LEAP year) m 0 of None \<Rightarrow> None
         | Some (m, mon) \<Rightarrow> Some (m, mon, year))"

text \<open>\<open>Perl_ceil(m / cycle + 1)\<close>, where the quotient is negative.\<close>

definition gm_cycles_down :: "int \<Rightarrow> int" where
  "gm_cycles_down m = - ((- m) div days_in_gregorian_cycle) + 1"

definition gm_date_down :: "int \<Rightarrow> int \<Rightarrow> (int \<times> nat \<times> int) option" where
  "gm_date_down m year =
     (let year = year - 1;
          cycles = gm_cycles_down m;
          (m, year) = (if cycles \<noteq> 0
                       then (m - cycles * days_in_gregorian_cycle, year + cycles * years_in_gregorian_cycle)
                       else (m, year));
          (m, year) = gm_years_down m year
      in case gm_months_down (IS_LEAP year) m 11 of None \<Rightarrow> None
         | Some (m, mon) \<Rightarrow> Some (m + days_in_month ! IS_LEAP year ! mon, mon, year))"

definition gm_date :: "int \<Rightarrow> (int \<times> nat \<times> int) option" where
  "gm_date tday =
     (let (m, year) = (if tday \<ge> CHEAT_DAYS then (tday - CHEAT_DAYS, CHEAT_YEARS) else (tday, 70))
      in if m \<ge> 0 then gm_date_up m year else gm_date_down m year)"

text \<open>The time of day: seconds, minutes, hours and the number of the day.\<close>

definition gm_time_of_day :: "int \<Rightarrow> int \<times> int \<times> int \<times> int" where
  "gm_time_of_day time =
     (let v_tm_sec = time smod 60; time = time sdiv 60;
          v_tm_min = time smod 60; time = time sdiv 60;
          v_tm_hour = time smod 24; time = time sdiv 24;
          v_tm_tday = time;
          (v_tm_sec, v_tm_min) = WRAP v_tm_sec v_tm_min 60;
          (v_tm_min, v_tm_hour) = WRAP v_tm_min v_tm_hour 60;
          (v_tm_hour, v_tm_tday) = WRAP v_tm_hour v_tm_tday 24
      in (v_tm_sec, v_tm_min, v_tm_hour, v_tm_tday))"

definition gm_wday :: "int \<Rightarrow> int" where
  "gm_wday tday = (let w = (tday + 4) smod 7 in if w < 0 then w + 7 else w)"

definition Perl_gmtime64_r :: "int \<Rightarrow> TM64 \<Rightarrow> TM64 option" where
  "Perl_gmtime64_r in_time p =
     (let p = p\<lparr>tm_gmtoff := 0, tm_isdst := 0, tm_zone := ''UTC''\<rparr>;
          (v_tm_sec, v_tm_min, v_tm_hour, v_tm_tday) = gm_time_of_day in_time;
          v_tm_wday = gm_wday v_tm_tday
      in case gm_date v_tm_tday of None \<Rightarrow> None
         | Some (m, v_tm_mon, year) \<Rightarrow>
             let p = p\<lparr>tm_year := year\<rparr>
             in if tm_year p \<noteq> year then None
                else Some (p\<lparr>tm_mday := m + 1,
                       tm_yday := julian_days_by_month ! IS_LEAP year ! v_tm_mon + m,
                       tm_sec := v_tm_sec, tm_min := v_tm_min, tm_hour := v_tm_hour,
                       tm_mon := int v_tm_mon, tm_wday := v_tm_wday\<rparr>))"

section \<open>Seconds to broken-down local time\<close>

text \<open>
  \<open>sys\<close> is the system's \<open>localtime\<close> (\<open>None\<close> for a null pointer), its result already copied into
  a \<open>TM64\<close> as \<open>S_copy_little_tm_to_big_TM\<close> does, field by field.
\<close>

definition SHOULD_USE_SYSTEM_LOCALTIME :: "int \<Rightarrow> int \<Rightarrow> int \<Rightarrow> bool" where
  "SHOULD_USE_SYSTEM_LOCALTIME system_min system_max a = (a \<le> system_max \<and> a \<ge> system_min)"

definition local_safe_tm :: "TM64 \<Rightarrow> TM64" where
  "local_safe_tm gm_tm =
     (if tm_year gm_tm > 2037 - 1900 \<or> tm_year gm_tm < 1970 - 1900
      then gm_tm\<lparr>tm_year := S_safe_year (tm_year gm_tm + 1900) - 1900\<rparr> else gm_tm)"

definition local_adjust :: "TM64 \<Rightarrow> TM64 \<Rightarrow> TM64" where
  "local_adjust gm_tm local_tm =
     (let month_diff = tm_mon local_tm - tm_mon gm_tm;
          local_tm = (if month_diff = 11 then local_tm\<lparr>tm_year := tm_year local_tm - 1\<rparr> else local_tm);
          local_tm = (if month_diff = - 11 then local_tm\<lparr>tm_year := tm_year local_tm + 1\<rparr> else local_tm)
      in if IS_LEAP (tm_year local_tm) = 0 \<and> tm_yday local_tm = 365
         then local_tm\<lparr>tm_yday := tm_yday local_tm - 1\<rparr> else local_tm)"

definition Perl_localtime64_r :: "int \<Rightarrow> int \<Rightarrow> (int \<Rightarrow> TM64 option) \<Rightarrow> TM64 \<Rightarrow> int \<Rightarrow> TM64 option" where
  "Perl_localtime64_r system_min system_max sys gm_tm0 time =
     (if SHOULD_USE_SYSTEM_LOCALTIME system_min system_max time then sys time
      else case Perl_gmtime64_r time gm_tm0 of None \<Rightarrow> None
        | Some gm_tm \<Rightarrow>
            let orig_year = tm_year gm_tm;
                gm_tm = local_safe_tm gm_tm;
                safe_time = S_timegm64 gm_tm
            in case sys safe_time of None \<Rightarrow> None
               | Some local_tm \<Rightarrow>
                   (let local_tm = local_tm\<lparr>tm_year := orig_year\<rparr>
                    in if tm_year local_tm \<noteq> orig_year then None
                       else Some (local_adjust gm_tm local_tm)))"

section \<open>The operators\<close>

text \<open>
  \<open>pp_gmtime\<close> of \<open>src/pp_sys.c\<close>, which serves \<open>gmtime\<close> and \<open>localtime\<close>: \<open>conv\<close> is the
  conversion of the operator, \<open>now\<close> the clock, read when there is no argument. A number is a
  \<open>NV\<close>: not a number, an infinity (\<open>True\<close> for the negative one), or a finite value.
\<close>

datatype NV = NV_nan | NV_inf bool | NV_fin rat

datatype time_warning = OVERFLOW_TIME_INPUT_OUT_OF_RANGE | OVERFLOW_TIME_INPUT_BELOW_MINIMUM
  | OVERFLOW_TIME_CONVERSION_FAILED

datatype time_result = RetUndef | RetString string | RetList "int list"

definition TIME_LOWER_BOUND :: int where
  "TIME_LOWER_BOUND = - 67768100567755200"

definition TIME_UPPER_BOUND :: int where
  "TIME_UPPER_BOUND = 67767976233316800"

definition dayname :: "string list" where
  "dayname = [''Sun'', ''Mon'', ''Tue'', ''Wed'', ''Thu'', ''Fri'', ''Sat'']"

definition monname :: "string list" where
  "monname = [''Jan'', ''Feb'', ''Mar'', ''Apr'', ''May'', ''Jun'',
    ''Jul'', ''Aug'', ''Sep'', ''Oct'', ''Nov'', ''Dec'']"

text \<open>The conversions \<open>%d\<close>, \<open>%2d\<close> and \<open>%02d\<close> of \<open>sv_setpvf\<close>.\<close>

fun format_nat :: "nat \<Rightarrow> string" where
  "format_nat n = (if n < 10 then [char_of (48 + n)] else format_nat (n div 10) @ [char_of (48 + n mod 10)])"

declare format_nat.simps [simp del]

definition format_int :: "int \<Rightarrow> string" where
  "format_int i = (if i < 0 then CHR ''-'' # format_nat (nat (- i)) else format_nat (nat i))"

definition format_pad :: "char \<Rightarrow> int \<Rightarrow> string" where
  "format_pad c i = (let s = format_int i in replicate (2 - length s) c @ s)"

definition format_time :: "TM64 \<Rightarrow> string" where
  "format_time tm =
     dayname ! nat (tm_wday tm) @ '' '' @ monname ! nat (tm_mon tm) @ '' ''
     @ format_pad CHR '' '' (tm_mday tm) @ '' '' @ format_pad CHR ''0'' (tm_hour tm) @ '':''
     @ format_pad CHR ''0'' (tm_min tm) @ '':'' @ format_pad CHR ''0'' (tm_sec tm) @ '' ''
     @ format_int (tm_year tm + 1900)"

text \<open>The answer in the context of the call; \<open>want_list\<close> is \<open>GIMME_V == G_LIST\<close>.\<close>

definition time_answer :: "bool \<Rightarrow> TM64 option \<Rightarrow> time_result" where
  "time_answer want_list err =
     (if \<not> want_list then (case err of None \<Rightarrow> RetUndef | Some tmbuf \<Rightarrow> RetString (format_time tmbuf))
      else case err of None \<Rightarrow> RetList []
        | Some tmbuf \<Rightarrow> RetList [tm_sec tmbuf, tm_min tmbuf, tm_hour tmbuf, tm_mday tmbuf, tm_mon tmbuf,
            tm_year tmbuf, tm_wday tmbuf, tm_yday tmbuf, tm_isdst tmbuf])"

text \<open>The bounds and the conversion, then the warning for a failure.\<close>

definition time_convert :: "(int \<Rightarrow> TM64 option) \<Rightarrow> bool \<Rightarrow> NV \<Rightarrow> time_warning list \<times> time_result" where
  "time_convert conv want_list when =
     (let (warnings, err) =
        (case when of
           NV_nan \<Rightarrow> ([OVERFLOW_TIME_INPUT_OUT_OF_RANGE], None)
         | NV_inf negative \<Rightarrow>
             if negative then ([OVERFLOW_TIME_INPUT_BELOW_MINIMUM], None)
             else ([OVERFLOW_TIME_INPUT_OUT_OF_RANGE], None)
         | NV_fin input \<Rightarrow>
             if TIME_LOWER_BOUND > \<lfloor>input\<rfloor> then ([OVERFLOW_TIME_INPUT_BELOW_MINIMUM], None)
             else if \<lfloor>input\<rfloor> > TIME_UPPER_BOUND then ([OVERFLOW_TIME_INPUT_OUT_OF_RANGE], None)
             else ([], conv \<lfloor>input\<rfloor>))
      in (if err = None then warnings @ [OVERFLOW_TIME_CONVERSION_FAILED] else warnings,
          time_answer want_list err))"

definition pp_gmtime ::
    "(int \<Rightarrow> TM64 option) \<Rightarrow> int \<Rightarrow> bool \<Rightarrow> NV option \<Rightarrow> time_warning list \<times> time_result" where
  "pp_gmtime conv now want_list arg =
     time_convert conv want_list (case arg of None \<Rightarrow> NV_fin (of_int now) | Some input \<Rightarrow> input)"

end
