(* ===== verification/Time64_Cal.thy ===== *)
theory Time64_Cal
  imports Time64
begin

text \<open>
  The proleptic Gregorian calendar as a reference, and the facts that tie the tables and loops
  of \<open>Time64\<close> to it.

  \<^item> \<open>year_days y\<close> is the number of days from 1 January 1970 to 1 January of the year
    \<open>y + 1900\<close>, in closed form; \<open>year_days_step\<close> and \<open>year_days_cycle\<close> are its recurrences.
  \<^item> \<open>denotes tm t\<close> says that the fields of \<open>tm\<close> are those of the second \<open>t\<close>.
  \<^item> The loops: what the two walks over the years and the two walks over the months compute.
\<close>

section \<open>The calendar\<close>

definition year_days :: "int \<Rightarrow> int" where
  "year_days y = 365 * (y - 70) + (y + 1899) div 4 - (y + 1899) div 100 + (y + 1899) div 400 - 477"

abbreviation year_len :: "int \<Rightarrow> int" where
  "year_len y \<equiv> length_of_year ! IS_LEAP y"

abbreviation month_start :: "int \<Rightarrow> nat \<Rightarrow> int" where
  "month_start y mon \<equiv> julian_days_by_month ! IS_LEAP y ! mon"

abbreviation month_len :: "int \<Rightarrow> nat \<Rightarrow> int" where
  "month_len y mon \<equiv> days_in_month ! IS_LEAP y ! mon"

definition tm_days :: "TM64 \<Rightarrow> int" where
  "tm_days tm = year_days (tm_year tm) + month_start (tm_year tm) (nat (tm_mon tm)) + tm_mday tm - 1"

definition valid_date :: "TM64 \<Rightarrow> bool" where
  "valid_date tm \<longleftrightarrow> 0 \<le> tm_mon tm \<and> tm_mon tm \<le> 11 \<and> 1 \<le> tm_mday tm
     \<and> tm_mday tm \<le> month_len (tm_year tm) (nat (tm_mon tm))"

definition valid_time :: "TM64 \<Rightarrow> bool" where
  "valid_time tm \<longleftrightarrow> 0 \<le> tm_sec tm \<and> tm_sec tm < 60 \<and> 0 \<le> tm_min tm \<and> tm_min tm < 60
     \<and> 0 \<le> tm_hour tm \<and> tm_hour tm < 24"

definition tm_seconds :: "TM64 \<Rightarrow> int" where
  "tm_seconds tm = 86400 * tm_days tm + 3600 * tm_hour tm + 60 * tm_min tm + tm_sec tm"

definition denotes :: "TM64 \<Rightarrow> int \<Rightarrow> bool" where
  "denotes tm t \<longleftrightarrow> valid_date tm \<and> valid_time tm \<and> tm_seconds tm = t
     \<and> tm_wday tm = (tm_days tm + 4) mod 7
     \<and> tm_yday tm = month_start (tm_year tm) (nat (tm_mon tm)) + tm_mday tm - 1"

section \<open>Leap years and the number of a day\<close>

lemma smod_eq_0 [simp]: "(k :: int) smod l = 0 \<longleftrightarrow> k mod l = 0"
  by (auto simp: signed_modulo_int_def sgn_if mod_eq_0_iff_dvd)

lemma IS_LEAP_eq: "IS_LEAP y = of_bool ((y + 1900) mod 400 = 0 \<or> ((y + 1900) mod 4 = 0 \<and> (y + 1900) mod 100 \<noteq> 0))"
  by (simp add: IS_LEAP_def)

lemma IS_LEAP_cases: obtains "IS_LEAP y = 0" | "IS_LEAP y = 1"
  unfolding IS_LEAP_def of_bool_def by (metis (full_types))

lemma cycle_mod:
  fixes y k :: int
  shows "(y + k * 400) mod 400 = y mod 400" "(y + k * 400) mod 100 = y mod 100" "(y + k * 400) mod 4 = y mod 4"
  using mod_mult_self1 [of y k 400] mod_mult_self1 [of y "k * 4" 100] mod_mult_self1 [of y "k * 100" 4]
  by (simp_all add: ac_simps)

lemma cycle_div:
  fixes y k :: int
  shows "(y + k * 400) div 400 = y div 400 + k" "(y + k * 400) div 100 = y div 100 + k * 4"
    "(y + k * 400) div 4 = y div 4 + k * 100"
  using div_mult_self1 [of 400 y k] div_mult_self1 [of 100 y "k * 4"] div_mult_self1 [of 4 y "k * 100"]
  by (simp_all add: ac_simps)

lemma IS_LEAP_cycle [simp]: "IS_LEAP (y + k * 400) = IS_LEAP y"
proof -
  have "y + k * 400 + 1900 = y + 1900 + k * 400" by simp
  then show ?thesis by (simp only: IS_LEAP_eq cycle_mod)
qed

lemma year_len_eq: "year_len y = 365 + int (IS_LEAP y)"
  by (rule IS_LEAP_cases [of y]) (simp_all add: length_of_year_def)

lemma year_len_bounds: "365 \<le> year_len y" "year_len y \<le> 366"
  by (rule IS_LEAP_cases [of y]; simp add: length_of_year_def)+

lemma div_succ:
  assumes "0 < (k :: int)"
  shows "(n + 1) div k = n div k + of_bool ((n + 1) mod k = 0)"
proof (cases "(n + 1) mod k = 0")
  case True
  then have n: "n + 1 = k * ((n + 1) div k)" by auto
  have "n div k = (n + 1) div k - 1"
  proof (rule int_div_pos_eq)
    show "n = k * ((n + 1) div k - 1) + (k - 1)" using n by (simp add: algebra_simps)
  qed (use assms in simp_all)
  with True show ?thesis by simp
next
  case False
  let ?r = "(n + 1) mod k"
  have r: "0 < ?r" "?r < k" using False pos_mod_bound [OF assms, of "n + 1"] pos_mod_sign [OF assms, of "n + 1"]
    by linarith+
  have "n div k = (n + 1) div k"
  proof (rule int_div_pos_eq)
    show "n = k * ((n + 1) div k) + (?r - 1)" using mult_div_mod_eq [of k "n + 1"] by linarith
  qed (use r in simp_all)
  with False show ?thesis by simp
qed

lemma int_IS_LEAP:
  "int (IS_LEAP y) = of_bool ((y + 1900) mod 4 = 0) - of_bool ((y + 1900) mod 100 = 0)
     + of_bool ((y + 1900) mod 400 = 0)"
proof -
  have "(y + 1900) mod 400 = 0 \<Longrightarrow> (y + 1900) mod 100 = 0"
    "(y + 1900) mod 100 = 0 \<Longrightarrow> (y + 1900) mod 4 = 0"
    using dvd_trans [of 100 400 "y + 1900"] dvd_trans [of 4 100 "y + 1900"]
    by (simp_all add: mod_eq_0_iff_dvd)
  then show ?thesis unfolding IS_LEAP_eq by (simp add: of_bool_def)
qed

lemma year_days_step: "year_days (y + 1) = year_days y + year_len y"
proof -
  have d: "(y + 1900) div k = (y + 1899) div k + of_bool ((y + 1900) mod k = 0)" if "0 < k" for k
    using div_succ [OF that, of "y + 1899"] by (simp add: add.assoc)
  have e: "y + 1 + 1899 = y + 1900" by simp
  have sum: "365 * (y + 1 - 70) + A - B + C - 477 = 365 * (y - 70) + a - b + c - 477 + (365 + (p - q + r))"
    if "A = a + p" "B = b + q" "C = c + r" for a b c A B C p q r :: int
    using that by simp
  show ?thesis
    unfolding year_days_def year_len_eq int_IS_LEAP e by (rule sum; rule d) simp_all
qed

lemma year_days_cycle: "year_days (y + k * 400) = year_days y + k * 146097"
proof -
  have "y + k * 400 + 1899 = y + 1899 + k * 400" by simp
  then show ?thesis by (simp only: year_days_def cycle_div) (simp add: algebra_simps)
qed

lemma year_days_add: "365 * int n \<le> year_days (y + int n) - year_days y"
proof (induction n)
  case (Suc n)
  then show ?case using year_days_step [of "y + int n"] year_len_bounds(1) [of "y + int n"]
    by (simp add: algebra_simps)
qed simp

lemma year_days_mono: "y \<le> z \<Longrightarrow> year_days y \<le> year_days z"
  using year_days_add [of "nat (z - y)" y] by simp

lemma year_days_70 [simp]: "year_days 70 = 0"
  by (simp add: year_days_def)

section \<open>The months\<close>

lemma mon_cases:
  assumes "mon < 12"
  obtains "mon = 0" | "mon = 1" | "mon = 2" | "mon = 3" | "mon = 4" | "mon = 5"
    | "mon = 6" | "mon = 7" | "mon = 8" | "mon = 9" | "mon = 10" | "mon = (11::nat)"
proof -
  have "mon \<in> set [0..<12]" using assms by simp
  moreover have "[0..<12] = [0, 1, 2, 3, 4, 5, 6, 7, 8, 9, 10, 11]" by (simp add: upt_rec)
  ultimately show ?thesis using that by auto
qed

lemma month_start_0 [simp]: "month_start y 0 = 0"
  by (rule IS_LEAP_cases [of y]) (simp_all add: julian_days_by_month_def)

lemma month_start_Suc:
  assumes "mon < 11"
  shows "month_start y (Suc mon) = month_start y mon + month_len y mon"
  by (rule mon_cases [of mon]; rule IS_LEAP_cases [of y])
    (use assms in \<open>simp_all add: julian_days_by_month_def days_in_month_def\<close>)

lemma month_start_last: "month_start y 11 + month_len y 11 = year_len y"
  by (rule IS_LEAP_cases [of y])
    (simp_all add: julian_days_by_month_def days_in_month_def length_of_year_def)

lemma month_bounds:
  assumes "mon < 12"
  shows "28 \<le> month_len y mon" "month_len y mon \<le> 31" "28 * int mon \<le> month_start y mon"
    "month_start y mon + month_len y mon \<le> year_len y"
  by (rule mon_cases [OF assms]; rule IS_LEAP_cases [of y];
      simp add: julian_days_by_month_def days_in_month_def length_of_year_def)+

lemma month_start_11: "month_start y 11 \<ge> 334"
  by (rule IS_LEAP_cases [of y]) (simp_all add: julian_days_by_month_def)

section \<open>The time of day and the day of the week\<close>

lemma trunc_parts:
  fixes k :: int
  assumes "0 < l"
  shows "k = l * (k sdiv l) + k smod l" "0 \<le> k \<Longrightarrow> 0 \<le> k smod l \<and> k smod l < l"
    "k \<le> 0 \<Longrightarrow> - l < k smod l \<and> k smod l \<le> 0" "0 \<le> k \<Longrightarrow> 0 \<le> k sdiv l" "k \<le> 0 \<Longrightarrow> k sdiv l \<le> 0"
  using assms mult_sdiv_smod_eq [of l k]
  by (auto simp: signed_modulo_int_def signed_divide_int_def sgn_if div_int_pos_iff pos_imp_zdiv_nonneg_iff)

lemma gm_time_of_day_ok:
  assumes "gm_time_of_day t = (s, mi, h, d)"
  shows "t = 86400 * d + 3600 * h + 60 * mi + s" "0 \<le> s" "s < 60" "0 \<le> mi" "mi < 60" "0 \<le> h" "h < 24"
proof -
  define q1 where "q1 = t sdiv 60"
  define q2 where "q2 = q1 sdiv 60"
  define q3 where "q3 = q2 sdiv 24"
  define a where "a = t smod 60"
  define b where "b = q1 smod 60"
  define c where "c = q2 smod 24"
  note defs = q1_def q2_def q3_def a_def b_def c_def
  have eqs: "t = 60 * q1 + a" "q1 = 60 * q2 + b" "q2 = 24 * q3 + c"
    unfolding defs by (rule trunc_parts(1); simp)+
  have signs: "(0 \<le> a \<and> a < 60 \<and> 0 \<le> b \<and> b < 60 \<and> 0 \<le> c \<and> c < 24)
      \<or> (- 60 < a \<and> a \<le> 0 \<and> - 60 < b \<and> b \<le> 0 \<and> - 24 < c \<and> c \<le> 0)"
  proof (cases "0 \<le> t")
    case True
    then have "0 \<le> q1" "0 \<le> q2" unfolding defs by (simp_all add: trunc_parts(4))
    with True show ?thesis unfolding a_def b_def c_def using trunc_parts(2) [of 60] trunc_parts(2) [of 24 q2] by simp
  next
    case False
    then have "q1 \<le> 0" "q2 \<le> 0" unfolding defs by (simp_all add: trunc_parts(5))
    with False show ?thesis unfolding a_def b_def c_def
      using trunc_parts(3) [of 60] trunc_parts(3) [of 24 q2] by simp
  qed
  have res: "(s, mi, h, d) =
    (let (a, b) = WRAP a b 60; (b, c) = WRAP b c 60; (c, d) = WRAP c q3 24 in (a, b, c, d))"
    using assms unfolding gm_time_of_day_def defs by (simp add: Let_def)
  show "t = 86400 * d + 3600 * h + 60 * mi + s" "0 \<le> s" "s < 60" "0 \<le> mi" "mi < 60" "0 \<le> h" "h < 24"
    using res signs eqs by (auto simp: WRAP_def Let_def split: if_splits prod.splits)
qed

lemma gm_wday_ok: "gm_wday d = (d + 4) mod 7"
proof -
  define r where "r = (d + 4) smod 7"
  define q where "q = (d + 4) sdiv 7"
  have eq: "d + 4 = 7 * q + r" unfolding r_def q_def by (rule trunc_parts(1)) simp
  have b: "- 7 < r" "r < 7" using trunc_parts(2,3) [of 7 "d + 4"] unfolding r_def by linarith+
  show ?thesis
  proof (cases "r < 0")
    case True
    have "(d + 4) mod 7 = r + 7" using eq b True by (intro int_mod_pos_eq [of _ _ "q - 1"]) simp_all+
    with True show ?thesis by (simp add: gm_wday_def r_def [symmetric] Let_def)
  next
    case False
    have "(d + 4) mod 7 = r" using eq b False by (intro int_mod_pos_eq [of _ _ q]) simp_all+
    with False show ?thesis by (simp add: gm_wday_def r_def [symmetric] Let_def)
  qed
qed

section \<open>The loops\<close>

lemma gm_years_up_ok:
  assumes "gm_years_up m y = (m', y')" "0 \<le> m"
  shows "0 \<le> m' \<and> m' < year_len y' \<and> year_days y' + m' = year_days y + m"
  using assms
proof (induction m y rule: gm_years_up.induct)
  case (1 m y)
  show ?case
  proof (cases "m \<ge> year_len y")
    case True
    from "1.prems" True have "gm_years_up (m - year_len y) (y + 1) = (m', y')"
      by (simp add: gm_years_up.simps [of m y])
    from "1.IH" [OF True this] True show ?thesis by (simp add: year_days_step)
  next
    case False
    with "1.prems" show ?thesis by (simp add: gm_years_up.simps [of m y])
  qed
qed

lemma gm_years_down_ok:
  assumes "gm_years_down m y = (m', y')" "m < 0"
  shows "m' < 0 \<and> - year_len y' \<le> m' \<and> year_days (y' + 1) + m' = year_days (y + 1) + m"
  using assms
proof (induction m y rule: gm_years_down.induct)
  case (1 m y)
  show ?case
  proof (cases "m < - year_len y")
    case True
    from "1.prems" True have "gm_years_down (m + year_len y) (y - 1) = (m', y')"
      by (simp add: gm_years_down.simps [of m y])
    from "1.IH" [OF True this] True show ?thesis by (simp add: year_days_step)
  next
    case False
    with "1.prems" show ?thesis by (simp add: gm_years_down.simps [of m y])
  qed
qed

lemma gm_months_up_ok:
  assumes "mon < 12" "0 \<le> m" "month_start y mon + m < year_len y"
  shows "\<exists>m' mon'. gm_months_up (IS_LEAP y) m mon = Some (m', mon') \<and> mon' < 12 \<and> 0 \<le> m'
    \<and> m' < month_len y mon' \<and> month_start y mon' + m' = month_start y mon + m"
  using assms
proof (induction "12 - mon" arbitrary: m mon)
  case (Suc k)
  show ?case
  proof (cases "m \<ge> month_len y mon")
    case True
    have mon: "mon < 11"
    proof (rule ccontr)
      assume "\<not> mon < 11"
      with Suc.prems have "mon = 11" by simp
      with Suc.prems True month_start_last [of y] show False by simp
    qed
    from Suc.hyps(2) Suc.prems True mon
    have "\<exists>m' mon'. gm_months_up (IS_LEAP y) (m - month_len y mon) (Suc mon) = Some (m', mon') \<and> mon' < 12
      \<and> 0 \<le> m' \<and> m' < month_len y mon' \<and> month_start y mon' + m' = month_start y (Suc mon) + (m - month_len y mon)"
      by (intro Suc.hyps(1)) (simp_all add: month_start_Suc)
    with True mon show ?thesis
      by (simp add: gm_months_up.simps [of "IS_LEAP y" m mon] month_start_Suc)
  next
    case False
    with Suc.prems show ?thesis by (simp add: gm_months_up.simps [of "IS_LEAP y" m mon])
  qed
qed simp

lemma gm_months_down_ok:
  assumes "mon < 12" "m < 0" "- (month_start y mon + month_len y mon) \<le> m"
  shows "\<exists>m' mon'. gm_months_down (IS_LEAP y) m mon = Some (m', mon') \<and> mon' < 12 \<and> m' < 0
    \<and> - month_len y mon' \<le> m'
    \<and> month_start y mon' + month_len y mon' + m' = month_start y mon + month_len y mon + m"
  using assms
proof (induction mon arbitrary: m)
  case (Suc mon)
  show ?case
  proof (cases "m < - month_len y (Suc mon)")
    case True
    from Suc.prems True
    have "\<exists>m' mon'. gm_months_down (IS_LEAP y) (m + month_len y (Suc mon)) mon = Some (m', mon') \<and> mon' < 12
      \<and> m' < 0 \<and> - month_len y mon' \<le> m'
      \<and> month_start y mon' + month_len y mon' + m' = month_start y mon + month_len y mon + (m + month_len y (Suc mon))"
      by (intro Suc.IH) (simp_all add: month_start_Suc)
    with True Suc.prems(1) show ?thesis by (simp add: month_start_Suc algebra_simps)
  next
    case False
    with Suc.prems show ?thesis by simp
  qed
qed simp

text \<open>The count of days wraps, so the loops compute it modulo \<open>2 ^ 32\<close>; where the result fits an
  \<open>int\<close> the steps on the way do not matter.\<close>

lemma c_int_fits: "- (2 ^ 31) \<le> x \<Longrightarrow> x < 2 ^ 31 \<Longrightarrow> c_int x = x"
  by (simp add: c_int_def signed_take_bit_int_eq_self)

lemma c_int_step:
  "c_int (c_int x) = c_int x" "c_int (c_int x + y) = c_int (x + y)" "c_int (c_int x + y - z) = c_int (x + y - z)"
proof -
  have add: "c_int (c_int a + b) = c_int (a + b)" for a b
    unfolding c_int_def
    using signed_take_bit_add [of 31 a b] signed_take_bit_add [of 31 "signed_take_bit 31 a" b] by simp
  then show "c_int (c_int x + y) = c_int (x + y)" .
  show "c_int (c_int x + y - z) = c_int (x + y - z)" using add [of x "y - z"] by (simp only: add_diff_eq)
  show "c_int (c_int x) = c_int x" by (simp add: c_int_def)
qed

lemma timegm_up_ok:
  "y \<le> stop \<Longrightarrow> c_int (timegm_up stop y days) = c_int (days + year_days stop - year_days y)"
proof (induction stop y days rule: timegm_up.induct)
  case (1 stop y days)
  then show ?case
    by (cases "y < stop")
      (simp_all add: timegm_up.simps [of stop y] timegm_up.simps [of stop stop] year_days_step c_int_step add_diff_eq)
qed

lemma timegm_down_ok:
  "stop \<le> y \<Longrightarrow> c_int (timegm_down stop y days) = c_int (days + year_days stop - year_days (y + 1))"
proof (induction stop y days rule: timegm_down.induct)
  case (1 stop y days)
  show ?case
  proof (cases "stop \<le> y - 1")
    case True
    then have "c_int (timegm_down stop y days) = c_int (c_int (days - year_len y) + year_days stop - year_days y)"
      using 1 by (simp add: timegm_down.simps [of stop y])
    also have "\<dots> = c_int (days + year_days stop - (year_days y + year_len y))"
      unfolding c_int_step by (rule arg_cong) simp
    finally show ?thesis by (simp add: year_days_step)
  next
    case False
    with "1.prems" have "stop = y" by simp
    then show ?thesis by (simp add: timegm_down.simps [of y y] year_days_step c_int_step)
  qed
qed

lemma timegm_ok:
  assumes "valid_date tm" "valid_time tm" "- (2 ^ 31) \<le> tm_days tm" "tm_days tm < 2 ^ 31"
  shows "S_timegm64 tm = tm_seconds tm"
proof -
  define days where "days = (if tm_year tm > 70 then timegm_up (tm_year tm) 70 0
    else if tm_year tm < 70 then timegm_down (tm_year tm) 69 0 else 0)"
  have "c_int days = c_int (year_days (tm_year tm))"
    using timegm_up_ok [of 70 "tm_year tm" 0] timegm_down_ok [of "tm_year tm" 69 0]
    by (cases "tm_year tm = 70") (auto simp: days_def)
  then have "c_int (days + (month_start (tm_year tm) (nat (tm_mon tm)) + (tm_mday tm - 1))) = c_int (tm_days tm)"
    using c_int_step(2) [of days] c_int_step(2) [of "year_days (tm_year tm)"] by (metis tm_days_def add.assoc add_diff_eq)
  moreover have "c_int (tm_days tm) = tm_days tm" using assms(3,4) by (rule c_int_fits)
  moreover have "c_int (tm_mday tm - 1) = tm_mday tm - 1"
    using assms(1) month_bounds(2) [of "nat (tm_mon tm)" "tm_year tm"] unfolding valid_date_def
    by (intro c_int_fits) (auto simp: nat_less_iff)
  moreover have "c_int (tm_hour tm * 60) = tm_hour tm * 60" "c_int (tm_hour tm * 60 * 60) = tm_hour tm * 60 * 60"
    "c_int (tm_min tm * 60) = tm_min tm * 60"
    using assms(2) unfolding valid_time_def by (intro c_int_fits; simp)+
  ultimately show ?thesis
    unfolding S_timegm64_def tm_seconds_def Let_def days_def [symmetric]
    by (simp add: c_int_step add.assoc)
qed

text \<open>One day more than an \<open>int\<close> holds, and the count is negative.\<close>

lemma timegm_wraps: "c_int (c_int (2 ^ 31 - 1) + 1) = - (2 ^ 31)"
  by (simp add: c_int_def)

section \<open>The date of a day\<close>

lemma gm_date_up_ok:
  assumes "0 \<le> m"
  shows "\<exists>k mon y. gm_date_up m year = Some (k, mon, y) \<and> mon < 12 \<and> 0 \<le> k \<and> k < month_len y mon
    \<and> year_days y + month_start y mon + k = year_days year + m"
proof -
  define c where "c = m sdiv 146097"
  define m1 where "m1 = m - c * 146097"
  define y1 where "y1 = year + c * 400"
  obtain m2 y2 where 2: "gm_years_up m1 y1 = (m2, y2)" by fastforce
  have "m1 = m smod 146097" unfolding m1_def c_def by (simp add: minus_sdiv_mult_eq_smod)
  then have "0 \<le> m1" using trunc_parts(2) [of 146097 m] assms by simp
  with 2 have 3: "0 \<le> m2" "m2 < year_len y2" "year_days y2 + m2 = year_days y1 + m1"
    using gm_years_up_ok by blast+
  have 4: "year_days y1 + m1 = year_days year + m" unfolding y1_def m1_def by (simp add: year_days_cycle)
  obtain k mon where 5: "gm_months_up (IS_LEAP y2) m2 0 = Some (k, mon)" "mon < 12" "0 \<le> k"
      "k < month_len y2 mon" "month_start y2 mon + k = m2"
    using gm_months_up_ok [of 0 m2 y2] 3 by auto
  have "gm_date_up m year = (let (m, year) = gm_years_up m1 y1
      in case gm_months_up (IS_LEAP year) m 0 of None \<Rightarrow> None | Some (m, mon) \<Rightarrow> Some (m, mon, year))"
    unfolding gm_date_up_def m1_def y1_def c_def
    by (simp add: Let_def days_in_gregorian_cycle_def years_in_gregorian_cycle_def)
  also have "\<dots> = Some (k, mon, y2)" using 2 5(1) by simp
  finally show ?thesis using 3 4 5 by auto
qed

lemma gm_date_down_ok:
  assumes "m < 0"
  shows "\<exists>k mon y. gm_date_down m year = Some (k, mon, y) \<and> mon < 12 \<and> 0 \<le> k \<and> k < month_len y mon
    \<and> year_days y + month_start y mon + k = year_days year + m"
proof -
  define c where "c = gm_cycles_down m"
  define m1 where "m1 = m - c * 146097"
  define y1 where "y1 = year - 1 + c * 400"
  obtain m2 y2 where 2: "gm_years_down m1 y1 = (m2, y2)" by fastforce
  have "m1 = - ((- m) mod 146097) - 146097"
  proof -
    have gen: "m - (- q + 1) * 146097 = - r - 146097" if "- m = 146097 * q + r" for q r
      using that by (simp add: algebra_simps)
    have cycle: "days_in_gregorian_cycle = 146097" by (simp add: days_in_gregorian_cycle_def)
    show ?thesis unfolding m1_def c_def gm_cycles_down_def cycle by (rule gen) simp
  qed
  then have "m1 < 0" using pos_mod_sign [of 146097 "- m"] by linarith
  with 2 have 3: "m2 < 0" "- year_len y2 \<le> m2" "year_days (y2 + 1) + m2 = year_days (y1 + 1) + m1"
    using gm_years_down_ok by blast+
  have "y1 + 1 = year + c * 400" unfolding y1_def by simp
  then have 4: "year_days (y1 + 1) + m1 = year_days year + m" unfolding m1_def by (simp add: year_days_cycle)
  obtain k mon where 5: "gm_months_down (IS_LEAP y2) m2 11 = Some (k, mon)" "mon < 12" "k < 0"
      "- month_len y2 mon \<le> k" "month_start y2 mon + month_len y2 mon + k = year_len y2 + m2"
    using gm_months_down_ok [of 11 m2 y2] 3(1,2) month_start_last [of y2] by auto
  have "gm_date_down m year = (let (m, year) = gm_years_down m1 y1
      in case gm_months_down (IS_LEAP year) m 11 of None \<Rightarrow> None
         | Some (m, mon) \<Rightarrow> Some (m + days_in_month ! IS_LEAP year ! mon, mon, year))"
    unfolding gm_date_down_def m1_def y1_def c_def
    by (simp add: Let_def days_in_gregorian_cycle_def years_in_gregorian_cycle_def)
  also have "\<dots> = Some (k + month_len y2 mon, mon, y2)" using 2 5(1) by simp
  finally show ?thesis using 3(3) 4 5 year_days_step [of y2] by auto
qed

lemma gm_date_ok:
  "\<exists>k mon y. gm_date d = Some (k, mon, y) \<and> mon < 12 \<and> 0 \<le> k \<and> k < month_len y mon
    \<and> year_days y + month_start y mon + k = d"
proof -
  have cheat: "CHEAT_DAYS = 13879" "CHEAT_YEARS = 108" "year_days 108 = 13879"
    by (simp_all add: CHEAT_DAYS_def CHEAT_YEARS_def year_days_def signed_divide_int_def)
  consider "13879 \<le> d" | "0 \<le> d" "\<not> 13879 \<le> d" | "d < 0" by linarith
  then show ?thesis
  proof cases
    case 1
    then show ?thesis using gm_date_up_ok [of "d - 13879" 108] by (simp add: gm_date_def cheat)
  next
    case 2
    then show ?thesis using gm_date_up_ok [of d 70] by (simp add: gm_date_def cheat)
  next
    case 3
    then show ?thesis using gm_date_down_ok [of d 70] by (simp add: gm_date_def cheat)
  qed
qed

lemma gmtime_ok:
  "\<exists>q. Perl_gmtime64_r t p = Some q \<and> denotes q t \<and> tm_isdst q = 0 \<and> tm_gmtoff q = 0 \<and> tm_zone q = ''UTC''"
proof -
  obtain s mi h d where tod: "gm_time_of_day t = (s, mi, h, d)" by (metis prod_cases4)
  obtain k mon y where date: "gm_date d = Some (k, mon, y)" "mon < 12" "0 \<le> k" "k < month_len y mon"
      "year_days y + month_start y mon + k = d"
    using gm_date_ok by blast
  show ?thesis
    unfolding Perl_gmtime64_r_def using tod date gm_time_of_day_ok [OF tod]
    by (simp add: denotes_def valid_date_def valid_time_def tm_seconds_def tm_days_def gm_wday_ok)
      (use date(5) in \<open>simp add: ac_simps\<close>)
qed

section \<open>A time has one set of fields\<close>

lemma day_in_year:
  assumes "valid_date tm"
  shows "year_days (tm_year tm) \<le> tm_days tm" "tm_days tm < year_days (tm_year tm + 1)"
proof -
  have mon: "nat (tm_mon tm) < 12" and day: "1 \<le> tm_mday tm" "tm_mday tm \<le> month_len (tm_year tm) (nat (tm_mon tm))"
    using assms unfolding valid_date_def by auto
  show "year_days (tm_year tm) \<le> tm_days tm" "tm_days tm < year_days (tm_year tm + 1)"
    using month_bounds(3,4) [OF mon, of "tm_year tm"] day unfolding tm_days_def year_days_step by linarith+
qed

lemma year_unique:
  assumes "year_days y \<le> d" "d < year_days (y + 1)" "year_days z \<le> d" "d < year_days (z + 1)"
  shows "y = z"
proof -
  have "\<not> y < z" "\<not> z < y"
    using assms year_days_mono [of "y + 1" z] year_days_mono [of "z + 1" y] by auto
  then show ?thesis by simp
qed

lemma month_start_mono:
  assumes "i < j" "j < 12"
  shows "month_start y i + month_len y i \<le> month_start y j"
  using assms
proof (induction j)
  case (Suc j)
  have step: "month_start y (Suc j) = month_start y j + month_len y j" using Suc.prems by (simp add: month_start_Suc)
  show ?case
  proof (cases "i = j")
    case False
    with Suc have "month_start y i + month_len y i \<le> month_start y j" by simp
    with step month_bounds(1) [of j y] Suc.prems show ?thesis by simp
  qed (simp add: step)
qed simp

lemma month_unique:
  assumes "i < 12" "j < 12" "0 \<le> a" "a < month_len y i" "0 \<le> b" "b < month_len y j"
    "month_start y i + a = month_start y j + b"
  shows "i = j \<and> a = b"
proof -
  have "\<not> i < j" "\<not> j < i" using assms month_start_mono [of i j y] month_start_mono [of j i y] by auto
  then show ?thesis using assms(7) by simp
qed

lemma tm_seconds_unique:
  assumes "valid_time a" "valid_time b" "tm_seconds a = tm_seconds b"
  shows "tm_days a = tm_days b" "tm_hour a = tm_hour b" "tm_min a = tm_min b" "tm_sec a = tm_sec b"
proof -
  have "86400 * (tm_days a - tm_days b)
    = 3600 * (tm_hour b - tm_hour a) + 60 * (tm_min b - tm_min a) + (tm_sec b - tm_sec a)"
    using assms(3) unfolding tm_seconds_def by (simp add: algebra_simps)
  then show d: "tm_days a = tm_days b" using assms(1,2) unfolding valid_time_def by (intro antisym) simp_all
  with assms(3) have e: "3600 * tm_hour a + 60 * tm_min a + tm_sec a = 3600 * tm_hour b + 60 * tm_min b + tm_sec b"
    unfolding tm_seconds_def by simp
  then show h: "tm_hour a = tm_hour b" using assms(1,2) unfolding valid_time_def by (intro antisym) simp_all
  with e show m: "tm_min a = tm_min b" using assms(1,2) unfolding valid_time_def by (intro antisym) simp_all
  with e h show "tm_sec a = tm_sec b" by simp
qed

lemma date_unique:
  assumes "valid_date a" "valid_date b" "tm_days a = tm_days b"
  shows "tm_year a = tm_year b" "tm_mon a = tm_mon b" "tm_mday a = tm_mday b"
proof -
  show y: "tm_year a = tm_year b"
    using year_unique day_in_year [OF assms(1)] day_in_year [OF assms(2)] assms(3) by metis
  have "nat (tm_mon a) = nat (tm_mon b) \<and> tm_mday a - 1 = tm_mday b - 1"
    using assms y by (intro month_unique [of _ _ _ "tm_year b"]) (auto simp: valid_date_def tm_days_def)
  then show "tm_mon a = tm_mon b" "tm_mday a = tm_mday b" using assms by (auto simp: valid_date_def)
qed

lemma denotes_unique:
  assumes "denotes a t" "denotes b t"
  shows "tm_sec a = tm_sec b \<and> tm_min a = tm_min b \<and> tm_hour a = tm_hour b \<and> tm_mday a = tm_mday b
    \<and> tm_mon a = tm_mon b \<and> tm_year a = tm_year b \<and> tm_wday a = tm_wday b \<and> tm_yday a = tm_yday b"
proof -
  have "tm_seconds a = tm_seconds b" using assms by (simp add: denotes_def)
  then have s: "tm_days a = tm_days b" "tm_hour a = tm_hour b" "tm_min a = tm_min b" "tm_sec a = tm_sec b"
    using assms tm_seconds_unique [of a b] by (simp_all add: denotes_def)
  then have "tm_year a = tm_year b" "tm_mon a = tm_mon b" "tm_mday a = tm_mday b"
    using assms date_unique [of a b] by (simp_all add: denotes_def)
  with s show ?thesis using assms by (simp add: denotes_def)
qed

section \<open>Years with the same calendar\<close>

text \<open>The number of exceptional centuries, which the code computes with truncating division.\<close>

lemma trunc_shift:
  fixes d :: int
  assumes "0 < k"
  shows "0 \<le> d \<Longrightarrow> d sdiv k = d div k" "d \<le> 0 \<Longrightarrow> d sdiv k = (d + k - 1) div k"
proof -
  show "0 \<le> d \<Longrightarrow> d sdiv k = d div k" using assms by (simp add: signed_divide_int_def sgn_if)
  assume d: "d \<le> 0"
  have "d sdiv k = - ((- d) div k)" using assms d by (auto simp: signed_divide_int_def sgn_if)
  also have "\<dots> = (d + k - 1) div k"
  proof -
    have "d + k - 1 = k * - (- d div k) + (k - 1 - (- d) mod k)"
      using mult_div_mod_eq [of k "- d"] by (simp add: algebra_simps)
    moreover have "0 \<le> k - 1 - (- d) mod k" using pos_mod_bound [OF assms, of "- d"] by simp
    moreover have "k - 1 - (- d) mod k < k" using pos_mod_sign [OF assms, of "- d"] by linarith
    ultimately show ?thesis by (rule int_div_pos_eq [symmetric])
  qed
  finally show "d sdiv k = (d + k - 1) div k" .
qed

lemma S_cycle_offset_eq: "S_cycle_offset y = 16 * ((y - 1) div 100 - (y - 1) div 400 - 15)"
proof -
  have s: "(y - 1 + 100 * k) div 100 = (y - 1) div 100 + k" "(y - 1 + 400 * k) div 400 = (y - 1) div 400 + k" for k
    by simp_all
  show ?thesis
  proof (cases "y > 2000")
    case True
    have "y - 2000 - 1 = y - 1 + 100 * (- 20)" "y - 2000 - 1 = y - 1 + 400 * (- 5)" by simp_all
    then have "(y - 2000 - 1) sdiv 100 = (y - 1) div 100 - 20" "(y - 2000 - 1) sdiv 400 = (y - 1) div 400 - 5"
      using True trunc_shift(1) [of 100 "y - 2000 - 1"] trunc_shift(1) [of 400 "y - 2000 - 1"]
        s(1) [of "- 20"] s(2) [of "- 5"] by simp_all
    with True show ?thesis unfolding S_cycle_offset_def Let_def by simp
  next
    case False
    have "y - 2000 + 100 - 1 = y - 1 + 100 * (- 19)" "y - 2000 + 400 - 1 = y - 1 + 400 * (- 4)" by simp_all
    then have "(y - 2000) sdiv 100 = (y - 1) div 100 - 19" "(y - 2000) sdiv 400 = (y - 1) div 400 - 4"
      using False trunc_shift(2) [of 100 "y - 2000"] trunc_shift(2) [of 400 "y - 2000"]
        s(1) [of "- 19"] s(2) [of "- 4"] by simp_all
    with False show ?thesis unfolding S_cycle_offset_def Let_def by simp
  qed
qed

lemma safe_year_cycle_bounds: "0 \<le> safe_year_cycle y" "safe_year_cycle y < 28"
proof -
  have "0 \<le> r \<and> r < 28" if "r = (if k smod 28 < 0 then 28 + k smod 28 else k smod 28)" for k r :: int
    using that trunc_parts(2,3) [of 28 k] by (cases "0 \<le> k") (auto split: if_splits)
  then show "0 \<le> safe_year_cycle y" "safe_year_cycle y < 28"
    unfolding safe_year_cycle_def Let_def SOLAR_CYCLE_LENGTH_def by blast+
qed

definition safe_year_shift :: "int \<Rightarrow> int" where
  "safe_year_shift y = (if S_is_exception_century y then 11 else 0) + (if S_is_exception_century (y - 1) then 17 else 0)"

lemma safe_year_cycle_cong:
  "safe_year_cycle y mod 28 = (y + S_cycle_offset y + safe_year_shift y) mod 28"
proof -
  have "(a smod 28) mod 28 = a mod 28" for a :: int
    by (metis mod_mult_self2 trunc_parts(1) add.commute zero_less_numeral)
  then show ?thesis
    by (simp add: safe_year_cycle_def safe_year_shift_def Let_def SOLAR_CYCLE_LENGTH_def add.assoc)
qed

lemma safe_years_table:
  assumes "c < 28"
  shows "safe_years ! c = (if c < 22 then 2016 + int c else 1988 + int c)"
proof -
  have "list_all (\<lambda>c. safe_years ! c = (if c < 22 then 2016 + int c else 1988 + int c)) [0..<28]"
    by (simp add: safe_years_def upt_rec)
  moreover have "c \<in> set [0..<28]" using assms by simp
  ultimately show ?thesis unfolding list_all_iff by blast
qed

lemma S_safe_year_range:
  "2010 \<le> S_safe_year y \<and> S_safe_year y \<le> 2037 \<and> (S_safe_year y - safe_year_cycle y) mod 28 = 0"
proof -
  define c where "c = safe_year_cycle y"
  have c: "0 \<le> c" "c < 28" unfolding c_def by (rule safe_year_cycle_bounds)+
  have "safe_years ! nat c = (if nat c < 22 then 2016 + int (nat c) else 1988 + int (nat c))"
    using c by (intro safe_years_table) simp
  then have "S_safe_year y = (if nat c < 22 then 2016 + c else 1988 + c)"
    using c unfolding S_safe_year_def c_def by simp
  then show ?thesis using c unfolding c_def [symmetric] by (auto split: if_splits)
qed

lemma exception_century_iff: "S_is_exception_century y \<longleftrightarrow> y mod 100 = 0 \<and> y mod 400 \<noteq> 0"
  by (simp add: S_is_exception_century_def)

lemma mod_100_4: "(y :: int) mod 100 = 0 \<Longrightarrow> y mod 4 = 0"
  using dvd_trans [of 4 100 y] by (simp add: mod_eq_0_iff_dvd)

lemma mod_400_100: "(y :: int) mod 400 = 0 \<Longrightarrow> y mod 100 = 0"
  using dvd_trans [of 100 400 y] by (simp add: mod_eq_0_iff_dvd)

text \<open>The three cases: an ordinary year, an exceptional century, and the year after one.\<close>

lemma safe_year_shift_cases:
  obtains (plain) "safe_year_shift y = 0" "\<not> S_is_exception_century y" "\<not> S_is_exception_century (y - 1)"
  | (century) "safe_year_shift y = 11" "S_is_exception_century y" "\<not> S_is_exception_century (y - 1)" "(y - 1) mod 4 = 3"
  | (after) "safe_year_shift y = 17" "\<not> S_is_exception_century y" "S_is_exception_century (y - 1)" "(y - 1) mod 4 = 0"
proof -
  have c: "(y - 1) mod 4 = 3" if "S_is_exception_century y"
  proof -
    have "y mod 4 = 0" using that mod_100_4 by (simp add: exception_century_iff)
    then show ?thesis by presburger
  qed
  have a: "(y - 1) mod 4 = 0" if "S_is_exception_century (y - 1)"
    using that mod_100_4 by (simp add: exception_century_iff)
  show thesis
    by (cases "S_is_exception_century y"; cases "S_is_exception_century (y - 1)")
      (use c a that in \<open>auto simp: safe_year_shift_def\<close>)
qed

lemma safe_year_form:
  obtains j where "S_safe_year y = y + S_cycle_offset y + safe_year_shift y + 28 * j"
proof -
  have "(S_safe_year y - safe_year_cycle y) mod 28 = 0" using S_safe_year_range by blast
  then have "S_safe_year y mod 28 = safe_year_cycle y mod 28" by (simp add: mod_eq_dvd_iff mod_0_imp_dvd)
  then have "S_safe_year y mod 28 = (y + S_cycle_offset y + safe_year_shift y) mod 28"
    using safe_year_cycle_cong [of y] by (rule trans)
  then have "28 dvd S_safe_year y - (y + S_cycle_offset y + safe_year_shift y)" by (simp only: mod_eq_dvd_iff)
  then obtain j where "S_safe_year y - (y + S_cycle_offset y + safe_year_shift y) = 28 * j" by (elim dvdE)
  then have "S_safe_year y = y + S_cycle_offset y + safe_year_shift y + 28 * j" by simp
  then show thesis by (rule that)
qed

lemma IS_LEAP_year: "IS_LEAP (y - 1900) = of_bool (y mod 4 = 0 \<and> (y mod 100 = 0 \<longrightarrow> y mod 400 = 0))"
proof -
  have "y - 1900 + 1900 = y" by simp
  moreover have "(y mod 400 = 0 \<or> y mod 4 = 0 \<and> y mod 100 \<noteq> 0)
      \<longleftrightarrow> (y mod 4 = 0 \<and> (y mod 100 = 0 \<longrightarrow> y mod 400 = 0))"
    using mod_400_100 [of y] mod_100_4 [of y] by argo
  ultimately show ?thesis by (simp only: IS_LEAP_eq)
qed

lemma IS_LEAP_ordinary:
  assumes "\<not> S_is_exception_century y"
  shows "IS_LEAP (y - 1900) = of_bool (y mod 4 = 0)"
  using assms by (simp add: IS_LEAP_year exception_century_iff of_bool_def)

lemma IS_LEAP_century: "S_is_exception_century y \<Longrightarrow> IS_LEAP (y - 1900) = 0"
  by (simp add: IS_LEAP_year exception_century_iff)

lemma window_ordinary:
  assumes "2009 \<le> s" "s \<le> 2038"
  shows "\<not> S_is_exception_century s" "(s - 1) div 100 = 20" "(s - 1) div 400 = 5"
proof -
  have "s mod 100 = s - 2000" by (rule int_mod_pos_eq [of _ _ 20]) (use assms in auto)
  with assms show "\<not> S_is_exception_century s" by (simp add: exception_century_iff)
  show "(s - 1) div 100 = 20" by (rule int_div_pos_eq [of _ _ _ "s - 2001"]) (use assms in auto)
  show "(s - 1) div 400 = 5" by (rule int_div_pos_eq [of _ _ _ "s - 2001"]) (use assms in auto)
qed

lemma safe_year_weekday: "(year_days (S_safe_year y - 1900) - year_days (y - 1900)) mod 7 = 0"
proof -
  define E where "E = (y - 1) div 100 - (y - 1) div 400 - 15"
  define h where "h = safe_year_shift y"
  obtain j where j: "S_safe_year y = y + 16 * E + h + 28 * j"
    using safe_year_form [of y] unfolding S_cycle_offset_eq E_def h_def by blast
  have range: "2010 \<le> S_safe_year y" "S_safe_year y \<le> 2037" using S_safe_year_range by blast+
  have "year_days (S_safe_year y - 1900) - year_days (y - 1900)
      = 365 * (S_safe_year y - y) + (S_safe_year y - 1) div 4 - (y - 1) div 4 + E"
    unfolding year_days_def E_def using window_ordinary(2,3) [of "S_safe_year y"] range by (simp add: algebra_simps)
  also have "(S_safe_year y - 1) div 4 = (y - 1 + h) div 4 + 4 * E + 7 * j"
  proof -
    have "S_safe_year y - 1 = (y - 1 + h) + (4 * E + 7 * j) * 4" using j by simp
    then show ?thesis by simp
  qed
  also have "365 * (S_safe_year y - y) + ((y - 1 + h) div 4 + 4 * E + 7 * j) - (y - 1) div 4 + E
      = 7 * (835 * E + 1461 * j) + (365 * h + ((y - 1 + h) div 4 - (y - 1) div 4))"
    using j by simp
  also have "(365 * h + ((y - 1 + h) div 4 - (y - 1) div 4)) = 7 * (if h = 0 then 0 else if h = 11 then 574 else 887)"
  proof (cases y rule: safe_year_shift_cases)
    case century
    then have "(y - 1 + 11) div 4 = (y - 1) div 4 + 3" by presburger
    with century show ?thesis by (simp add: h_def)
  next
    case after
    then have "(y - 1 + 17) div 4 = (y - 1) div 4 + 4" by presburger
    with after show ?thesis by (simp add: h_def)
  qed (simp add: h_def)
  finally show ?thesis by (simp flip: distrib_left)
qed

lemma safe_year_mod_4: "S_safe_year y mod 4 = (y + safe_year_shift y) mod 4"
proof -
  obtain j where "S_safe_year y = y + S_cycle_offset y + safe_year_shift y + 28 * j" by (rule safe_year_form)
  then have "S_safe_year y = y + safe_year_shift y + (4 * ((y - 1) div 100 - (y - 1) div 400 - 15) + 7 * j) * 4"
    unfolding S_cycle_offset_eq by simp
  then show ?thesis by (simp only: mod_mult_self1)
qed

lemma safe_year_leap: "IS_LEAP (S_safe_year y - 1900) = IS_LEAP (y - 1900)"
proof -
  have s: "IS_LEAP (S_safe_year y - 1900) = of_bool ((y + safe_year_shift y) mod 4 = 0)"
    using S_safe_year_range [of y] by (simp add: IS_LEAP_ordinary window_ordinary(1) safe_year_mod_4)
  show ?thesis
  proof (cases y rule: safe_year_shift_cases)
    case plain
    with s show ?thesis by (simp add: IS_LEAP_ordinary)
  next
    case century
    then have "(y + 11) mod 4 \<noteq> 0" by presburger
    with century s show ?thesis by (simp add: IS_LEAP_century)
  next
    case after
    then have "(y + 17) mod 4 \<noteq> 0" "y mod 4 \<noteq> 0" by presburger+
    with after s show ?thesis by (simp add: IS_LEAP_ordinary)
  qed
qed

lemma safe_year_leap_before: "IS_LEAP (S_safe_year y - 1 - 1900) = IS_LEAP (y - 1 - 1900)"
proof -
  have "(S_safe_year y - 1) mod 4 = (y + safe_year_shift y - 1) mod 4"
    using safe_year_mod_4 [of y] by (rule mod_diff_cong) simp
  then have "(S_safe_year y - 1) mod 4 = (y - 1 + safe_year_shift y) mod 4" by (simp add: algebra_simps)
  then have s: "IS_LEAP (S_safe_year y - 1 - 1900) = of_bool ((y - 1 + safe_year_shift y) mod 4 = 0)"
    using S_safe_year_range [of y] IS_LEAP_ordinary [OF window_ordinary(1), of "S_safe_year y - 1"] by simp
  show ?thesis
  proof (cases y rule: safe_year_shift_cases)
    case plain
    with s IS_LEAP_ordinary [of "y - 1"] show ?thesis by simp
  next
    case century
    then have "(y - 1 + 11) mod 4 \<noteq> 0" "(y - 1) mod 4 \<noteq> 0" by presburger+
    with century s IS_LEAP_ordinary [of "y - 1"] show ?thesis by simp
  next
    case after
    then have "(y - 1 + 17) mod 4 \<noteq> 0" by presburger
    with after s IS_LEAP_century [of "y - 1"] show ?thesis by simp
  qed
qed

section \<open>Local time through a safe year\<close>

lemma year_days_strict: "y < z \<Longrightarrow> year_days y < year_days z"
  using year_days_add [of "nat (z - y)" y] by simp

lemma shift_year:
  assumes r: "denotes r s"
    and same: "month_start y (nat (tm_mon r)) = month_start (tm_year r) (nat (tm_mon r))"
      "month_len y (nat (tm_mon r)) = month_len (tm_year r) (nat (tm_mon r))"
    and days: "year_days y = year_days (tm_year r) - \<delta>" and week: "\<delta> mod 7 = 0"
  shows "denotes (r\<lparr>tm_year := y\<rparr>) (s - 86400 * \<delta>)"
proof -
  have d: "tm_days (r\<lparr>tm_year := y\<rparr>) = tm_days r - \<delta>" using same(1) days by (simp add: tm_days_def)
  obtain k where "\<delta> = 7 * k" using week by (auto simp: mod_eq_0_iff_dvd)
  then have "tm_days r - \<delta> + 4 = tm_days r + 4 + 7 * (- k)" by simp
  then have "(tm_days r - \<delta> + 4) mod 7 = (tm_days r + 4) mod 7" by (simp only: mod_mult_self2)
  with r same d show ?thesis
    unfolding denotes_def valid_date_def valid_time_def tm_seconds_def by simp
qed

lemma days_apart:
  assumes "valid_time a" "valid_time b" "tm_seconds a = tm_seconds b + k" "- 86400 < k" "k < 86400"
  shows "tm_days b - 1 \<le> tm_days a" "tm_days a \<le> tm_days b + 1"
proof -
  have "86400 * (tm_days a - tm_days b)
    = 3600 * (tm_hour b - tm_hour a) + 60 * (tm_min b - tm_min a) + (tm_sec b - tm_sec a) + k"
    using assms(3) unfolding tm_seconds_def by (simp add: algebra_simps)
  then show "tm_days b - 1 \<le> tm_days a" "tm_days a \<le> tm_days b + 1"
    using assms(1,2,4,5) unfolding valid_time_def by simp_all
qed

lemma first_day:
  assumes "valid_date tm" "tm_days tm = year_days (tm_year tm)"
  shows "tm_mon tm = 0" "tm_mday tm = 1"
proof -
  have "nat (tm_mon tm) = 0 \<and> tm_mday tm - 1 = 0"
    using assms month_bounds(1) [of 0 "tm_year tm"]
    by (intro month_unique [of _ 0 _ "tm_year tm"]) (auto simp: valid_date_def tm_days_def)
  then show "tm_mon tm = 0" "tm_mday tm = 1" using assms(1) by (auto simp: valid_date_def)
qed

lemma last_day:
  assumes "valid_date tm" "tm_days tm = year_days (tm_year tm + 1) - 1"
  shows "tm_mon tm = 11" "tm_mday tm = 31"
proof -
  have len: "month_len (tm_year tm) 11 = 31"
    by (rule IS_LEAP_cases [of "tm_year tm"]) (simp_all add: days_in_month_def)
  have "nat (tm_mon tm) = 11 \<and> tm_mday tm - 1 = 30"
    using assms len month_start_last [of "tm_year tm"]
    by (intro month_unique [of _ 11 _ "tm_year tm"]) (auto simp: valid_date_def tm_days_def year_days_step)
  then show "tm_mon tm = 11" "tm_mday tm = 31" using assms(1) by (auto simp: valid_date_def)
qed

text \<open>What the correction of the year does in the three cases the code distinguishes.\<close>

lemma local_adjust_same:
  assumes "tm_mon r - tm_mon g \<noteq> 11" "tm_mon r - tm_mon g \<noteq> - 11" "IS_LEAP y = 0 \<Longrightarrow> tm_yday r \<noteq> 365"
  shows "local_adjust g (r\<lparr>tm_year := y\<rparr>) = r\<lparr>tm_year := y\<rparr>"
  using assms by (auto simp add: local_adjust_def Let_def)

lemma local_adjust_before:
  assumes "tm_mon r = 11" "tm_mon g = 0" "IS_LEAP (y - 1) = 0 \<Longrightarrow> tm_yday r \<noteq> 365"
  shows "local_adjust g (r\<lparr>tm_year := y\<rparr>) = r\<lparr>tm_year := y - 1\<rparr>"
  using assms by (auto simp add: local_adjust_def Let_def)

lemma local_adjust_after:
  assumes "tm_mon r = 0" "tm_mon g = 11" "tm_yday r \<noteq> 365"
  shows "local_adjust g (r\<lparr>tm_year := y\<rparr>) = r\<lparr>tm_year := y + 1\<rparr>"
  using assms by (simp add: local_adjust_def Let_def)

lemma yday_365:
  assumes "denotes r s" "IS_LEAP (tm_year r) = 0"
  shows "tm_yday r \<noteq> 365"
proof -
  have "tm_yday r = tm_days r - year_days (tm_year r)" using assms(1) by (simp add: denotes_def tm_days_def)
  also have "\<dots> < year_len (tm_year r)"
    using day_in_year(2) [of r] assms(1) by (simp add: denotes_def year_days_step)
  also have "\<dots> = 365" by (simp add: assms(2) length_of_year_def)
  finally show ?thesis by simp
qed

lemma year_days_before:
  assumes "IS_LEAP (y - 1) = IS_LEAP (z - 1)"
  shows "year_days (y - 1) = year_days (z - 1) + (year_days y - year_days z)"
  using year_days_step [of "y - 1"] year_days_step [of "z - 1"] assms by simp

lemma year_days_after:
  assumes "IS_LEAP y = IS_LEAP z"
  shows "year_days (y + 1) = year_days (z + 1) + (year_days y - year_days z)"
  using year_days_step [of y] year_days_step [of z] assms by simp

lemma local_adjust_ok:
  assumes g: "denotes g t" and g': "g' = g\<lparr>tm_year := S\<rparr>"
    and leap: "IS_LEAP S = IS_LEAP (tm_year g)" "IS_LEAP (S - 1) = IS_LEAP (tm_year g - 1)"
    and week: "(year_days S - year_days (tm_year g)) mod 7 = 0"
    and r: "denotes r (tm_seconds g' + k)" and k: "- 86400 < k" "k < 86400"
  shows "denotes (local_adjust g' (r\<lparr>tm_year := tm_year g\<rparr>)) (t + k)"
proof -
  define \<delta> where "\<delta> = year_days S - year_days (tm_year g)"
  let ?Y = "tm_year g"
  have dg: "tm_days g' = tm_days g + \<delta>" unfolding g' \<delta>_def tm_days_def using leap(1) by simp
  have date': "valid_date g'" and time': "valid_time g'" and year': "tm_year g' = S" and mon': "tm_mon g' = tm_mon g"
    using g leap(1) unfolding g' denotes_def valid_date_def valid_time_def by simp_all
  have sec: "tm_seconds g' = t + 86400 * \<delta>"
    using g dg unfolding tm_seconds_def denotes_def by (simp add: g')
  have dr: "valid_date r" "valid_time r" "tm_seconds r = tm_seconds g' + k" using r by (simp_all add: denotes_def)
  note apart = days_apart [OF dr(2) time' dr(3) k]
  note in_r = day_in_year [OF dr(1)] and in_g = day_in_year [OF date', unfolded year']
  have fin: "tm_seconds g' + k - 86400 * \<delta> = t + k" using sec by simp
  have res: "denotes (r\<lparr>tm_year := y\<rparr>) (t + k)"
    if "month_start y (nat (tm_mon r)) = month_start (tm_year r) (nat (tm_mon r))"
      "month_len y (nat (tm_mon r)) = month_len (tm_year r) (nat (tm_mon r))"
      "year_days y = year_days (tm_year r) - \<delta>" for y
    using shift_year [OF r that] week unfolding fin \<delta>_def [symmetric] by blast
  consider "tm_year r = S" | "tm_year r < S" | "S < tm_year r" by linarith
  then show ?thesis
  proof cases
    case 1
    have no: "tm_mon r - tm_mon g' \<noteq> 11" "tm_mon r - tm_mon g' \<noteq> - 11"
    proof -
      have far: False if "valid_date a" "valid_date b" "tm_year a = tm_year b" "tm_mon a - tm_mon b = 11"
        "tm_days a \<le> tm_days b + 1" for a b
      proof -
        have m: "tm_mon a = 11" "tm_mon b = 0" using that unfolding valid_date_def by auto
        have "tm_mday b \<le> 31"
          using that(2) m(2) month_bounds(2) [of 0 "tm_year b"] unfolding valid_date_def by auto
        then show False
          using that(1,3,5) m month_start_11 [of "tm_year b"] unfolding tm_days_def valid_date_def by simp
      qed
      show "tm_mon r - tm_mon g' \<noteq> 11" using far [OF dr(1) date'] 1 year' apart by auto
      show "tm_mon r - tm_mon g' \<noteq> - 11" using far [OF date' dr(1)] 1 year' apart by auto
    qed
    have "local_adjust g' (r\<lparr>tm_year := ?Y\<rparr>) = r\<lparr>tm_year := ?Y\<rparr>"
      using no by (rule local_adjust_same) (use yday_365 [OF r] 1 leap(1) in simp)
    moreover have "denotes (r\<lparr>tm_year := ?Y\<rparr>) (t + k)"
      by (rule res) (simp_all add: 1 leap(1) \<delta>_def)
    ultimately show ?thesis by simp
  next
    case 2
    have le: "year_days (tm_year r + 1) \<le> year_days S" using 2 by (intro year_days_mono) simp
    then have eq: "year_days (tm_year r + 1) = year_days S" "tm_days g' = year_days S"
        "tm_days r = year_days (tm_year r + 1) - 1"
      using in_r in_g apart by linarith+
    then have R: "tm_year r = S - 1"
      using year_days_strict [of "tm_year r + 1" S] 2 by linarith
    have m: "tm_mon r = 11" "tm_mon g' = 0"
      using last_day(1) [OF dr(1) eq(3)] first_day(1) [OF date'] eq(2) year' by simp_all
    have "local_adjust g' (r\<lparr>tm_year := ?Y\<rparr>) = r\<lparr>tm_year := ?Y - 1\<rparr>"
      using m by (rule local_adjust_before) (use yday_365 [OF r] R leap(2) in simp)
    moreover have "denotes (r\<lparr>tm_year := ?Y - 1\<rparr>) (t + k)"
      by (rule res) (simp_all add: R leap(2) \<delta>_def year_days_before [OF leap(2)])
    ultimately show ?thesis by simp
  next
    case 3
    have le: "year_days (S + 1) \<le> year_days (tm_year r)" using 3 by (intro year_days_mono) simp
    then have eq: "year_days (tm_year r) = year_days (S + 1)" "tm_days g' = year_days (S + 1) - 1"
        "tm_days r = year_days (tm_year r)"
      using in_r in_g apart by linarith+
    then have R: "tm_year r = S + 1"
      using year_days_strict [of "S + 1" "tm_year r"] 3 by linarith
    have m: "tm_mon r = 0" "tm_mday r = 1" "tm_mon g' = 11"
      using first_day [OF dr(1) eq(3)] last_day(1) [OF date'] eq(2) year' by simp_all
    have "tm_yday r = 0" using r m by (simp add: denotes_def)
    then have "local_adjust g' (r\<lparr>tm_year := ?Y\<rparr>) = r\<lparr>tm_year := ?Y + 1\<rparr>"
      using m by (intro local_adjust_after) simp_all
    moreover have "month_len y 0 = 31" for y
      by (rule IS_LEAP_cases [of y]) (simp_all add: days_in_month_def)
    then have "denotes (r\<lparr>tm_year := ?Y + 1\<rparr>) (t + k)"
      by (intro res) (simp_all add: R m \<delta>_def year_days_after [OF leap(1)])
    ultimately show ?thesis by simp
  qed
qed

lemma local_safe_tm_ok:
  obtains S where "local_safe_tm g = g\<lparr>tm_year := S\<rparr>" "IS_LEAP S = IS_LEAP (tm_year g)"
    "IS_LEAP (S - 1) = IS_LEAP (tm_year g - 1)" "(year_days S - year_days (tm_year g)) mod 7 = 0"
    "70 \<le> S" "S \<le> 137"
proof (cases "tm_year g > 137 \<or> tm_year g < 70")
  case True
  let ?S = "S_safe_year (tm_year g + 1900) - 1900"
  show ?thesis
  proof (rule that [of ?S])
    show "local_safe_tm g = g\<lparr>tm_year := ?S\<rparr>" using True by (simp add: local_safe_tm_def)
    show "IS_LEAP ?S = IS_LEAP (tm_year g)" using safe_year_leap [of "tm_year g + 1900"] by simp
    show "IS_LEAP (?S - 1) = IS_LEAP (tm_year g - 1)"
      using safe_year_leap_before [of "tm_year g + 1900"] by (simp add: algebra_simps)
    show "(year_days ?S - year_days (tm_year g)) mod 7 = 0" using safe_year_weekday [of "tm_year g + 1900"] by simp
    show "70 \<le> ?S" "?S \<le> 137" using S_safe_year_range [of "tm_year g + 1900"] by simp_all
  qed
next
  case False
  then show ?thesis by (intro that [of "tm_year g"]) (simp_all add: local_safe_tm_def)
qed

end
