(* ===== verification/Time64_Props.thy ===== *)
theory Time64_Props
  imports Time64_Cal
begin

text \<open>
  The properties of the calendar code of \<open>src/time64.c\<close>, over the facts of \<open>Time64_Cal\<close>, with
  the instances the witnesses use and two lemmas on what the integer widths of the code allow.
\<close>

section \<open>Bounds\<close>

lemma year_bound:
  assumes "denotes q t" "\<bar>t\<bar> \<le> TIME_EXACT"
  shows "- (2 ^ 31) \<le> tm_year q" "tm_year q < 2 ^ 31"
proof -
  have valid: "valid_date q" "valid_time q" "tm_seconds q = t" using assms(1) by (simp_all add: denotes_def)
  have d: "- (781875 * 10 ^ 6) < tm_days q" "tm_days q < 781875 * 10 ^ 6"
    using valid(2,3) assms(2) unfolding valid_time_def tm_seconds_def TIME_EXACT_def abs_le_iff by auto
  have hi: "781875 * 10 ^ 6 \<le> year_days (2 ^ 31)" and lo: "year_days (- (2 ^ 31)) \<le> - (781875 * 10 ^ 6)"
    by (simp_all add: year_days_def)
  show "tm_year q < 2 ^ 31"
  proof (rule ccontr)
    assume "\<not> tm_year q < 2 ^ 31"
    then have "year_days (2 ^ 31) \<le> year_days (tm_year q)" by (intro year_days_mono) simp
    with day_in_year(1) [OF valid(1)] d(2) hi show False by linarith
  qed
  show "- (2 ^ 31) \<le> tm_year q"
  proof (rule ccontr)
    assume "\<not> - (2 ^ 31) \<le> tm_year q"
    then have "year_days (tm_year q + 1) \<le> year_days (- (2 ^ 31))" by (intro year_days_mono) simp
    with day_in_year(2) [OF valid(1)] d(1) lo show False by linarith
  qed
qed

lemma check_denotes:
  assumes "denotes q t" "tm_gmtoff q = 0"
  shows "S_check_tm q"
proof -
  have date: "valid_date q" "valid_time q" and y: "tm_yday q = tm_days q - year_days (tm_year q)"
    and w: "tm_wday q = (tm_days q + 4) mod 7"
    using assms(1) by (simp_all add: denotes_def tm_days_def)
  have "0 \<le> tm_yday q" "tm_yday q < year_len (tm_year q)"
    using day_in_year [OF date(1)] y by (simp_all add: year_days_step)
  moreover have "0 \<le> tm_wday q" "tm_wday q \<le> 6"
    unfolding w using pos_mod_bound [of 7 "tm_days q + 4"] by simp_all
  ultimately show ?thesis using date assms(2) by (auto simp: S_check_tm_def valid_date_def valid_time_def)
qed

lemma S_cycle_offset_bound:
  assumes "\<bar>y\<bar> \<le> 1900000000"
  shows "\<bar>y + S_cycle_offset y\<bar> < 2 ^ 31 - 28"
proof -
  define a where "a = (y - 1) div 100"
  define b where "b = (y - 1) div 400"
  have "y - 1 = 100 * a + (y - 1) mod 100" "y - 1 = 400 * b + (y - 1) mod 400"
    unfolding a_def b_def by simp_all
  moreover have "0 \<le> (y - 1) mod 100" "(y - 1) mod 100 < 100" "0 \<le> (y - 1) mod 400" "(y - 1) mod 400 < 400"
    by simp_all
  ultimately have "100 * a \<le> y - 1" "y - 100 \<le> 100 * a" "400 * b \<le> y - 1" "y - 400 \<le> 400 * b"
    by linarith+
  then show ?thesis using assms unfolding S_cycle_offset_eq a_def [symmetric] b_def [symmetric] by simp
qed

text \<open>
  For years near the ends of the 32-bit range the sum does not fit: the code computes it in an
  \<open>I32\<close>. \<open>Perl_localtime64_r\<close> reaches such years.
\<close>

lemma year_cycle_overflows: "- 2000000000 + S_cycle_offset (- 2000000000) < - (2 ^ 31)"
  by (simp add: S_cycle_offset_eq)

text \<open>
  For a day before 1970 the number of cycles is one too many: the loop over the years that
  the cycles are meant to save always walks back a whole cycle.
\<close>

lemma cycles_overshoot:
  assumes "m < 0"
  shows "m - gm_cycles_down m * days_in_gregorian_cycle \<le> - days_in_gregorian_cycle"
proof -
  have gen: "m - (- q + 1) * n = - r - n" if "- m = n * q + r" for n q r
    using that by (simp add: algebra_simps)
  have "m - gm_cycles_down m * days_in_gregorian_cycle
      = - (- m mod days_in_gregorian_cycle) - days_in_gregorian_cycle"
    unfolding gm_cycles_down_def by (rule gen) simp
  then show ?thesis using pos_mod_sign [of days_in_gregorian_cycle "- m"]
    by (simp add: days_in_gregorian_cycle_def)
qed

lemma within_bounds: "\<bar>k\<bar> \<le> TIME_EXACT \<Longrightarrow> TIME_LOWER_BOUND \<le> k \<and> k \<le> TIME_UPPER_BOUND"
  unfolding TIME_LOWER_BOUND_def TIME_UPPER_BOUND_def TIME_EXACT_def by auto

definition tm_zero :: TM64 where
  "tm_zero = \<lparr>tm_sec = 0, tm_min = 0, tm_hour = 0, tm_mday = 0, tm_mon = 0, tm_year = 0, tm_wday = 0,
     tm_yday = 0, tm_isdst = 0, tm_gmtoff = 0, tm_zone = ''''\<rparr>"

definition leap_day :: TM64 where
  "leap_day = tm_zero\<lparr>tm_sec := 59, tm_min := 59, tm_hour := 23, tm_mday := 29, tm_mon := 1, tm_year := 100\<rparr>"

section \<open>The properties\<close>

text \<open>C24: \<open>gmtime\<close> is total where doubles are exact: the loops end, no table is read outside its
bounds, the result passes every assertion of \<open>S_check_tm\<close>, its year fits 32 bits, and its fields
are those of the second given, in the proleptic Gregorian calendar, day of the week and of
the year included.\<close>

theorem gmtime_fields:
  assumes "\<bar>t\<bar> \<le> TIME_EXACT"
  shows "\<exists>q. Perl_gmtime64_r t p = Some q \<and> denotes q t \<and> S_check_tm q
    \<and> - (2 ^ 31) \<le> tm_year q \<and> tm_year q < 2 ^ 31 \<and> tm_isdst q = 0 \<and> tm_zone q = ''UTC''"
proof -
  obtain q where "Perl_gmtime64_r t p = Some q" "denotes q t" "tm_isdst q = 0" "tm_gmtoff q = 0" "tm_zone q = ''UTC''"
    using gmtime_ok by blast
  then show ?thesis using check_denotes year_bound assms by blast
qed

theorem gmtime_fields_witness:
  "\<exists>q. Perl_gmtime64_r (- 62167219201) tm_zero = Some q \<and> denotes q (- 62167219201) \<and> S_check_tm q
    \<and> - (2 ^ 31) \<le> tm_year q \<and> tm_year q < 2 ^ 31 \<and> tm_isdst q = 0 \<and> tm_zone q = ''UTC''"
  by (rule gmtime_fields) (simp add: TIME_EXACT_def)

text \<open>C25: from seconds to fields and back: \<open>S_timegm64\<close> undoes \<open>Perl_gmtime64_r\<close>, whatever
the structure held before, for every time less than \<open>2 ^ 31\<close> days from 1970, so that its day number
fits the \<open>int\<close> in which \<open>S_timegm64\<close> counts days.\<close>

theorem timegm_gmtime:
  assumes "\<bar>t\<bar> < 86400 * 2 ^ 31"
  shows "map_option S_timegm64 (Perl_gmtime64_r t p) = Some t"
proof -
  obtain q where q: "Perl_gmtime64_r t p = Some q" "denotes q t" using gmtime_ok by blast
  then have "- (2 ^ 31) \<le> tm_days q" "tm_days q < 2 ^ 31"
    using assms unfolding denotes_def valid_time_def tm_seconds_def by auto
  with q show ?thesis by (simp add: timegm_ok denotes_def)
qed

theorem timegm_gmtime_witness: "map_option S_timegm64 (Perl_gmtime64_r 185542587187199 tm_zero) = Some 185542587187199"
  by (rule timegm_gmtime) simp

text \<open>C26: from fields to seconds and back: for a valid date and time whose day number fits the
\<open>int\<close> in which the code counts days, \<open>Perl_gmtime64_r\<close> recovers every field from the seconds
\<open>S_timegm64\<close> computes, and adds the day of the week and of the year.\<close>

theorem gmtime_timegm:
  assumes "valid_date tm" "valid_time tm" "\<bar>tm_days tm\<bar> < 2 ^ 31"
  shows "\<exists>q. Perl_gmtime64_r (S_timegm64 tm) p = Some q
    \<and> tm_sec q = tm_sec tm \<and> tm_min q = tm_min tm \<and> tm_hour q = tm_hour tm
    \<and> tm_mday q = tm_mday tm \<and> tm_mon q = tm_mon tm \<and> tm_year q = tm_year tm
    \<and> tm_wday q = (tm_days tm + 4) mod 7 \<and> tm_yday q = tm_days tm - year_days (tm_year tm)"
proof -
  define b where "b = tm\<lparr>tm_wday := (tm_days tm + 4) mod 7, tm_yday := tm_days tm - year_days (tm_year tm)\<rparr>"
  have "S_timegm64 tm = tm_seconds tm" using assms by (intro timegm_ok) auto
  then have b: "denotes b (S_timegm64 tm)"
    using assms(1,2) unfolding b_def denotes_def valid_date_def valid_time_def tm_seconds_def tm_days_def
    by simp
  obtain q where q: "Perl_gmtime64_r (S_timegm64 tm) p = Some q" "denotes q (S_timegm64 tm)"
    using gmtime_ok by blast
  show ?thesis using q(1) denotes_unique [OF q(2) b] by (simp add: b_def)
qed

theorem gmtime_timegm_witness:
  "\<exists>q. Perl_gmtime64_r (S_timegm64 leap_day) tm_zero = Some q
    \<and> tm_sec q = tm_sec leap_day \<and> tm_min q = tm_min leap_day \<and> tm_hour q = tm_hour leap_day
    \<and> tm_mday q = tm_mday leap_day \<and> tm_mon q = tm_mon leap_day \<and> tm_year q = tm_year leap_day
    \<and> tm_wday q = (tm_days leap_day + 4) mod 7 \<and> tm_yday q = tm_days leap_day - year_days (tm_year leap_day)"
  by (rule gmtime_timegm)
    (simp_all add: leap_day_def tm_zero_def valid_date_def valid_time_def tm_days_def year_days_def IS_LEAP_eq
      days_in_month_def julian_days_by_month_def)

text \<open>C27: a safe year has the calendar of the year it stands for: it lies in the window the
system can handle, is a leap year exactly when that year is, starts on the same day of the week,
so does the year after it, and the year before it has the right length; and for years up to
1.9 billion the sums stay within the 32-bit type of the code.\<close>

theorem safe_year_matches:
  assumes "\<bar>y\<bar> \<le> 1900000000"
  shows "2010 \<le> S_safe_year y \<and> S_safe_year y \<le> 2037
    \<and> IS_LEAP (S_safe_year y - 1900) = IS_LEAP (y - 1900)
    \<and> IS_LEAP (S_safe_year y - 1 - 1900) = IS_LEAP (y - 1 - 1900)
    \<and> year_days (S_safe_year y - 1900) mod 7 = year_days (y - 1900) mod 7
    \<and> year_days (S_safe_year y + 1 - 1900) mod 7 = year_days (y + 1 - 1900) mod 7
    \<and> \<bar>y + S_cycle_offset y\<bar> < 2 ^ 31 - 28"
proof -
  have "year_days (S_safe_year y - 1900) mod 7 = year_days (y - 1900) mod 7"
    using safe_year_weekday [of y] by (simp add: mod_eq_dvd_iff mod_0_imp_dvd)
  moreover have "year_days (S_safe_year y + 1 - 1900) mod 7 = year_days (y + 1 - 1900) mod 7"
  proof -
    have "year_days (S_safe_year y - 1900 + 1) - year_days (y - 1900 + 1)
        = year_days (S_safe_year y - 1900) - year_days (y - 1900)"
      unfolding year_days_step safe_year_leap by simp
    then have "(year_days (S_safe_year y - 1900 + 1) - year_days (y - 1900 + 1)) mod 7 = 0"
      using safe_year_weekday [of y] by simp
    then show ?thesis by (simp add: mod_eq_dvd_iff mod_0_imp_dvd algebra_simps)
  qed
  ultimately show ?thesis
    using S_safe_year_range safe_year_leap safe_year_leap_before S_cycle_offset_bound [OF assms] by blast
qed

theorem safe_year_matches_witness:
  "2010 \<le> S_safe_year 2100 \<and> S_safe_year 2100 \<le> 2037
    \<and> IS_LEAP (S_safe_year 2100 - 1900) = IS_LEAP (2100 - 1900)
    \<and> IS_LEAP (S_safe_year 2100 - 1 - 1900) = IS_LEAP (2100 - 1 - 1900)
    \<and> year_days (S_safe_year 2100 - 1900) mod 7 = year_days (2100 - 1900) mod 7
    \<and> year_days (S_safe_year 2100 + 1 - 1900) mod 7 = year_days (2100 + 1 - 1900) mod 7
    \<and> \<bar>2100 + S_cycle_offset 2100\<bar> < 2 ^ 31 - 28"
  by (rule safe_year_matches) simp

text \<open>C28: local time outside the range of the system. For a system \<open>localtime\<close> that gives, for the
seconds of the years 1970 to 2037, the fields of the time shifted by the offset of its zone,
less than a day, and for a time at which the code does not call it directly, the result has the
fields of that time shifted by the offset in force at the second of the safe year: date and
time, day of the week and of the year are right also where the offset crosses the end of a year.\<close>

theorem localtime_shifts:
  assumes sys: "\<And>s. 0 \<le> s \<Longrightarrow> s < 2 ^ 31 \<Longrightarrow> \<exists>r. sys s = Some r \<and> denotes r (s + zone s) \<and> \<bar>zone s\<bar> < 86400"
    and own: "\<not> SHOULD_USE_SYSTEM_LOCALTIME lo hi t" and t: "\<bar>t\<bar> \<le> 59 * 10 ^ 15"
  shows "\<exists>q safe_time. Perl_localtime64_r lo hi sys p t = Some q \<and> 0 \<le> safe_time \<and> safe_time < 2 ^ 31
    \<and> (safe_time - t) mod 604800 = 0 \<and> denotes q (t + zone safe_time)"
proof -
  obtain g where g: "Perl_gmtime64_r t p = Some g" "denotes g t" using gmtime_ok by blast
  obtain S where S: "local_safe_tm g = g\<lparr>tm_year := S\<rparr>" "IS_LEAP S = IS_LEAP (tm_year g)"
      "IS_LEAP (S - 1) = IS_LEAP (tm_year g - 1)" "(year_days S - year_days (tm_year g)) mod 7 = 0"
      "70 \<le> S" "S \<le> 137"
    by (rule local_safe_tm_ok)
  define g' where "g' = g\<lparr>tm_year := S\<rparr>"
  have date: "valid_date g'" "valid_time g'" and year: "tm_year g' = S"
    using g(2) S(2) unfolding g'_def denotes_def valid_date_def valid_time_def by simp_all
  have "year_days 70 \<le> year_days S" "year_days (S + 1) \<le> year_days 138"
    using S(5,6) by (intro year_days_mono; simp)+
  moreover have "year_days 138 = 24837" by (simp add: year_days_def)
  ultimately have "0 \<le> tm_days g'" "tm_days g' < 24837"
    using day_in_year [OF date(1)] unfolding year year_days_70 by linarith+
  then have range: "0 \<le> tm_seconds g'" "tm_seconds g' < 2 ^ 31"
    using date(2) unfolding tm_seconds_def valid_time_def by auto
  have shift: "tm_seconds g' - t = 86400 * (year_days S - year_days (tm_year g))"
    using g(2) S(2) unfolding tm_seconds_def tm_days_def denotes_def g'_def by simp
  then have week: "(tm_seconds g' - t) mod 604800 = 0"
  proof -
    obtain w where "year_days S - year_days (tm_year g) = 7 * w" using S(4) by (auto simp: mod_eq_0_iff_dvd)
    then have "tm_seconds g' - t = 604800 * w" unfolding shift by simp
    then show ?thesis by simp
  qed
  obtain r where r: "sys (tm_seconds g') = Some r" "denotes r (tm_seconds g' + zone (tm_seconds g'))"
      "\<bar>zone (tm_seconds g')\<bar> < 86400"
    using sys [OF range] by blast
  have "S_timegm64 g' = tm_seconds g'"
    using \<open>0 \<le> tm_days g'\<close> \<open>tm_days g' < 24837\<close> by (intro timegm_ok date) simp_all
  then have "Perl_localtime64_r lo hi sys p t = Some (local_adjust g' (r\<lparr>tm_year := tm_year g\<rparr>))"
    unfolding Perl_localtime64_r_def using own g(1) S(1) r(1) by (simp add: Let_def g'_def)
  moreover have "denotes (local_adjust g' (r\<lparr>tm_year := tm_year g\<rparr>)) (t + zone (tm_seconds g'))"
    using local_adjust_ok [OF g(2) g'_def S(2,3,4) r(2)] r(3) by simp
  ultimately show ?thesis using range week by (intro exI conjI)
qed

text \<open>A zone two hours east of Greenwich, and the system's range on the platform.\<close>

definition zone_sys :: "int \<Rightarrow> TM64 option" where
  "zone_sys s = Perl_gmtime64_r (s + 7200) tm_zero"

theorem localtime_shifts_witness:
  "\<exists>q safe_time. Perl_localtime64_r (- 62167219200) 67768036191676799 zone_sys tm_zero (- 62167219201) = Some q
    \<and> (0 :: int) \<le> safe_time \<and> safe_time < 2 ^ 31
    \<and> (safe_time - (- 62167219201)) mod 604800 = 0 \<and> denotes q (- 62167219201 + (\<lambda>s :: int. 7200) safe_time)"
proof (rule localtime_shifts [where zone = "\<lambda>s. 7200"])
  fix s :: int
  show "\<exists>r. zone_sys s = Some r \<and> denotes r (s + (\<lambda>s. 7200) s) \<and> \<bar>(\<lambda>s. 7200) s\<bar> < (86400 :: int)"
    using gmtime_ok [of "s + 7200" tm_zero] by (auto simp: zone_sys_def)
qed (simp_all add: SHOULD_USE_SYSTEM_LOCALTIME_def)

text \<open>C29: the operators. A finite argument is rounded down; within the bounds and where doubles are
exact, \<open>gmtime\<close> gives without a warning the nine fields of that second in list context and their
text in scalar context.\<close>

theorem gmtime_op:
  assumes "\<bar>\<lfloor>x\<rfloor>\<bar> \<le> TIME_EXACT"
  shows "\<exists>q. denotes q \<lfloor>x\<rfloor> \<and> S_check_tm q
    \<and> pp_gmtime (\<lambda>t. Perl_gmtime64_r t p) now want_list (Some (NV_fin x))
      = ([], if want_list then RetList [tm_sec q, tm_min q, tm_hour q, tm_mday q, tm_mon q, tm_year q,
                tm_wday q, tm_yday q, 0]
             else RetString (format_time q))"
proof -
  obtain q where q: "Perl_gmtime64_r \<lfloor>x\<rfloor> p = Some q" "denotes q \<lfloor>x\<rfloor>" "tm_isdst q = 0" "tm_gmtoff q = 0"
    using gmtime_ok by blast
  define k where "k = \<lfloor>x\<rfloor>"
  have bounds: "\<not> TIME_LOWER_BOUND > k" "\<not> k > TIME_UPPER_BOUND"
    using assms within_bounds [of k] unfolding k_def by simp_all
  have "pp_gmtime (\<lambda>t. Perl_gmtime64_r t p) now want_list (Some (NV_fin x)) = ([], time_answer want_list (Some q))"
    using q(1) bounds unfolding pp_gmtime_def time_convert_def k_def by simp
  then show ?thesis using q(2,3) check_denotes [OF q(2,4)]
    by (intro exI [of _ q]) (simp add: time_answer_def)
qed

theorem gmtime_op_witness:
  "\<exists>q. denotes q \<lfloor>- 1 / 2 :: rat\<rfloor> \<and> S_check_tm q
    \<and> pp_gmtime (\<lambda>t. Perl_gmtime64_r t tm_zero) 0 True (Some (NV_fin (- 1 / 2)))
      = ([], if True then RetList [tm_sec q, tm_min q, tm_hour q, tm_mday q, tm_mon q, tm_year q,
                tm_wday q, tm_yday q, 0]
             else RetString (format_time q))"
proof (rule gmtime_op)
  have "\<lfloor>- 1 / 2 :: rat\<rfloor> = - 1" by (rule floor_unique) simp_all
  then show "\<bar>\<lfloor>- 1 / 2 :: rat\<rfloor>\<bar> \<le> TIME_EXACT" by (simp add: TIME_EXACT_def)
qed



end
