(* ===== verification/Sort.thy ===== *)
theory Sort
  imports Prelude
begin

text \<open>
  The sort of \<open>src/pp_sort.c\<close>: a stable merge sort that first finds natural runs, then merges
  them between two arrays, steered by a stack of its own instead of recursion.

  A pointer into one of the arrays is an index. A slot of an array holds an element, or the
  index at which the run (or merged run) that starts at this slot of the other array ends: the
  \<open>NEXT\<close> of the source, which stores a pointer in the slot. Reading a slot as the wrong kind,
  or outside its array, is undefined in C and an unspecified value here.

  \<^item> \<open>dynprep\<close> finds the runs of the base array, with one function per loop.
  \<^item> \<open>merge_runs\<close> merges two adjacent runs into the other array.
  \<^item> \<open>sort_up\<close>, \<open>sort_down\<close>, \<open>sort_loop\<close> are the halves of the main loop and the loop;
    \<open>sortsv_flags\<close> is the whole. The loops whose end depends on what the runs look like
    are \<open>option\<close>-valued, \<open>None\<close> standing for a run that does not end.
\<close>

datatype 'a cell = Elem (elem: 'a) | Next (nxt: nat)

section \<open>Finding runs\<close>

definition PTHRESH :: nat where "PTHRESH = 8"

definition RTHRESH :: nat where "RTHRESH = 6"

text \<open>The test \<open>(cmp(x, y) > 0) == sense\<close> on the slots at two indices.\<close>

definition in_sense :: "('a \<Rightarrow> 'a \<Rightarrow> int) \<Rightarrow> 'a cell list \<Rightarrow> bool \<Rightarrow> nat \<Rightarrow> nat \<Rightarrow> bool" where
  "in_sense cmp xs sense i j \<longleftrightarrow> (cmp (elem (xs ! i)) (elem (xs ! j)) > 0) = sense"

text \<open>The end of the pairs with the prevailing sense.\<close>

function dyn_top :: "('a \<Rightarrow> 'a \<Rightarrow> int) \<Rightarrow> 'a cell list \<Rightarrow> bool \<Rightarrow> nat \<Rightarrow> nat \<Rightarrow> nat" where
  "dyn_top cmp xs sense lim t =
     (if t + 1 < lim \<and> in_sense cmp xs sense t (t + 1) then dyn_top cmp xs sense lim (t + 2) else t)"
  by pat_completeness auto
termination by (relation "measure (\<lambda>(cmp, xs, sense, lim, t). lim - t)") auto

declare dyn_top.simps [simp del]

text \<open>Working back from a candidate \<open>p\<close> towards \<open>q\<close>, and pushing a run further up.\<close>

function dyn_back :: "('a \<Rightarrow> 'a \<Rightarrow> int) \<Rightarrow> 'a cell list \<Rightarrow> bool \<Rightarrow> nat \<Rightarrow> nat \<Rightarrow> nat" where
  "dyn_back cmp xs sense q p =
     (if in_sense cmp xs sense (p - 1) p
      then if p - 2 > q then dyn_back cmp xs sense q (p - 2) else p - 2
      else p)"
  by pat_completeness auto
termination by (relation "measure (\<lambda>(cmp, xs, sense, q, p). p)") auto

declare dyn_back.simps [simp del]

function dyn_extend :: "('a \<Rightarrow> 'a \<Rightarrow> int) \<Rightarrow> 'a cell list \<Rightarrow> bool \<Rightarrow> nat \<Rightarrow> nat \<Rightarrow> nat" where
  "dyn_extend cmp xs sense t q =
     (if q + 2 < t \<and> in_sense cmp xs sense (q + 1) (q + 2) then dyn_extend cmp xs sense t (q + 2) else q)"
  by pat_completeness auto
termination by (relation "measure (\<lambda>(cmp, xs, sense, t, q). t - q)") auto

declare dyn_extend.simps [simp del]

definition swap :: "'a cell list \<Rightarrow> nat \<Rightarrow> nat \<Rightarrow> 'a cell list" where
  "swap xs i j = xs[i := xs ! j, j := xs ! i]"

function dyn_reverse :: "'a cell list \<Rightarrow> nat \<Rightarrow> nat \<Rightarrow> 'a cell list" where
  "dyn_reverse xs b p =
     (if b < p - 1 then dyn_reverse (swap xs b (p - 1)) (b + 1) (p - 1) else xs)"
  by pat_completeness auto
termination by (relation "measure (\<lambda>(xs, b, p). p)") auto

declare dyn_reverse.simps [simp del]

record 'a dyn =
  list1 :: "'a cell list"
  list2 :: "'a cell list"
  dyn_p2 :: nat
  dyn_runs :: nat
  dyn_b :: nat
  dyn_q :: nat

text \<open>\<open>p2 = NEXT(p2) = p2 + n; ++runs\<close>.\<close>

definition dyn_link :: "nat \<Rightarrow> 'a dyn \<Rightarrow> 'a dyn" where
  "dyn_link n s = s\<lparr>list2 := (list2 s)[dyn_p2 s := Next (dyn_p2 s + n)], dyn_p2 := dyn_p2 s + n,
     dyn_runs := dyn_runs s + 1\<rparr>"

text \<open>The simple pairs from \<open>q\<close> up to \<open>p\<close>.\<close>

function dyn_pairs :: "bool \<Rightarrow> nat \<Rightarrow> nat \<Rightarrow> 'a dyn \<Rightarrow> 'a dyn" where
  "dyn_pairs sense p q s =
     (if q < p
      then let s = dyn_link 2 s;
               s = (if sense then s\<lparr>list1 := swap (list1 s) q (q + 1)\<rparr> else s)
           in dyn_pairs sense p (q + 2) s
      else s)"
  by pat_completeness auto
termination by (relation "measure (\<lambda>(sense, p, q, s). p - q)") auto

declare dyn_pairs.simps [simp del]

text \<open>The search for a long run at \<open>b\<close>: the new \<open>p\<close>, \<open>q\<close> and \<open>r\<close>.\<close>

definition dyn_search :: "('a \<Rightarrow> 'a \<Rightarrow> int) \<Rightarrow> 'a cell list \<Rightarrow> bool \<Rightarrow> nat \<Rightarrow> nat \<Rightarrow> nat \<Rightarrow> nat \<times> nat \<times> nat" where
  "dyn_search cmp xs sense t b q =
     (let r = b + 2 * PTHRESH
      in if r \<ge> t then (t, q, t)
         else let p = dyn_back cmp xs sense q r
              in if p \<le> q then let q = dyn_extend cmp xs sense t r in (q + 2, q, q + 2)
                 else (p, q, r))"

text \<open>
  A run of more than two at \<open>b\<close>, with the singleton at the end when it fits: the new \<open>p\<close>, \<open>q\<close>
  and \<open>r\<close> and the state.
\<close>

definition dyn_run :: "('a \<Rightarrow> 'a \<Rightarrow> int) \<Rightarrow> bool \<Rightarrow> nat \<Rightarrow> nat \<Rightarrow> nat \<Rightarrow> nat \<Rightarrow> nat \<Rightarrow> 'a dyn
    \<Rightarrow> nat \<times> nat \<times> nat \<times> 'a dyn" where
  "dyn_run cmp sense lim t p q r s =
     (let savep = p; q = q + 2; p = q;
          (savep, r, p, q) =
            (if p = t \<and> t + 1 = lim \<and> in_sense cmp (list1 s) sense (p - 1) p
             then (lim, lim, lim, lim) else (savep, r, p, q));
          s = dyn_link (p - dyn_b s) s;
          s = (if sense then s\<lparr>list1 := dyn_reverse (list1 s) (dyn_b s) p\<rparr> else s)
      in (savep, q, r, s))"

text \<open>One turn of the inner loop.\<close>

definition dyn_step :: "('a \<Rightarrow> 'a \<Rightarrow> int) \<Rightarrow> bool \<Rightarrow> nat \<Rightarrow> nat \<Rightarrow> 'a dyn \<Rightarrow> 'a dyn" where
  "dyn_step cmp sense lim t s =
     (let (p, q, r) = dyn_search cmp (list1 s) sense t (dyn_b s) (dyn_q s);
          (p, q, r, s) = (if q > dyn_b s then dyn_run cmp sense lim t p q r s else (p, q, r, s));
          s = dyn_pairs sense p q s;
          s = s\<lparr>dyn_b := p\<rparr>;
          s = (if dyn_b s = t \<and> t + 1 = lim
               then s\<lparr>list2 := (list2 s)[dyn_p2 s := Next (dyn_p2 s + 1)], dyn_runs := dyn_runs s + 1,
                 dyn_b := dyn_b s + 1\<rparr>
               else s)
      in s\<lparr>dyn_q := r\<rparr>)"

partial_function (option) dyn_inner :: "('a \<Rightarrow> 'a \<Rightarrow> int) \<Rightarrow> bool \<Rightarrow> nat \<Rightarrow> nat \<Rightarrow> 'a dyn \<Rightarrow> 'a dyn option" where
  "dyn_inner cmp sense lim t s =
     (let s = dyn_step cmp sense lim t s
      in if dyn_b s < t then dyn_inner cmp sense lim t s else Some s)"

partial_function (option) dyn_outer :: "('a \<Rightarrow> 'a \<Rightarrow> int) \<Rightarrow> nat \<Rightarrow> bool \<Rightarrow> 'a dyn \<Rightarrow> 'a dyn option" where
  "dyn_outer cmp lim sense s =
     (if dyn_b s < lim
      then Option.bind (dyn_inner cmp sense lim (dyn_top cmp (list1 s) sense lim (dyn_b s + 2))
             (s\<lparr>dyn_q := dyn_b s\<rparr>)) (\<lambda>s. dyn_outer cmp lim (\<not> sense) s)
      else Some s)"

definition dynprep :: "('a \<Rightarrow> 'a \<Rightarrow> int) \<Rightarrow> 'a cell list \<Rightarrow> 'a cell list \<Rightarrow> nat \<Rightarrow> 'a dyn option" where
  "dynprep cmp xs ys nmemb =
     dyn_outer cmp nmemb (in_sense cmp xs True 0 1)
       \<lparr>list1 = xs, list2 = ys, dyn_p2 = 0, dyn_runs = 0, dyn_b = 0, dyn_q = 0\<rparr>"

section \<open>Merging two runs\<close>

text \<open>\<open>FROMTOUPTO\<close>: at least one slot is copied. The new target, source and target indices.\<close>

function FROMTOUPTO :: "'a cell list \<Rightarrow> nat \<Rightarrow> 'a cell list \<Rightarrow> nat \<Rightarrow> nat \<Rightarrow> nat \<times> 'a cell list \<times> nat" where
  "FROMTOUPTO from src dest dst lim =
     (let dest = dest[dst := from ! src]; dst = dst + 1; src = src + 1
      in if src < lim then FROMTOUPTO from src dest dst lim else (src, dest, dst))"
  by pat_completeness auto
termination by (relation "measure (\<lambda>(from, src, dest, dst, lim). lim - src)") auto

declare FROMTOUPTO.simps [simp del]

text \<open>
  Where the element at \<open>q\<close> belongs among the elements at \<open>b\<close> to \<open>t\<close>: a ramp with steps that double
  after \<open>RTHRESH\<close> of them, then a binary split. The step of the ramp is \<open>Suc j\<close>.
\<close>

definition goes_before :: "('a \<Rightarrow> 'a \<Rightarrow> int) \<Rightarrow> 'a cell list \<Rightarrow> int \<Rightarrow> nat \<Rightarrow> nat \<Rightarrow> bool" where
  "goes_before cmp xs sense q p \<longleftrightarrow> cmp (elem (xs ! q)) (elem (xs ! p)) \<le> sense"

function merge_ramp :: "('a \<Rightarrow> 'a \<Rightarrow> int) \<Rightarrow> 'a cell list \<Rightarrow> int \<Rightarrow> nat \<Rightarrow> nat \<Rightarrow> nat \<Rightarrow> nat \<Rightarrow> nat \<Rightarrow> nat \<times> nat" where
  "merge_ramp cmp xs sense q b t j run =
     (let p = b + Suc j
      in if p \<ge> t
         then let p = t - 1 in if p > b \<and> goes_before cmp xs sense q p then (b, p) else (p, t)
         else if goes_before cmp xs sense q p then (b, p)
         else merge_ramp cmp xs sense q p t (if run + 1 \<ge> RTHRESH then 2 * j + 1 else j) (run + 1))"
  by pat_completeness auto
termination by (relation "measure (\<lambda>(cmp, xs, sense, q, b, t, j, run). t - b)") auto

declare merge_ramp.simps [simp del]

function merge_split :: "('a \<Rightarrow> 'a \<Rightarrow> int) \<Rightarrow> 'a cell list \<Rightarrow> int \<Rightarrow> nat \<Rightarrow> nat \<Rightarrow> nat \<Rightarrow> nat" where
  "merge_split cmp xs sense q b t =
     (if b < t
      then let p = b + (t - b - 1) div 2
           in if goes_before cmp xs sense q p then merge_split cmp xs sense q b p
              else merge_split cmp xs sense q (p + 1) t
      else t)"
  by pat_completeness auto
termination by (relation "measure (\<lambda>(cmp, xs, sense, q, b, t). t - b)") auto

declare merge_split.simps [simp del]

definition merge_point :: "('a \<Rightarrow> 'a \<Rightarrow> int) \<Rightarrow> 'a cell list \<Rightarrow> int \<Rightarrow> nat \<Rightarrow> nat \<Rightarrow> nat \<Rightarrow> nat" where
  "merge_point cmp xs sense q b t =
     (let (b, t) = merge_ramp cmp xs sense q b t 0 0 in merge_split cmp xs sense q (b + 1) t)"

text \<open>The loop while both runs last: the new \<open>f1\<close>, \<open>f2\<close>, target and target index.\<close>

lemma FROMTOUPTO_src: "fst (FROMTOUPTO from src dest dst lim) > src"
proof (induction "from" src dest dst lim rule: FROMTOUPTO.induct)
  case (1 "from" src dest dst lim)
  show ?case
  proof (cases "src + 1 < lim")
    case True
    with 1 have "fst (FROMTOUPTO from (src + 1) (dest[dst := from ! src]) (dst + 1) lim) > src + 1" by simp
    then show ?thesis using True by (subst FROMTOUPTO.simps) simp
  next
    case False
    then show ?thesis by (subst FROMTOUPTO.simps) simp
  qed
qed

function merge_loop :: "('a \<Rightarrow> 'a \<Rightarrow> int) \<Rightarrow> 'a cell list \<Rightarrow> nat \<Rightarrow> nat \<Rightarrow> nat \<Rightarrow> nat \<Rightarrow> 'a cell list \<Rightarrow> nat
    \<Rightarrow> nat \<times> nat \<times> 'a cell list \<times> nat" where
  "merge_loop cmp xs l1 l2 f1 f2 ys tp2 =
     (if f1 < l1 \<and> f2 < l2
      then if cmp (elem (xs ! f1)) (elem (xs ! f2)) \<le> 0
           then let t = merge_point cmp xs (- 1) f2 f1 l1;
                    (f1, ys, tp2) = FROMTOUPTO xs f1 ys tp2 t
                in merge_loop cmp xs l1 l2 f1 (f2 + 1) (ys[tp2 := xs ! f2]) (tp2 + 1)
           else let t = merge_point cmp xs 0 f1 f2 l2;
                    (f2, ys, tp2) = FROMTOUPTO xs f2 ys tp2 t
                in merge_loop cmp xs l1 l2 (f1 + 1) f2 (ys[tp2 := xs ! f1]) (tp2 + 1)
      else (f1, f2, ys, tp2))"
  by pat_completeness auto
termination
proof (relation "measure (\<lambda>(cmp, xs, l1, l2, f1, f2, ys, tp2). (l1 - f1) + (l2 - f2))", goal_cases)
  case 1
  show ?case by simp
next
  case (2 cmp xs l1 l2 f1 f2 ys tp2 t res f1' res2)
  then have "f1' > f1" using FROMTOUPTO_src [of f1 xs ys tp2 t] by (metis fst_conv)
  with 2(1) show ?case by simp arith
next
  case (3 cmp xs l1 l2 f1 f2 ys tp2 t res f2' res2)
  then have "f2' > f2" using FROMTOUPTO_src [of f2 xs ys tp2 t] by (metis fst_conv)
  with 3(1) show ?case by simp arith
qed

declare merge_loop.simps [simp del]

text \<open>
  The merge of the two runs at \<open>offset\<close> of \<open>xs\<close> into \<open>ys\<close>, whose slots say where the runs end: the
  two arrays and the offset of the end.
\<close>

definition merge_runs :: "('a \<Rightarrow> 'a \<Rightarrow> int) \<Rightarrow> 'a cell list \<Rightarrow> 'a cell list \<Rightarrow> nat
    \<Rightarrow> 'a cell list \<times> 'a cell list \<times> nat" where
  "merge_runs cmp xs ys offset =
     (let f1 = offset; tp2 = offset;
          l1 = nxt (ys ! offset); f2 = l1;
          l2 = nxt (ys ! l1);
          (f1, f2, ys, tp2) = merge_loop cmp xs l1 l2 f1 f2 ys tp2;
          (ys, tp2) =
            (if f1 = l1
             then (if f2 < l2 then (case FROMTOUPTO xs f2 ys tp2 l2 of (src, ys, dst) \<Rightarrow> (ys, dst)) else (ys, tp2))
             else (case FROMTOUPTO xs f1 ys tp2 l1 of (src, ys, dst) \<Rightarrow> (ys, dst)))
      in (xs[offset := Next tp2], ys, l2))"

section \<open>The main loop\<close>

record off_runs =
  or_offset :: nat
  or_runs :: nat

text \<open>
  The state of the loop: the two arrays (\<open>which[0]\<close> and \<open>which[2]\<close>, \<open>which[1]\<close>), the level, which is
  also the index of \<open>stackp\<close> in the stack, the offset and the stack of 60 elements.
\<close>

record 'a sorting =
  sr_base :: "'a cell list"
  sr_aux :: "'a cell list"
  sr_level :: nat
  sr_offset :: nat
  sr_stack :: "off_runs list"

definition which_array :: "nat \<Rightarrow> 'a sorting \<Rightarrow> 'a cell list" where
  "which_array i s = (if i = 1 then sr_aux s else sr_base s)"

definition which_update :: "nat \<Rightarrow> 'a cell list \<Rightarrow> 'a sorting \<Rightarrow> 'a sorting" where
  "which_update i xs s = (if i = 1 then s\<lparr>sr_aux := xs\<rparr> else s\<lparr>sr_base := xs\<rparr>)"

definition stack_runs :: "'a sorting \<Rightarrow> nat" where
  "stack_runs s = or_runs (sr_stack s ! sr_level s)"

text \<open>One merge at the current level, from the array \<open>which[i]\<close> into the other.\<close>

definition sort_merge :: "('a \<Rightarrow> 'a \<Rightarrow> int) \<Rightarrow> nat \<Rightarrow> 'a sorting \<Rightarrow> 'a sorting" where
  "sort_merge cmp i s =
     (let (xs, ys, offset) =
            merge_runs cmp (which_array i s) (which_array (1 - i) s) (or_offset (sr_stack s ! sr_level s))
      in which_update (1 - i) ys (which_update i xs s)\<lparr>sr_offset := offset\<rparr>)"

text \<open>
  Merging and going up a level as long as both runs of the level are there; \<open>True\<close> when the level
  is 0 at the end, which ends the sort.
\<close>

function sort_up :: "('a \<Rightarrow> 'a \<Rightarrow> int) \<Rightarrow> nat \<Rightarrow> 'a sorting \<Rightarrow> bool \<times> 'a sorting" where
  "sort_up cmp i s =
     (let s' = sort_merge cmp i s; level = sr_level s - 1; s' = s'\<lparr>sr_level := level\<rparr>
      in if level = 0 then (True, s')
         else if stack_runs s' = 0 then sort_up cmp (1 - i) s'
         else (False, s'))"
  by pat_completeness auto
termination by (relation "measure (\<lambda>(cmp, i, s). sr_level s)") auto

declare sort_up.simps [simp del]

text \<open>The split of more than two runs into two halves, the second one stacked.\<close>

function sort_split :: "nat \<Rightarrow> 'a sorting \<Rightarrow> nat \<times> 'a sorting" where
  "sort_split runs s =
     (if runs > 2
      then let level = sr_level s + 1
           in sort_split (runs - runs div 2)
                (s\<lparr>sr_level := level,
                   sr_stack := (sr_stack s)[level := \<lparr>or_offset = sr_offset s, or_runs = runs div 2\<rparr>]\<rparr>)
      else (runs, s))"
  by pat_completeness auto
termination by (relation "measure (\<lambda>(runs, s). runs)") auto

declare sort_split.simps [simp del]

text \<open>The construction of a single run from one or two; \<open>True\<close> when the sort is done.\<close>

definition sort_single :: "'a sorting \<Rightarrow> bool \<times> 'a sorting" where
  "sort_single s =
     (if sr_level s mod 2 \<noteq> 0
      then let b = sr_offset s; t = nxt (sr_aux s ! b);
               (src, aux, dst) = FROMTOUPTO (sr_base s) b (sr_aux s) b t
           in (False, s\<lparr>sr_aux := aux, sr_offset := t, sr_base := (sr_base s)[b := Next t]\<rparr>)
      else (sr_level s = 0, s))"

definition sort_pair :: "'a sorting \<Rightarrow> 'a sorting" where
  "sort_pair s =
     (let iwhich = sr_level s mod 2; level = sr_level s + 1;
          s = s\<lparr>sr_level := level,
                 sr_stack := (sr_stack s)[level := \<lparr>or_offset = sr_offset s, or_runs = 0\<rparr>]\<rparr>
      in if iwhich = 0
         then let b = sr_offset s; p = nxt (sr_aux s ! b); t = nxt (sr_aux s ! p);
                  (src, aux, dst) = FROMTOUPTO (sr_base s) b (sr_aux s) b t
              in s\<lparr>sr_aux := aux, sr_offset := p, sr_base := (sr_base s)[b := Next p, p := Next t]\<rparr>
         else s)"

definition sort_down :: "nat \<Rightarrow> 'a sorting \<Rightarrow> bool \<times> 'a sorting" where
  "sort_down runs s =
     (let s = s\<lparr>sr_stack := (sr_stack s)[sr_level s := (sr_stack s ! sr_level s)\<lparr>or_runs := 0\<rparr>]\<rparr>;
          (runs, s) = sort_split runs s
      in if runs = 1 then sort_single s else (False, sort_pair s))"

partial_function (option) sort_loop :: "('a \<Rightarrow> 'a \<Rightarrow> int) \<Rightarrow> 'a sorting \<Rightarrow> 'a sorting option" where
  "sort_loop cmp s =
     (let (fin, s) = (if stack_runs s = 0 then sort_up cmp (sr_level s mod 2) s else (False, s))
      in if fin then Some s
         else let (fin, s) = sort_down (stack_runs s) s
              in if fin then Some s else sort_loop cmp s)"

declare dyn_inner.simps [code] dyn_outer.simps [code] sort_loop.simps [code]

text \<open>
  The sort of \<open>nmemb\<close> elements; \<open>aux\<close> is the auxiliary array as it is allocated, \<open>stack\<close> the stack
  before its first element is set.
\<close>

definition sortsv_flags :: "('a \<Rightarrow> 'a \<Rightarrow> int) \<Rightarrow> 'a cell list \<Rightarrow> off_runs list \<Rightarrow> 'a list \<Rightarrow> 'a list option" where
  "sortsv_flags cmp aux stack base =
     (let nmemb = length base
      in if nmemb \<le> 1 then Some base
         else Option.bind (dynprep cmp (map Elem base) aux nmemb) (\<lambda>d.
              map_option (\<lambda>s. map elem (sr_base s))
                (sort_loop cmp
                   \<lparr>sr_base = list1 d, sr_aux = list2 d, sr_level = 0, sr_offset = 0,
                    sr_stack = stack[0 := \<lparr>or_offset = 0, or_runs = dyn_runs d\<rparr>]\<rparr>)))"

end
