(* ===== verification/Sort_Merge.thy ===== *)
theory Sort_Merge
  imports Sort
begin

text \<open>
  The merge of \<open>Sort\<close>: for every comparison, what it writes is a permutation of the two runs;
  for one that orders the elements (locale \<open>comparator\<close>) it is their stable merge.

  \<^item> \<open>comparator\<close> is what a sort asks of a comparison; in it, facts on \<open>smerge\<close>, the reference merge.
  \<^item> \<open>blit\<close> describes what a copy does to an array, \<open>holds\<close> the elements in a part of one.
  \<^item> \<open>merge_point_bounds\<close>, \<open>merge_point_ok\<close>: the ramp and the binary split.
  \<^item> \<open>merge_runs_ok\<close>: the whole merge.
\<close>

section \<open>Comparisons\<close>

locale comparator =
  fixes A :: "'a set" and cmp :: "'a \<Rightarrow> 'a \<Rightarrow> int"
  assumes cmp_swap: "x \<in> A \<Longrightarrow> y \<in> A \<Longrightarrow> 0 < cmp x y \<longleftrightarrow> cmp y x < 0"
    and cmp_trans: "x \<in> A \<Longrightarrow> y \<in> A \<Longrightarrow> z \<in> A \<Longrightarrow> cmp x y \<le> 0 \<Longrightarrow> cmp y z \<le> 0 \<Longrightarrow> cmp x z \<le> 0"

text \<open>The stable merge of two lists, and what it means for one list to be the stable sort of another.\<close>

fun smerge :: "('a \<Rightarrow> 'a \<Rightarrow> int) \<Rightarrow> 'a list \<Rightarrow> 'a list \<Rightarrow> 'a list" where
  "smerge cmp [] ys = ys"
| "smerge cmp xs [] = xs"
| "smerge cmp (x # xs) (y # ys) =
     (if cmp x y \<le> 0 then x # smerge cmp xs (y # ys) else y # smerge cmp (x # xs) ys)"

definition ordered :: "'a set \<Rightarrow> ('a \<Rightarrow> 'a \<Rightarrow> int) \<Rightarrow> 'a list \<Rightarrow> bool" where
  "ordered A cmp xs \<longleftrightarrow> set xs \<subseteq> A \<and> sorted_wrt (\<lambda>x y. cmp x y \<le> 0) xs"

definition same_order :: "'a set \<Rightarrow> ('a \<Rightarrow> 'a \<Rightarrow> int) \<Rightarrow> 'a list \<Rightarrow> 'a list \<Rightarrow> bool" where
  "same_order A cmp xs ys \<longleftrightarrow> (\<forall>x \<in> A. filter (\<lambda>y. cmp x y = 0) ys = filter (\<lambda>y. cmp x y = 0) xs)"

lemma smerge_Nil2 [simp]: "smerge cmp xs [] = xs"
  by (cases xs) simp_all

lemma two_lists_induct [case_names Nil1 Nil2 Cons]:
  assumes "\<And>ys. P [] ys" "\<And>x xs. P (x # xs) []"
    "\<And>x xs y ys. P xs (y # ys) \<Longrightarrow> P (x # xs) ys \<Longrightarrow> P (x # xs) (y # ys)"
  shows "P xs ys"
proof (induction xs arbitrary: ys)
  case (Cons x xs)
  show ?case by (induction ys) (simp_all add: assms(2,3) Cons)
qed (rule assms(1))

lemma mset_smerge: "mset (smerge cmp xs ys) = mset xs + mset ys"
  by (induction cmp xs ys rule: smerge.induct) simp_all

lemma set_smerge: "set (smerge cmp xs ys) = set xs \<union> set ys"
  using arg_cong [OF mset_smerge, of set_mset cmp xs ys] by simp

lemma smerge_take_first:
  assumes "\<And>x. x \<in> set us \<Longrightarrow> cmp x v \<le> 0" "us' = [] \<or> 0 < cmp (hd us') v"
  shows "smerge cmp (us @ us') (v # vs) = us @ v # smerge cmp us' vs"
  using assms
proof (induction us)
  case Nil
  then show ?case by (cases us') auto
qed simp

lemma smerge_take_second:
  assumes "\<And>y. y \<in> set vs \<Longrightarrow> 0 < cmp u y" "vs' = [] \<or> cmp u (hd vs') \<le> 0"
  shows "smerge cmp (u # us) (vs @ vs') = vs @ u # smerge cmp us vs'"
  using assms
proof (induction vs)
  case Nil
  then show ?case by (cases vs') auto
next
  case (Cons v vs)
  then have "\<not> cmp u v \<le> 0" by (simp add: not_le)
  with Cons show ?case by simp
qed

context comparator
begin

lemma cmp_refl: "x \<in> A \<Longrightarrow> cmp x x = 0"
  using cmp_swap [of x x] by linarith

lemma cmp_total: "x \<in> A \<Longrightarrow> y \<in> A \<Longrightarrow> 0 < cmp x y \<Longrightarrow> cmp y x \<le> 0"
  using cmp_swap [of x y] by simp

lemma cmp_zero_sym: "x \<in> A \<Longrightarrow> y \<in> A \<Longrightarrow> cmp x y = 0 \<Longrightarrow> cmp y x = 0"
  using cmp_swap [of x y] cmp_swap [of y x] by linarith

lemma cmp_pos_trans:
  assumes "x \<in> A" "y \<in> A" "z \<in> A" "0 < cmp x y" "cmp x z \<le> 0"
  shows "0 < cmp z y"
proof (rule ccontr)
  assume "\<not> 0 < cmp z y"
  then have "cmp z y \<le> 0" by simp
  with assms have "cmp x y \<le> 0" by (intro cmp_trans [of x z y])
  with assms(4) show False by simp
qed

lemma cmp_pos_pos: "x \<in> A \<Longrightarrow> y \<in> A \<Longrightarrow> z \<in> A \<Longrightarrow> 0 < cmp x y \<Longrightarrow> 0 < cmp y z \<Longrightarrow> 0 < cmp x z"
  using cmp_pos_trans [of y z x] cmp_total [of x y] by simp

lemma ordered_smerge:
  assumes "ordered A cmp xs" "ordered A cmp ys"
  shows "ordered A cmp (smerge cmp xs ys)"
  using assms
proof (induction xs ys rule: two_lists_induct)
  case (Cons x xs y ys)
  then show ?case
    by (auto simp: ordered_def set_smerge not_le intro: cmp_trans cmp_total)
qed (simp_all add: ordered_def)

lemma filter_smerge:
  assumes "ordered A cmp xs" "ordered A cmp ys" "z \<in> A"
  shows "filter (\<lambda>y. cmp z y = 0) (smerge cmp xs ys)
    = filter (\<lambda>y. cmp z y = 0) xs @ filter (\<lambda>y. cmp z y = 0) ys"
  using assms
proof (induction xs ys rule: two_lists_induct)
  case (Cons x xs y ys)
  show ?case
  proof (cases "cmp x y \<le> 0 \<or> cmp z y \<noteq> 0")
    case True
    with Cons show ?thesis by (auto simp: ordered_def)
  next
    case False
    have none: "cmp z w \<noteq> 0" if "w \<in> set (x # xs)" for w
    proof
      assume "cmp z w = 0"
      have A: "x \<in> A" "y \<in> A" "w \<in> A" "z \<in> A" using that Cons.prems by (auto simp: ordered_def)
      have "cmp x w \<le> 0" using that Cons.prems(1) by (auto simp: ordered_def cmp_refl)
      moreover have "cmp w z \<le> 0" using cmp_zero_sym [OF A(4,3) \<open>cmp z w = 0\<close>] by simp
      moreover have "cmp z y \<le> 0" using False by simp
      ultimately have "cmp x y \<le> 0" using A cmp_trans by blast
      with False show False by simp
    qed
    then have "filter (\<lambda>y. cmp z y = 0) (x # xs) = []" by (simp add: filter_empty_conv)
    with Cons False show ?thesis by (auto simp: ordered_def)
  qed
qed simp_all

end

section \<open>Parts of an array\<close>

definition holds :: "'a cell list \<Rightarrow> nat \<Rightarrow> 'a list \<Rightarrow> bool" where
  "holds xs i vs \<longleftrightarrow> i + length vs \<le> length xs \<and> (\<forall>k < length vs. xs ! (i + k) = Elem (vs ! k))"

definition blit :: "'b list \<Rightarrow> nat \<Rightarrow> 'b list \<Rightarrow> 'b list" where
  "blit ys i zs = take i ys @ zs @ drop (i + length zs) ys"

lemma length_blit [simp]: "i + length zs \<le> length ys \<Longrightarrow> length (blit ys i zs) = length ys"
  by (simp add: blit_def)

lemma nth_blit:
  assumes "i + length zs \<le> length ys" "k < length ys"
  shows "blit ys i zs ! k = (if i \<le> k \<and> k < i + length zs then zs ! (k - i) else ys ! k)"
  using assms by (auto simp: blit_def nth_append min_def)

lemma blit_Nil [simp]: "blit ys i [] = ys"
  by (simp add: blit_def)

lemma blit_one: "i < length ys \<Longrightarrow> ys[i := z] = blit ys i [z]"
  by (simp add: blit_def upd_conv_take_nth_drop)

lemma blit_blit:
  assumes "i + length xs + length zs \<le> length ys" "j = i + length xs"
  shows "blit (blit ys i xs) j zs = blit ys i (xs @ zs)"
  using assms by (intro nth_equalityI) (auto simp: nth_blit nth_append)

lemma holds_append: "holds xs i (us @ vs) \<longleftrightarrow> holds xs i us \<and> holds xs (i + length us) vs"
proof -
  have "(\<forall>k < length us + length vs. xs ! (i + k) = Elem ((us @ vs) ! k))
      \<longleftrightarrow> (\<forall>k < length us. xs ! (i + k) = Elem (us ! k)) \<and> (\<forall>k < length vs. xs ! (i + length us + k) = Elem (vs ! k))"
    (is "?l \<longleftrightarrow> ?r")
  proof
    assume l: ?l
    then show ?r
    proof (intro conjI allI impI)
      fix k assume "k < length us" then show "xs ! (i + k) = Elem (us ! k)" using l [rule_format, of k] by (simp add: nth_append)
    next
      fix k assume "k < length vs"
      then show "xs ! (i + length us + k) = Elem (vs ! k)" using l [rule_format, of "length us + k"] by (simp add: add.assoc)
    qed
  next
    assume r: ?r
    show ?l
    proof (intro allI impI)
      fix k assume k: "k < length us + length vs"
      show "xs ! (i + k) = Elem ((us @ vs) ! k)"
      proof (cases "k < length us")
        case False
        then obtain m where "k = length us + m" using le_Suc_ex not_less by blast
        with r k show ?thesis by (simp add: nth_append add.assoc)
      qed (use r in \<open>simp add: nth_append\<close>)
    qed
  qed
  then show ?thesis by (auto simp: holds_def)
qed

lemma holds_Cons: "holds xs i (v # vs) \<longleftrightarrow> i < length xs \<and> xs ! i = Elem v \<and> holds xs (i + 1) vs"
  using holds_append [of xs i "[v]" vs] by (auto simp: holds_def)

lemma holds_nth: "holds xs i vs \<Longrightarrow> k < length vs \<Longrightarrow> xs ! (i + k) = Elem (vs ! k)"
  by (simp add: holds_def)

lemma holds_take: "holds xs i vs \<Longrightarrow> take (length vs) (drop i xs) = map Elem vs"
  by (intro nth_equalityI) (auto simp: holds_def)

lemma holds_blit: "i + length vs \<le> length xs \<Longrightarrow> holds (blit xs i (map Elem vs)) i vs"
  by (simp add: holds_def nth_blit)

lemma holds_cong:
  assumes "holds xs i vs" "length ys = length xs" "\<And>k. i \<le> k \<Longrightarrow> k < i + length vs \<Longrightarrow> ys ! k = xs ! k"
  shows "holds ys i vs"
  using assms by (simp add: holds_def)

lemma FROMTOUPTO_ok:
  assumes "holds from src vs" "vs \<noteq> []" "lim = src + length vs" "dst + length vs \<le> length dest"
  shows "FROMTOUPTO from src dest dst lim = (lim, blit dest dst (map Elem vs), dst + length vs)"
  using assms
proof (induction vs arbitrary: src dst dest)
  case (Cons v vs)
  have cell: "from ! src = Elem v" and rest: "holds from (src + 1) vs" using Cons.prems(1) by (simp_all add: holds_Cons)
  show ?case
  proof (cases "vs = []")
    case True
    with Cons.prems cell show ?thesis by (subst FROMTOUPTO.simps) (simp add: blit_one)
  next
    case False
    have "FROMTOUPTO from src dest dst lim = FROMTOUPTO from (src + 1) (blit dest dst [Elem v]) (dst + 1) lim"
      using False Cons.prems(3,4) cell by (subst FROMTOUPTO.simps) (simp add: blit_one)
    also have "\<dots> = (lim, blit (blit dest dst [Elem v]) (dst + 1) (map Elem vs), dst + 1 + length vs)"
      using Cons.prems False rest by (intro Cons.IH) simp_all
    also have "blit (blit dest dst [Elem v]) (dst + 1) (map Elem vs) = blit dest dst (map Elem (v # vs))"
      using Cons.prems(4) by (subst blit_blit) simp_all
    finally show ?thesis by simp
  qed
qed simp

section \<open>Where an element belongs\<close>

lemma merge_ramp_bounds:
  assumes "merge_ramp cmp xs sense q b t j run = (b', t')" "b < t"
  shows "b \<le> b' \<and> b' < t' \<and> t' \<le> t"
  using assms
proof (induction cmp xs sense q b t j run rule: merge_ramp.induct)
  case (1 cmp xs sense q b t j run)
  note eq = merge_ramp.simps [of cmp xs sense q b t j run]
  show ?case
  proof (cases "b + Suc j < t \<and> \<not> goes_before cmp xs sense q (b + Suc j)")
    case True
    then have "merge_ramp cmp xs sense q (b + Suc j) t (if run + 1 \<ge> RTHRESH then 2 * j + 1 else j) (run + 1) = (b', t')"
      using "1.prems" eq by (simp add: Let_def)
    from "1.IH" [OF refl _ _ this] True show ?thesis by simp
  next
    case False
    with "1.prems" eq show ?thesis by (auto simp: Let_def split: if_splits)
  qed
qed

lemma merge_ramp_ok:
  assumes "merge_ramp cmp xs sense q b t j run = (b', t')" "b < t"
    and "\<not> goes_before cmp xs sense q b"
  shows "\<not> goes_before cmp xs sense q b' \<and> (t' = t \<or> goes_before cmp xs sense q t')"
  using assms
proof (induction cmp xs sense q b t j run rule: merge_ramp.induct)
  case (1 cmp xs sense q b t j run)
  note eq = merge_ramp.simps [of cmp xs sense q b t j run]
  show ?case
  proof (cases "b + Suc j < t \<and> \<not> goes_before cmp xs sense q (b + Suc j)")
    case True
    then have "merge_ramp cmp xs sense q (b + Suc j) t (if run + 1 \<ge> RTHRESH then 2 * j + 1 else j) (run + 1) = (b', t')"
      using "1.prems" eq by (simp add: Let_def)
    from "1.IH" [OF refl _ _ this] True show ?thesis by simp
  next
    case False
    have b: "t - 1 > b \<or> t - 1 = b" using "1.prems"(2) by linarith
    from False "1.prems" eq b show ?thesis by (auto simp: Let_def split: if_splits)
  qed
qed

lemma merge_split_unfold:
  assumes "p = b + (t - b - 1) div 2"
  shows "merge_split cmp xs sense q b t =
     (if b < t then if goes_before cmp xs sense q p then merge_split cmp xs sense q b p
        else merge_split cmp xs sense q (p + 1) t
      else t)"
  unfolding assms by (subst merge_split.simps) (simp only: Let_def)

lemma merge_split_bounds: "b \<le> t \<Longrightarrow> b \<le> merge_split cmp xs sense q b t \<and> merge_split cmp xs sense q b t \<le> t"
proof (induction cmp xs sense q b t rule: merge_split.induct)
  case (1 cmp xs sense q b t)
  define p where "p = b + (t - b - 1) div 2"
  note eq = merge_split_unfold [OF p_def, of cmp xs sense q]
  show ?case
  proof (cases "b < t")
    case True
    then have p: "b \<le> p" "p < t" unfolding p_def by linarith+
    show ?thesis
      unfolding eq using "1.IH" [OF True p_def] True p by auto
  next
    case False
    with "1.prems" show ?thesis unfolding eq by simp
  qed
qed

lemma merge_split_ok:
  assumes "b \<le> t" "t \<le> e" "lo \<le> b"
    and "\<And>i. lo \<le> i \<Longrightarrow> i < b \<Longrightarrow> \<not> goes_before cmp xs sense q i"
    and "\<And>i. t \<le> i \<Longrightarrow> i < e \<Longrightarrow> goes_before cmp xs sense q i"
    and mono: "\<And>i j. lo \<le> i \<Longrightarrow> i \<le> j \<Longrightarrow> j < e \<Longrightarrow> goes_before cmp xs sense q i \<Longrightarrow> goes_before cmp xs sense q j"
  shows "(\<forall>i. lo \<le> i \<longrightarrow> i < merge_split cmp xs sense q b t \<longrightarrow> \<not> goes_before cmp xs sense q i)
    \<and> (\<forall>i. merge_split cmp xs sense q b t \<le> i \<longrightarrow> i < e \<longrightarrow> goes_before cmp xs sense q i)"
  using assms
proof (induction cmp xs sense q b t rule: merge_split.induct)
  case (1 cmp xs sense q b t)
  define p where "p = b + (t - b - 1) div 2"
  note eq = merge_split_unfold [OF p_def, of cmp xs sense q]
  note prems = "1.prems"
  show ?case
  proof (cases "b < t")
    case True
    then have p: "b \<le> p" "p < t" unfolding p_def by linarith+
    show ?thesis
    proof (cases "goes_before cmp xs sense q p")
      case before: True
      have high: "goes_before cmp xs sense q i" if "p \<le> i" "i < e" for i
        using prems(6) [of p i] before that p prems(3) by simp
      have "(\<forall>i. lo \<le> i \<longrightarrow> i < merge_split cmp xs sense q b p \<longrightarrow> \<not> goes_before cmp xs sense q i)
        \<and> (\<forall>i. merge_split cmp xs sense q b p \<le> i \<longrightarrow> i < e \<longrightarrow> goes_before cmp xs sense q i)"
      proof (rule "1.IH"(1) [OF True p_def before])
        show "p \<le> e" using p(2) prems(2) by simp
      qed (fact p(1) prems(3) prems(4) high prems(6))+
      then show ?thesis unfolding eq using True before by simp
    next
      case after: False
      have low: "\<not> goes_before cmp xs sense q i" if "lo \<le> i" "i < p + 1" for i
        using prems(6) [of i p] after that p prems(2) by auto
      have "(\<forall>i. lo \<le> i \<longrightarrow> i < merge_split cmp xs sense q (p + 1) t \<longrightarrow> \<not> goes_before cmp xs sense q i)
        \<and> (\<forall>i. merge_split cmp xs sense q (p + 1) t \<le> i \<longrightarrow> i < e \<longrightarrow> goes_before cmp xs sense q i)"
      proof (rule "1.IH"(2) [OF True p_def after])
        show "p + 1 \<le> t" "lo \<le> p + 1" using p prems(3) by simp_all
      qed (fact prems(2) low prems(5) prems(6))+
      then show ?thesis unfolding eq using True after by simp
    qed
  next
    case False
    with prems(1) have "merge_split cmp xs sense q b t = b" "t = b" unfolding eq by simp_all
    with prems(4,5) show ?thesis by simp
  qed
qed

lemma merge_point_bounds:
  assumes "b < t"
  shows "b < merge_point cmp xs sense q b t \<and> merge_point cmp xs sense q b t \<le> t"
proof -
  obtain b' t' where r: "merge_ramp cmp xs sense q b t 0 0 = (b', t')" by fastforce
  then show ?thesis
    using merge_ramp_bounds [OF r assms] merge_split_bounds [of "b' + 1" t' cmp xs sense q]
    by (auto simp: merge_point_def)
qed

lemma merge_point_ok:
  assumes "b < t" "\<not> goes_before cmp xs sense q b"
    and mono: "\<And>i j. b \<le> i \<Longrightarrow> i \<le> j \<Longrightarrow> j < t \<Longrightarrow> goes_before cmp xs sense q i \<Longrightarrow> goes_before cmp xs sense q j"
  shows "(\<forall>i. b \<le> i \<longrightarrow> i < merge_point cmp xs sense q b t \<longrightarrow> \<not> goes_before cmp xs sense q i)
    \<and> (\<forall>i. merge_point cmp xs sense q b t \<le> i \<longrightarrow> i < t \<longrightarrow> goes_before cmp xs sense q i)"
proof -
  obtain b' t' where r: "merge_ramp cmp xs sense q b t 0 0 = (b', t')" by fastforce
  note bounds = merge_ramp_bounds [OF r assms(1)] and ok = merge_ramp_ok [OF r assms(1,2)]
  have low: "\<not> goes_before cmp xs sense q i" if "b \<le> i" "i < b' + 1" for i
    using mono [of i b'] that bounds ok by auto
  have high: "goes_before cmp xs sense q i" if "t' \<le> i" "i < t" for i
    using mono [of t' i] that bounds ok by auto
  have "merge_point cmp xs sense q b t = merge_split cmp xs sense q (b' + 1) t'"
    by (simp add: merge_point_def r)
  moreover have "(\<forall>i. b \<le> i \<longrightarrow> i < merge_split cmp xs sense q (b' + 1) t' \<longrightarrow> \<not> goes_before cmp xs sense q i)
    \<and> (\<forall>i. merge_split cmp xs sense q (b' + 1) t' \<le> i \<longrightarrow> i < t \<longrightarrow> goes_before cmp xs sense q i)"
    by (rule merge_split_ok) (use bounds low high mono in auto)
  ultimately show ?thesis by simp
qed

section \<open>The merge\<close>

lemma ordered_append:
  "ordered A cmp (xs @ ys) \<longleftrightarrow> ordered A cmp xs \<and> ordered A cmp ys \<and> (\<forall>x \<in> set xs. \<forall>y \<in> set ys. cmp x y \<le> 0)"
  by (auto simp: ordered_def sorted_wrt_append)

lemma ordered_nth: "ordered A cmp xs \<Longrightarrow> comparator A cmp \<Longrightarrow> i \<le> j \<Longrightarrow> j < length xs \<Longrightarrow> cmp (xs ! i) (xs ! j) \<le> 0"
  using sorted_wrt_nth_less [of "\<lambda>x y. cmp x y \<le> 0" xs i j]
  by (cases "i = j") (auto simp: ordered_def comparator.cmp_refl [of A cmp] subset_iff)

text \<open>The number of elements of the first run that go before the head of the second, and conversely.\<close>

lemma merge_point_first:
  assumes xs: "holds xs f1 us" "holds xs f2 (v # vs)" and us: "us \<noteq> []" and l1: "l1 = f1 + length us"
  obtains n where "merge_point cmp xs (- 1) f2 f1 l1 = f1 + n" "0 < n" "n \<le> length us"
    "\<forall>A. comparator A cmp \<longrightarrow> v \<in> A \<longrightarrow> ordered A cmp us \<longrightarrow> cmp (hd us) v \<le> 0 \<longrightarrow>
       (\<forall>x \<in> set (take n us). cmp x v \<le> 0) \<and> (drop n us = [] \<or> 0 < cmp (hd (drop n us)) v)"
proof -
  have lt: "f1 < l1" using us l1 by simp
  define n where "n = merge_point cmp xs (- 1) f2 f1 l1 - f1"
  have n: "merge_point cmp xs (- 1) f2 f1 l1 = f1 + n" "0 < n" "n \<le> length us"
    using merge_point_bounds [OF lt, of cmp xs "- 1" f2] l1 by (auto simp: n_def)
  have gb: "goes_before cmp xs (- 1) f2 (f1 + i) \<longleftrightarrow> cmp v (us ! i) \<le> - 1" if "i < length us" for i
    using xs that by (simp add: goes_before_def holds_nth holds_Cons)
  have "(\<forall>x \<in> set (take n us). cmp x v \<le> 0) \<and> (drop n us = [] \<or> 0 < cmp (hd (drop n us)) v)"
    if c: "comparator A cmp" "ordered A cmp us" "cmp (hd us) v \<le> 0" and v: "v \<in> A" for A
  proof -
    note cmp_swap = comparator.cmp_swap [OF c(1)] and cmp_trans = comparator.cmp_trans [OF c(1)]
      and cmp_pos_trans = comparator.cmp_pos_trans [OF c(1)]
    have A: "us ! i \<in> A" if "i < length us" for i using c(2) that by (auto simp: ordered_def)
    have swap: "cmp v w \<le> - 1 \<longleftrightarrow> 0 < cmp w v" if "w \<in> A" for w using cmp_swap [OF that v] by linarith
    have mono: "goes_before cmp xs (- 1) f2 j"
      if "f1 \<le> i" "i \<le> j" "j < l1" "goes_before cmp xs (- 1) f2 i" for i j
    proof -
      define a b where "a = i - f1" and "b = j - f1"
      then have ab: "i = f1 + a" "j = f1 + b" using that by simp_all
      with that l1 have "cmp (us ! a) (us ! b) \<le> 0" by (intro ordered_nth [OF c(2,1)]) auto
      then show ?thesis
        using that l1 ab gb [of a] gb [of b] cmp_pos_trans [of "us ! a" v "us ! b"] A v by (simp add: swap)
    qed
    have first: "\<not> goes_before cmp xs (- 1) f2 f1"
      using gb [of 0] us c(3) A [of 0] by (simp add: swap hd_conv_nth not_less)
    note ok = merge_point_ok [OF lt first mono, unfolded n(1)]
    have "cmp x v \<le> 0" if x: "x \<in> set (take n us)" for x
    proof -
      obtain i where i: "i < n" "i < length us" "x = us ! i" using x by (auto simp: in_set_conv_nth)
      then show ?thesis using ok gb [of i] A [of i] by (auto simp: swap not_less)
    qed
    moreover have "0 < cmp (hd (drop n us)) v" if "n < length us"
      using ok gb [of n] that l1 A [of n] by (simp add: swap hd_drop_conv_nth)
    ultimately show ?thesis by (cases "n < length us") auto
  qed
  with n show thesis by (intro that) blast+
qed

lemma merge_point_second:
  assumes xs: "holds xs f1 (u # us)" "holds xs f2 vs" and vs: "vs \<noteq> []" and l2: "l2 = f2 + length vs"
  obtains n where "merge_point cmp xs 0 f1 f2 l2 = f2 + n" "0 < n" "n \<le> length vs"
    "\<forall>A. comparator A cmp \<longrightarrow> u \<in> A \<longrightarrow> ordered A cmp vs \<longrightarrow> 0 < cmp u (hd vs) \<longrightarrow>
       (\<forall>y \<in> set (take n vs). 0 < cmp u y) \<and> (drop n vs = [] \<or> cmp u (hd (drop n vs)) \<le> 0)"
proof -
  have lt: "f2 < l2" using vs l2 by simp
  define n where "n = merge_point cmp xs 0 f1 f2 l2 - f2"
  have n: "merge_point cmp xs 0 f1 f2 l2 = f2 + n" "0 < n" "n \<le> length vs"
    using merge_point_bounds [OF lt, of cmp xs 0 f1] l2 by (auto simp: n_def)
  have gb: "goes_before cmp xs 0 f1 (f2 + i) \<longleftrightarrow> cmp u (vs ! i) \<le> 0" if "i < length vs" for i
    using xs that by (simp add: goes_before_def holds_nth holds_Cons)
  have "(\<forall>y \<in> set (take n vs). 0 < cmp u y) \<and> (drop n vs = [] \<or> cmp u (hd (drop n vs)) \<le> 0)"
    if c: "comparator A cmp" "ordered A cmp vs" "0 < cmp u (hd vs)" and u: "u \<in> A" for A
  proof -
    note cmp_swap = comparator.cmp_swap [OF c(1)] and cmp_trans = comparator.cmp_trans [OF c(1)]
      and cmp_pos_trans = comparator.cmp_pos_trans [OF c(1)]
    have A: "vs ! i \<in> A" if "i < length vs" for i using c(2) that by (auto simp: ordered_def)
    have mono: "goes_before cmp xs 0 f1 j"
      if "f2 \<le> i" "i \<le> j" "j < l2" "goes_before cmp xs 0 f1 i" for i j
    proof -
      define a b where "a = i - f2" and "b = j - f2"
      then have ab: "i = f2 + a" "j = f2 + b" using that by simp_all
      with that l2 have "cmp (vs ! a) (vs ! b) \<le> 0" by (intro ordered_nth [OF c(2,1)]) auto
      then show ?thesis
        using that l2 ab gb [of a] gb [of b] cmp_trans [of u "vs ! a" "vs ! b"] A u by simp
    qed
    have first: "\<not> goes_before cmp xs 0 f1 f2"
      using gb [of 0] vs c(3) by (simp add: hd_conv_nth)
    note ok = merge_point_ok [OF lt first mono, unfolded n(1)]
    have "0 < cmp u y" if y: "y \<in> set (take n vs)" for y
    proof -
      obtain i where i: "i < n" "i < length vs" "y = vs ! i" using y by (auto simp: in_set_conv_nth)
      then show ?thesis using ok gb [of i] by (auto simp: not_le)
    qed
    moreover have "cmp u (hd (drop n vs)) \<le> 0" if "n < length vs"
      using ok gb [of n] that l2 by (simp add: hd_drop_conv_nth)
    ultimately show ?thesis by (cases "n < length vs") auto
  qed
  with n show thesis by (intro that) blast+
qed

lemma blit_step:
  assumes "tp2 + length us + 1 \<le> length ys"
  shows "(blit ys tp2 (map Elem us))[tp2 + length us := Elem v] = blit ys tp2 (map Elem (us @ [v]))"
  using assms by (simp add: blit_one blit_blit)

lemma merge_loop_first:
  assumes "holds xs f1 us" "holds xs f2 (v # vs)" "us \<noteq> []" "l1 = f1 + length us" "f2 < l2"
    "cmp (hd us) v \<le> 0" "merge_point cmp xs (- 1) f2 f1 l1 = f1 + n" "0 < n" "n \<le> length us"
    "tp2 + length us + 1 \<le> length ys"
  shows "merge_loop cmp xs l1 l2 f1 f2 ys tp2
    = merge_loop cmp xs l1 l2 (f1 + n) (f2 + 1) (blit ys tp2 (map Elem (take n us @ [v]))) (tp2 + n + 1)"
proof -
  have parts: "holds xs f1 (take n us)" "xs ! f2 = Elem v" "xs ! f1 = Elem (hd us)"
    using assms(1,2,3) holds_append [of xs f1 "take n us" "drop n us"]
    by (auto simp: holds_Cons neq_Nil_conv)
  have copy: "FROMTOUPTO xs f1 ys tp2 (f1 + n) = (f1 + n, blit ys tp2 (map Elem (take n us)), tp2 + n)"
    using FROMTOUPTO_ok [OF parts(1), of "f1 + n" tp2 ys] assms(3,8,9,10) by simp
  show ?thesis
    using assms parts copy blit_step [of tp2 "take n us" ys v]
    by (subst merge_loop.simps) (simp add: Let_def)
qed

lemma merge_loop_second:
  assumes "holds xs f1 (u # us)" "holds xs f2 vs" "vs \<noteq> []" "l2 = f2 + length vs" "f1 < l1"
    "\<not> cmp u (hd vs) \<le> 0" "merge_point cmp xs 0 f1 f2 l2 = f2 + n" "0 < n" "n \<le> length vs"
    "tp2 + length vs + 1 \<le> length ys"
  shows "merge_loop cmp xs l1 l2 f1 f2 ys tp2
    = merge_loop cmp xs l1 l2 (f1 + 1) (f2 + n) (blit ys tp2 (map Elem (take n vs @ [u]))) (tp2 + n + 1)"
proof -
  have parts: "holds xs f2 (take n vs)" "xs ! f1 = Elem u" "xs ! f2 = Elem (hd vs)"
    using assms(1,2,3) holds_append [of xs f2 "take n vs" "drop n vs"]
    by (auto simp: holds_Cons neq_Nil_conv)
  have copy: "FROMTOUPTO xs f2 ys tp2 (f2 + n) = (f2 + n, blit ys tp2 (map Elem (take n vs)), tp2 + n)"
    using FROMTOUPTO_ok [OF parts(1), of "f2 + n" tp2 ys] assms(3,8,9,10) by simp
  show ?thesis
    using assms parts copy blit_step [of tp2 "take n vs" ys u]
    by (subst merge_loop.simps) (simp add: Let_def)
qed

lemma ordered_Cons: "ordered A cmp (x # xs) \<Longrightarrow> ordered A cmp xs" "ordered A cmp (x # xs) \<Longrightarrow> x \<in> A"
  by (simp_all add: ordered_def)

lemma ordered_drop: "ordered A cmp xs \<Longrightarrow> ordered A cmp (drop n xs)"
  using set_drop_subset [of n xs] by (auto simp: ordered_def sorted_wrt_drop)

definition merge_done :: "('a \<Rightarrow> 'a \<Rightarrow> int) \<Rightarrow> 'a cell list \<Rightarrow> nat \<Rightarrow> nat \<Rightarrow> 'a list \<Rightarrow> 'a list \<Rightarrow> 'a cell list \<Rightarrow> nat
    \<Rightarrow> nat \<times> nat \<times> 'a cell list \<times> nat \<Rightarrow> bool" where
  "merge_done cmp xs f1 f2 us vs ys tp2 r \<longleftrightarrow>
     (\<exists>us0 us' vs0 vs' out. r = (f1 + length us0, f2 + length vs0, blit ys tp2 (map Elem out), tp2 + length out)
       \<and> us = us0 @ us' \<and> vs = vs0 @ vs' \<and> (us' = [] \<or> vs' = []) \<and> mset out = mset us0 + mset vs0
       \<and> (\<forall>A. comparator A cmp \<longrightarrow> ordered A cmp us \<longrightarrow> ordered A cmp vs \<longrightarrow> smerge cmp us vs = out @ us' @ vs'))"

lemma merge_loop_ok:
  assumes "holds xs f1 us" "holds xs f2 vs" "l1 = f1 + length us" "l2 = f2 + length vs"
    "tp2 + length us + length vs \<le> length ys"
  shows "merge_done cmp xs f1 f2 us vs ys tp2 (merge_loop cmp xs l1 l2 f1 f2 ys tp2)"
  using assms
proof (induction "length us + length vs" arbitrary: us vs f1 f2 ys tp2 rule: less_induct)
  case less
  show ?case
  proof (cases "us = [] \<or> vs = []")
    case True
    then have "merge_loop cmp xs l1 l2 f1 f2 ys tp2 = (f1, f2, ys, tp2)"
      using less.prems(3,4) by (subst merge_loop.simps) auto
    then show ?thesis using True unfolding merge_done_def
      by (intro exI [of _ "[]"] exI [of _ us] exI [of _ vs]) auto
  next
    case False
    then obtain u us1 v vs1 where cons: "us = u # us1" "vs = v # vs1" by (auto simp: neq_Nil_conv)
    have lt: "f1 < l1" "f2 < l2" using less.prems(3,4) cons by simp_all
    have ne: "us \<noteq> []" "vs \<noteq> []" using cons by simp_all
    show ?thesis
    proof (cases "cmp u v \<le> 0")
      case True
      obtain n where n: "merge_point cmp xs (- 1) f2 f1 l1 = f1 + n" "0 < n" "n \<le> length us"
        "\<forall>A. comparator A cmp \<longrightarrow> v \<in> A \<longrightarrow> ordered A cmp us \<longrightarrow> cmp (hd us) v \<le> 0 \<longrightarrow>
           (\<forall>x \<in> set (take n us). cmp x v \<le> 0) \<and> (drop n us = [] \<or> 0 < cmp (hd (drop n us)) v)"
        by (rule merge_point_first [OF less.prems(1) less.prems(2) [unfolded cons(2)] ne(1) less.prems(3), of cmp]) (rule that)
      let ?ys = "blit ys tp2 (map Elem (take n us @ [v]))"
      have len: "length (take n us @ [v]) = n + 1" using n(3) by simp
      have step: "merge_loop cmp xs l1 l2 f1 f2 ys tp2 = merge_loop cmp xs l1 l2 (f1 + n) (f2 + 1) ?ys (tp2 + n + 1)"
        using less.prems cons lt True n(1-3) by (intro merge_loop_first) auto
      have rest: "holds xs (f1 + n) (drop n us)" "holds xs (f2 + 1) vs1"
        using less.prems(1,2) holds_append [of xs f1 "take n us" "drop n us"] n(3) cons by (simp_all add: holds_Cons)
      have "merge_done cmp xs (f1 + n) (f2 + 1) (drop n us) vs1 ?ys (tp2 + n + 1)
          (merge_loop cmp xs l1 l2 (f1 + n) (f2 + 1) ?ys (tp2 + n + 1))"
        using less.prems(3-5) rest n(2,3) cons len by (intro less.hyps) (simp_all del: map_append)
      then obtain us0 us' vs0 vs' out where ih: "merge_loop cmp xs l1 l2 (f1 + n) (f2 + 1) ?ys (tp2 + n + 1)
          = (f1 + n + length us0, f2 + 1 + length vs0, blit ?ys (tp2 + n + 1) (map Elem out), tp2 + n + 1 + length out)"
        "drop n us = us0 @ us'" "vs1 = vs0 @ vs'" "us' = [] \<or> vs' = []" "mset out = mset us0 + mset vs0"
        "\<forall>A. comparator A cmp \<longrightarrow> ordered A cmp (drop n us) \<longrightarrow> ordered A cmp vs1 \<longrightarrow> smerge cmp (drop n us) vs1 = out @ us' @ vs'"
        unfolding merge_done_def by (elim exE conjE) (rule that)
      have outl: "length out \<le> length us + length vs - n - 1"
        using arg_cong [OF ih(5), of size] arg_cong [OF ih(2), of length] ih(3) n(3) cons by simp
      have written: "blit ?ys (tp2 + n + 1) (map Elem out) = blit ys tp2 (map Elem (take n us @ [v] @ out))"
        using blit_blit [of tp2 "map Elem (take n us @ [v])" "map Elem out" ys] less.prems(5) outl len n(3) cons
        by (simp add: min_def)
      have whole: "us = (take n us @ us0) @ us'" using ih(2) append_take_drop_id [of n us] by simp
      have order: "smerge cmp us vs = (take n us @ [v] @ out) @ us' @ vs'"
        if "comparator A cmp" "ordered A cmp us" "ordered A cmp vs" for A
        using that True ordered_drop [of A cmp us n] ordered_Cons [of A cmp v vs1] n(4) [rule_format, of A] ih(6) [rule_format, of A] cons
          smerge_take_first [of "take n us" cmp v "drop n us" vs1] by simp
      show ?thesis unfolding merge_done_def
      proof (intro exI conjI allI impI)
        show "merge_loop cmp xs l1 l2 f1 f2 ys tp2 = (f1 + length (take n us @ us0), f2 + length (v # vs0),
            blit ys tp2 (map Elem (take n us @ [v] @ out)), tp2 + length (take n us @ [v] @ out))"
          unfolding step ih(1) written using n(3) by (simp add: min_def)
        show "mset (take n us @ [v] @ out) = mset (take n us @ us0) + mset (v # vs0)" using ih(5) by simp
      qed (use whole ih(3,4) cons order in \<open>simp_all\<close>)
    next
      case False
      obtain n where n: "merge_point cmp xs 0 f1 f2 l2 = f2 + n" "0 < n" "n \<le> length vs"
        "\<forall>A. comparator A cmp \<longrightarrow> u \<in> A \<longrightarrow> ordered A cmp vs \<longrightarrow> 0 < cmp u (hd vs) \<longrightarrow>
           (\<forall>y \<in> set (take n vs). 0 < cmp u y) \<and> (drop n vs = [] \<or> cmp u (hd (drop n vs)) \<le> 0)"
        by (rule merge_point_second [OF less.prems(1) [unfolded cons(1)] less.prems(2) ne(2) less.prems(4), of cmp]) (rule that)
      let ?ys = "blit ys tp2 (map Elem (take n vs @ [u]))"
      have len: "length (take n vs @ [u]) = n + 1" using n(3) by simp
      have step: "merge_loop cmp xs l1 l2 f1 f2 ys tp2 = merge_loop cmp xs l1 l2 (f1 + 1) (f2 + n) ?ys (tp2 + n + 1)"
        using less.prems cons lt False n(1-3) by (intro merge_loop_second) auto
      have rest: "holds xs (f2 + n) (drop n vs)" "holds xs (f1 + 1) us1"
        using less.prems(1,2) holds_append [of xs f2 "take n vs" "drop n vs"] n(3) cons by (simp_all add: holds_Cons)
      have "merge_done cmp xs (f1 + 1) (f2 + n) us1 (drop n vs) ?ys (tp2 + n + 1)
          (merge_loop cmp xs l1 l2 (f1 + 1) (f2 + n) ?ys (tp2 + n + 1))"
        using less.prems(3-5) rest n(2,3) cons len by (intro less.hyps) (simp_all del: map_append)
      then obtain us0 us' vs0 vs' out where ih: "merge_loop cmp xs l1 l2 (f1 + 1) (f2 + n) ?ys (tp2 + n + 1)
          = (f1 + 1 + length us0, f2 + n + length vs0, blit ?ys (tp2 + n + 1) (map Elem out), tp2 + n + 1 + length out)"
        "us1 = us0 @ us'" "drop n vs = vs0 @ vs'" "us' = [] \<or> vs' = []" "mset out = mset us0 + mset vs0"
        "\<forall>A. comparator A cmp \<longrightarrow> ordered A cmp us1 \<longrightarrow> ordered A cmp (drop n vs) \<longrightarrow> smerge cmp us1 (drop n vs) = out @ us' @ vs'"
        unfolding merge_done_def by (elim exE conjE) (rule that)
      have outl: "length out \<le> length us + length vs - n - 1"
        using arg_cong [OF ih(5), of size] arg_cong [OF ih(3), of length] ih(2) n(3) cons by simp
      have written: "blit ?ys (tp2 + n + 1) (map Elem out) = blit ys tp2 (map Elem (take n vs @ [u] @ out))"
        using blit_blit [of tp2 "map Elem (take n vs @ [u])" "map Elem out" ys] less.prems(5) outl len n(3) cons
        by (simp add: min_def)
      have whole: "vs = (take n vs @ vs0) @ vs'" using ih(3) append_take_drop_id [of n vs] by simp
      have order: "smerge cmp us vs = (take n vs @ [u] @ out) @ us' @ vs'"
        if "comparator A cmp" "ordered A cmp us" "ordered A cmp vs" for A
        using that False ordered_drop [of A cmp vs n] ordered_Cons [of A cmp u us1] n(4) [rule_format, of A] ih(6) [rule_format, of A] cons
          smerge_take_second [of "take n vs" cmp u "drop n vs" us1] by simp
      show ?thesis unfolding merge_done_def
      proof (intro exI conjI allI impI)
        show "merge_loop cmp xs l1 l2 f1 f2 ys tp2 = (f1 + length (u # us0), f2 + length (take n vs @ vs0),
            blit ys tp2 (map Elem (take n vs @ [u] @ out)), tp2 + length (take n vs @ [u] @ out))"
          unfolding step ih(1) written using n(3) by (simp add: min_def)
        show "mset (take n vs @ [u] @ out) = mset (u # us0) + mset (take n vs @ vs0)" using ih(5) by simp
      qed (use whole ih(2,4) cons order in \<open>simp_all\<close>)
    qed
  qed
qed

lemma FROMTOUPTO_rest:
  assumes "holds xs f (us0 @ us')" "us' \<noteq> []" "lim = f + length us0 + length us'" "tp + length us' \<le> length ys"
  shows "FROMTOUPTO xs (f + length us0) ys tp lim = (lim, blit ys tp (map Elem us'), tp + length us')"
  using assms FROMTOUPTO_ok [of xs "f + length us0" us' lim tp ys] by (simp add: holds_append)

lemma merge_runs_ok:
  assumes us: "holds xs f us" "us \<noteq> []" and vs: "holds xs m vs" "vs \<noteq> []"
    and ends: "ys ! f = Next m" "ys ! m = Next e" "m = f + length us" "e = m + length vs"
    and len: "e \<le> length ys"
  obtains zs where "merge_runs cmp xs ys f = (xs[f := Next e], blit ys f (map Elem zs), e)"
    "mset zs = mset us + mset vs"
    "\<forall>A. comparator A cmp \<longrightarrow> ordered A cmp us \<longrightarrow> ordered A cmp vs \<longrightarrow> zs = smerge cmp us vs"
proof -
  have "merge_done cmp xs f m us vs ys f (merge_loop cmp xs m e f m ys f)"
    using us vs ends len by (intro merge_loop_ok) simp_all
  then obtain us0 us' vs0 vs' out where loop: "merge_loop cmp xs m e f m ys f
        = (f + length us0, m + length vs0, blit ys f (map Elem out), f + length out)"
      "us = us0 @ us'" "vs = vs0 @ vs'" "us' = [] \<or> vs' = []" "mset out = mset us0 + mset vs0"
      "\<forall>A. comparator A cmp \<longrightarrow> ordered A cmp us \<longrightarrow> ordered A cmp vs \<longrightarrow> smerge cmp us vs = out @ us' @ vs'"
    unfolding merge_done_def by (elim exE conjE) (rule that)
  have outl: "length out = length us0 + length vs0" using arg_cong [OF loop(5), of size] by simp
  define zs where "zs = out @ us' @ vs'"
  have zsl: "f + length zs = e" using outl loop(2,3) ends(3,4) by (simp add: zs_def)
  have space: "f + length (map Elem out) + length (map Elem us') \<le> length ys"
    "f + length (map Elem out) + length (map Elem vs') \<le> length ys"
    using zsl len by (simp_all add: zs_def)
  have "merge_runs cmp xs ys f = (xs[f := Next e], blit ys f (map Elem zs), e)"
  proof (cases "us' = []")
    case True
    show ?thesis
    proof (cases "vs' = []")
      case vs': True
      then show ?thesis using loop True ends zsl by (simp add: merge_runs_def Let_def zs_def add.assoc)
    next
      case vs': False
      have "FROMTOUPTO xs (m + length vs0) (blit ys f (map Elem out)) (f + length out) e
          = (e, blit (blit ys f (map Elem out)) (f + length out) (map Elem vs'), f + length out + length vs')"
        using vs(1) vs' loop(3) ends(4) space by (intro FROMTOUPTO_rest) simp_all
      then show ?thesis using loop True vs' ends zsl space(2)
        by (simp add: merge_runs_def Let_def zs_def blit_blit add.assoc)
    qed
  next
    case False
    then have vs': "vs' = []" using loop(4) by simp
    have "FROMTOUPTO xs (f + length us0) (blit ys f (map Elem out)) (f + length out) m
        = (m, blit (blit ys f (map Elem out)) (f + length out) (map Elem us'), f + length out + length us')"
      using us(1) False loop(2) ends(3) space by (intro FROMTOUPTO_rest) simp_all
    then show ?thesis using loop False vs' ends zsl space(1)
      by (simp add: merge_runs_def Let_def zs_def blit_blit ac_simps)
  qed
  moreover have "mset zs = mset us + mset vs" using loop(2,3,5) by (simp add: zs_def)
  moreover have "\<forall>A. comparator A cmp \<longrightarrow> ordered A cmp us \<longrightarrow> ordered A cmp vs \<longrightarrow> zs = smerge cmp us vs"
    using loop(6) by (simp add: zs_def)
  ultimately show thesis by (rule that)
qed

end
