(* ===== verification/Sort_Runs.thy ===== *)
theory Sort_Runs
  imports Sort_Merge
begin

text \<open>
  What \<open>dynprep\<close> leaves, for any comparison: the base array cut into runs, each a stretch of the
  input that was in order, or one that was in strictly reversed order and has been turned round;
  the other array holds the end of each run at its start, and the number of runs is returned.

  \<^item> \<open>seg_out\<close>, \<open>run_chain\<close>, \<open>prep_at\<close>: the runs, the links, and the invariant up to a position.
  \<^item> \<open>prep_add\<close>: one more run. \<open>dyn_step_ok\<close>: a turn of the inner loop; \<open>dynprep_ok\<close>: the whole.
\<close>

section \<open>Runs and links\<close>

type_synonym 'a seg = "bool \<times> 'a list"

definition seg_out :: "'a seg \<Rightarrow> 'a list" where
  "seg_out g = (if fst g then rev (snd g) else snd g)"

definition seg_ok :: "('a \<Rightarrow> 'a \<Rightarrow> int) \<Rightarrow> 'a seg \<Rightarrow> bool" where
  "seg_ok cmp g \<longleftrightarrow> snd g \<noteq> [] \<and> successively (\<lambda>x y. (0 < cmp x y) = fst g) (snd g)"

fun run_chain :: "'a cell list \<Rightarrow> nat \<Rightarrow> nat list \<Rightarrow> bool" where
  "run_chain ys i [] = True"
| "run_chain ys i (l # ls) = (i < length ys \<and> ys ! i = Next (i + l) \<and> run_chain ys (i + l) ls)"

definition prep_at :: "('a \<Rightarrow> 'a \<Rightarrow> int) \<Rightarrow> 'a list \<Rightarrow> 'a dyn \<Rightarrow> nat \<Rightarrow> 'a seg list \<Rightarrow> bool" where
  "prep_at cmp vs s x R \<longleftrightarrow>
     x \<le> length vs \<and> length vs \<le> length (list2 s)
     \<and> concat (map snd R) = take x vs
     \<and> list1 s = map Elem (concat (map seg_out R) @ drop x vs)
     \<and> list_all (seg_ok cmp) R
     \<and> dyn_runs s = length R
     \<and> run_chain (list2 s) 0 (map (\<lambda>g. length (snd g)) R)
     \<and> (x < length vs \<longrightarrow> dyn_p2 s = x)"

lemma length_seg_out [simp]: "length (seg_out g) = length (snd g)"
  by (simp add: seg_out_def)

lemma length_segs: "length (concat (map seg_out R)) = length (concat (map snd R))"
  by (induction R) simp_all

lemma run_chain_append: "run_chain ys i (ls @ ls') \<longleftrightarrow> run_chain ys i ls \<and> run_chain ys (i + sum_list ls) ls'"
  by (induction ls arbitrary: i) (auto simp: add.assoc)

lemma run_chain_upd:
  assumes "run_chain ys i ls" "i + sum_list ls \<le> j" "\<forall>l \<in> set ls. 0 < l"
  shows "run_chain (ys[j := z]) i ls"
  using assms by (induction ls arbitrary: i) auto

lemma sum_segs: "sum_list (map (\<lambda>g. length (snd g)) R) = length (concat (map snd R))"
  by (simp add: length_concat comp_def)

section \<open>Turning a stretch round\<close>

lemma swap_ends:
  "swap (xs @ a # g @ c # ys) (length xs) (length xs + Suc (length g)) = xs @ c # g @ a # ys"
  by (simp add: swap_def nth_append list_update_append)

lemma dyn_reverse_ok: "dyn_reverse (xs @ g @ ys) (length xs) (length xs + length g) = xs @ rev g @ ys"
proof (induction "length g" arbitrary: xs g ys rule: less_induct)
  case less
  show ?case
  proof (cases "length g < 2")
    case True
    then have "rev g = g" by (cases g) auto
    with True show ?thesis by (subst dyn_reverse.simps) auto
  next
    case False
    then obtain a g1 where g1: "g = a # g1" "g1 \<noteq> []" by (cases g) auto
    then obtain m c where g: "g = a # m @ [c]" by (metis rev_exhaust)
    have "dyn_reverse (xs @ g @ ys) (length xs) (length xs + length g)
        = dyn_reverse (xs @ c # m @ a # ys) (length xs + 1) (length xs + length g - 1)"
      using swap_ends [of xs a m c ys] by (subst dyn_reverse.simps) (simp add: g)
    also have "\<dots> = dyn_reverse ((xs @ [c]) @ m @ (a # ys)) (length (xs @ [c])) (length (xs @ [c]) + length m)"
      by (simp add: g)
    also have "\<dots> = (xs @ [c]) @ rev m @ (a # ys)" by (rule less.hyps) (simp add: g)
    finally show ?thesis by (simp add: g)
  qed
qed

lemma dyn_reverse_pair: "dyn_reverse xs q (q + 2) = swap xs q (q + 1)"
  by (subst dyn_reverse.simps) (simp, subst dyn_reverse.simps, simp)

section \<open>One more run\<close>

text \<open>The pairs at \<open>k\<close> that compare with a sense, and the stretches that do.\<close>

definition agree :: "('a \<Rightarrow> 'a \<Rightarrow> int) \<Rightarrow> 'a list \<Rightarrow> bool \<Rightarrow> nat \<Rightarrow> bool" where
  "agree cmp vs d k \<longleftrightarrow> (0 < cmp (vs ! k) (vs ! (k + 1))) = d"

definition in_run :: "('a \<Rightarrow> 'a \<Rightarrow> int) \<Rightarrow> 'a list \<Rightarrow> bool \<Rightarrow> nat \<Rightarrow> nat \<Rightarrow> bool" where
  "in_run cmp vs d i j \<longleftrightarrow> (\<forall>k. i \<le> k \<longrightarrow> k + 1 < j \<longrightarrow> agree cmp vs d k)"

lemma in_run_seg:
  assumes "in_run cmp vs d i j" "i < j" "j \<le> length vs"
  shows "seg_ok cmp (d, take (j - i) (drop i vs))"
  using assms by (auto simp: seg_ok_def in_run_def agree_def successively_conv_nth)

definition flip_run :: "bool \<Rightarrow> nat \<Rightarrow> nat \<Rightarrow> 'a dyn \<Rightarrow> 'a dyn" where
  "flip_run d x e s = (if d then s\<lparr>list1 := dyn_reverse (list1 s) x e\<rparr> else s)"

lemma prep_add:
  assumes inv: "prep_at cmp vs s x R" and run: "in_run cmp vs d x e" and x: "x < e" "e \<le> length vs"
  shows "prep_at cmp vs (flip_run d x e (dyn_link (e - x) s)) e (R @ [(d, take (e - x) (drop x vs))])"
proof -
  let ?g = "take (e - x) (drop x vs)"
  have p2: "dyn_p2 s = x" and len: "length vs \<le> length (list2 s)" using inv x by (simp_all add: prep_at_def)
  have lenx: "length (concat (map snd R)) = x" and orig: "concat (map snd R) = take x vs"
    using inv x by (auto simp: prep_at_def)
  have split: "drop x vs = ?g @ drop e vs"
    using x append_take_drop_id [of "e - x" "drop x vs"] by simp
  have pos: "\<forall>l \<in> set (map (\<lambda>g. length (snd g)) R). 0 < l"
    using inv by (auto simp: prep_at_def list_all_iff seg_ok_def)
  have run_chain: "run_chain ((list2 s)[x := Next e]) 0 (map (\<lambda>g. length (snd g)) (R @ [(d, ?g)]))"
    using inv x len pos lenx run_chain_upd [of "list2 s" 0 "map (\<lambda>g. length (snd g)) R" x "Next e"]
    by (simp add: prep_at_def run_chain_append sum_segs)
  have out: "list1 (flip_run d x e (dyn_link (e - x) s))
      = map Elem (concat (map seg_out (R @ [(d, ?g)])) @ drop e vs)"
  proof -
    have l1: "list1 s = map Elem (concat (map seg_out R)) @ map Elem ?g @ map Elem (drop e vs)"
      using inv arg_cong [OF split, of "map Elem"] by (simp add: prep_at_def)
    have "dyn_reverse (list1 s) x e = map Elem (concat (map seg_out R)) @ rev (map Elem ?g) @ map Elem (drop e vs)"
      using dyn_reverse_ok [of "map Elem (concat (map seg_out R))" "map Elem ?g" "map Elem (drop e vs)"] x lenx
      unfolding l1 by (simp add: length_segs)
    then show ?thesis using l1 by (simp add: flip_run_def dyn_link_def seg_out_def rev_map)
  qed
  have whole: "concat (map snd (R @ [(d, ?g)])) = take e vs"
    using x take_add [of x "e - x" vs] by (simp add: orig)
  show ?thesis
    unfolding prep_at_def using inv x out run_chain whole in_run_seg [OF run x] p2 len
    by (auto simp: flip_run_def dyn_link_def prep_at_def)
qed

section \<open>The searches\<close>

text \<open>Stated on a set of positions \<open>k\<close> at which the slots \<open>k\<close> and \<open>k + 1\<close> compare with the sense.\<close>

definition stretch :: "(nat \<Rightarrow> bool) \<Rightarrow> nat \<Rightarrow> nat \<Rightarrow> bool" where
  "stretch G i j \<longleftrightarrow> (\<forall>k. i \<le> k \<longrightarrow> k + 1 < j \<longrightarrow> G k)"

lemma stretch_pairs:
  assumes pairs: "\<And>i. lo \<le> i \<Longrightarrow> i \<le> hi \<Longrightarrow> G (b + 2 * i)"
    and between: "\<And>i. lo \<le> i \<Longrightarrow> i < hi \<Longrightarrow> G (b + 2 * i + 1)"
  shows "stretch G (b + 2 * lo) (b + 2 * hi + 2)"
  unfolding stretch_def
proof (intro allI impI)
  fix k assume k: "b + 2 * lo \<le> k" "k + 1 < b + 2 * hi + 2"
  show "G k"
  proof (cases "even (k - b)")
    case True
    then obtain i where "k - b = 2 * i" by (elim evenE)
    then have "k = b + 2 * i" using k(1) by simp
    with k show ?thesis using pairs [of i] by simp
  next
    case False
    then obtain i where "k - b = 2 * i + 1" by (elim oddE)
    then have "k = b + 2 * i + 1" using k(1) by simp
    with k show ?thesis using between [of i] by simp
  qed
qed

lemma dyn_top_ok:
  assumes "t \<le> lim"
  obtains m where "dyn_top cmp xs d lim t = t + 2 * m" "t + 2 * m \<le> lim"
    "\<And>i. i < m \<Longrightarrow> in_sense cmp xs d (t + 2 * i) (t + 2 * i + 1)"
    "t + 2 * m + 1 < lim \<Longrightarrow> \<not> in_sense cmp xs d (t + 2 * m) (t + 2 * m + 1)"
proof -
  have "\<exists>m. dyn_top cmp xs d lim t = t + 2 * m \<and> t + 2 * m \<le> lim
    \<and> (\<forall>i < m. in_sense cmp xs d (t + 2 * i) (t + 2 * i + 1))
    \<and> (t + 2 * m + 1 < lim \<longrightarrow> \<not> in_sense cmp xs d (t + 2 * m) (t + 2 * m + 1))"
    using assms
  proof (induction cmp xs d lim t rule: dyn_top.induct)
    case (1 cmp xs d lim t)
    show ?case
    proof (cases "t + 1 < lim \<and> in_sense cmp xs d t (t + 1)")
      case True
      then obtain m where m: "dyn_top cmp xs d lim (t + 2) = t + 2 + 2 * m" "t + 2 + 2 * m \<le> lim"
        "\<forall>i < m. in_sense cmp xs d (t + 2 + 2 * i) (t + 2 + 2 * i + 1)"
        "t + 2 + 2 * m + 1 < lim \<longrightarrow> \<not> in_sense cmp xs d (t + 2 + 2 * m) (t + 2 + 2 * m + 1)"
        using "1.IH" by auto
      have "in_sense cmp xs d (t + 2 * i) (t + 2 * i + 1)" if "i < Suc m" for i
        using that True m(3) by (cases i) auto
      with True m(1,2,4) show ?thesis
        by (intro exI [of _ "Suc m"]) (simp add: dyn_top.simps [of cmp xs d lim t])
    next
      case False
      with "1.prems" show ?thesis by (intro exI [of _ 0]) (auto simp: dyn_top.simps [of cmp xs d lim t])
    qed
  qed
  then show thesis using that by blast
qed

lemma dyn_back_ok:
  assumes "0 < m"
  shows "\<exists>m' \<le> m. dyn_back cmp xs d q (q + 2 * m) = q + 2 * m'
    \<and> (\<forall>i. m' \<le> i \<longrightarrow> i < m \<longrightarrow> in_sense cmp xs d (q + 2 * i + 1) (q + 2 * i + 2))"
  using assms
proof (induction m)
  case (Suc m)
  let ?p = "q + 2 * Suc m"
  have p: "?p - 1 = q + 2 * m + 1" "?p = q + 2 * m + 2" "?p - 2 = q + 2 * m" by simp_all
  show ?case
  proof (cases "in_sense cmp xs d (q + 2 * m + 1) (q + 2 * m + 2)")
    case True
    show ?thesis
    proof (cases "m = 0")
      case m: True
      have "dyn_back cmp xs d q ?p = q" using True unfolding m by (subst dyn_back.simps) simp
      then show ?thesis using True by (intro exI [of _ 0]) (auto simp: m)
    next
      case False
      then obtain m' where m': "m' \<le> m" "dyn_back cmp xs d q (q + 2 * m) = q + 2 * m'"
        "\<forall>i. m' \<le> i \<longrightarrow> i < m \<longrightarrow> in_sense cmp xs d (q + 2 * i + 1) (q + 2 * i + 2)"
        using Suc.IH by auto
      have "dyn_back cmp xs d q ?p = dyn_back cmp xs d q (q + 2 * m)"
        using True False by (subst dyn_back.simps) (simp add: p)
      moreover have "in_sense cmp xs d (q + 2 * i + 1) (q + 2 * i + 2)" if "m' \<le> i" "i < Suc m" for i
        using that True m'(3) by (cases "i = m") auto
      ultimately show ?thesis using m'(1,2) by (intro exI [of _ m']) simp
    qed
  next
    case False
    then have "dyn_back cmp xs d q ?p = ?p" by (subst dyn_back.simps) (simp add: p)
    then show ?thesis by (intro exI [of _ "Suc m"]) simp
  qed
qed simp

lemma dyn_extend_ok:
  assumes "q < t"
  shows "\<exists>m. dyn_extend cmp xs d t q = q + 2 * m \<and> q + 2 * m < t
    \<and> (\<forall>i < m. in_sense cmp xs d (q + 2 * i + 1) (q + 2 * i + 2))"
  using assms
proof (induction cmp xs d t q rule: dyn_extend.induct)
  case (1 cmp xs d t q)
  show ?case
  proof (cases "q + 2 < t \<and> in_sense cmp xs d (q + 1) (q + 2)")
    case True
    then obtain m where m: "dyn_extend cmp xs d t (q + 2) = q + 2 + 2 * m" "q + 2 + 2 * m < t"
      "\<forall>i < m. in_sense cmp xs d (q + 2 + 2 * i + 1) (q + 2 + 2 * i + 2)"
      using "1.IH" by auto
    have "in_sense cmp xs d (q + 2 * i + 1) (q + 2 * i + 2)" if "i < Suc m" for i
      using that True m(3) by (cases i) auto
    with True m(1,2) show ?thesis
      by (intro exI [of _ "Suc m"]) (simp add: dyn_extend.simps [of cmp xs d t q])
  next
    case False
    with "1.prems" show ?thesis by (intro exI [of _ 0]) (auto simp: dyn_extend.simps [of cmp xs d t q])
  qed
qed

text \<open>
  The search at \<open>b\<close> with \<open>T\<close> pairs up to \<open>t\<close>, of which the first \<open>j + 1\<close> are known to form a run: the
  pair numbers of \<open>q\<close>, \<open>p\<close> and \<open>r\<close>.
\<close>

lemma dyn_search_ok:
  defines "G \<equiv> \<lambda>cmp xs d k. in_sense cmp xs d k (k + 1)"
  assumes j: "j < T" "j < PTHRESH" and pairs: "\<And>i. i < T \<Longrightarrow> G cmp xs d (b + 2 * i)"
    and known: "stretch (G cmp xs d) b (b + 2 * j + 2)"
  obtains q p r where "dyn_search cmp xs d (b + 2 * T) b (b + 2 * j) = (b + 2 * p, b + 2 * q, b + 2 * r)"
    "q < p" "p \<le> r" "r \<le> T" "stretch (G cmp xs d) b (b + 2 * q + 2)"
    "r = T \<longrightarrow> p = T" "r < T \<longrightarrow> r < p + PTHRESH \<and> stretch (G cmp xs d) (b + 2 * p) (b + 2 * r + 2)"
proof (cases "PTHRESH < T")
  case False
  then have "dyn_search cmp xs d (b + 2 * T) b (b + 2 * j) = (b + 2 * T, b + 2 * j, b + 2 * T)"
    by (simp add: dyn_search_def)
  then show thesis by (rule that) (use j known in auto)
next
  case True
  have step: "b + 2 * PTHRESH = b + 2 * j + 2 * (PTHRESH - j)" using j(2) by simp
  obtain m where m: "m \<le> PTHRESH - j" "dyn_back cmp xs d (b + 2 * j) (b + 2 * PTHRESH) = b + 2 * j + 2 * m"
    "\<forall>i. m \<le> i \<longrightarrow> i < PTHRESH - j \<longrightarrow> in_sense cmp xs d (b + 2 * j + 2 * i + 1) (b + 2 * j + 2 * i + 2)"
    using dyn_back_ok [of "PTHRESH - j" cmp xs d "b + 2 * j"] j(2) unfolding step by auto
  have links: "G cmp xs d (b + 2 * i + 1)" if i: "j + m \<le> i" "i < PTHRESH" for i
    using m(3) [rule_format, of "i - j"] i by (simp add: G_def algebra_simps)
  show thesis
  proof (cases "m = 0")
    case long: True
    obtain e where e: "dyn_extend cmp xs d (b + 2 * T) (b + 2 * PTHRESH) = b + 2 * PTHRESH + 2 * e"
      "b + 2 * PTHRESH + 2 * e < b + 2 * T"
      "\<forall>i < e. in_sense cmp xs d (b + 2 * PTHRESH + 2 * i + 1) (b + 2 * PTHRESH + 2 * i + 2)"
      using dyn_extend_ok [of "b + 2 * PTHRESH" "b + 2 * T" cmp xs d] True by auto
    have between: "G cmp xs d (b + 2 * i + 1)" if "i < PTHRESH + e" for i
    proof -
      consider "i < j" | "j \<le> i" "i < PTHRESH" | "PTHRESH \<le> i" by linarith
      then show ?thesis
      proof cases
        case 1
        then show ?thesis using known by (simp add: stretch_def)
      next
        case 2
        then show ?thesis using links long by simp
      next
        case 3
        then show ?thesis using e(3) [rule_format, of "i - PTHRESH"] that by (simp add: G_def algebra_simps)
      qed
    qed
    have run: "stretch (G cmp xs d) (b + 2 * 0) (b + 2 * (PTHRESH + e) + 2)"
      by (rule stretch_pairs) (use pairs between e(2) in auto)
    have "dyn_search cmp xs d (b + 2 * T) b (b + 2 * j)
        = (b + 2 * (PTHRESH + e + 1), b + 2 * (PTHRESH + e), b + 2 * (PTHRESH + e + 1))"
      using True m(2) long e(1) by (simp add: dyn_search_def Let_def algebra_simps)
    then show thesis
    proof (rule that)
      have one: "stretch (G cmp xs d) (b + 2 * k) (b + 2 * k + 2)" if "k < T" for k
        by (rule stretch_pairs) (use that pairs in \<open>auto dest: le_antisym\<close>)
      show "PTHRESH + e + 1 < T \<longrightarrow> PTHRESH + e + 1 < PTHRESH + e + 1 + PTHRESH
          \<and> stretch (G cmp xs d) (b + 2 * (PTHRESH + e + 1)) (b + 2 * (PTHRESH + e + 1) + 2)"
        by (intro impI conjI one) (simp_all add: PTHRESH_def)
    qed (use run e(2) in auto)
  next
    case False
    have short: "dyn_search cmp xs d (b + 2 * T) b (b + 2 * j) = (b + 2 * (j + m), b + 2 * j, b + 2 * PTHRESH)"
      using True m(2) False by (simp add: dyn_search_def Let_def algebra_simps)
    have run: "stretch (G cmp xs d) (b + 2 * (j + m)) (b + 2 * PTHRESH + 2)"
      by (rule stretch_pairs) (use pairs links True in auto)
    from short show thesis
      by (rule that) (use False m(1) True j known run in auto)
  qed
qed

section \<open>A turn of the inner loop\<close>

lemma prep_slot:
  assumes "prep_at cmp vs s x R" "x \<le> k" "k < length vs"
  shows "list1 s ! k = Elem (vs ! k)"
proof -
  have "length (concat (map seg_out R)) = x" using assms by (auto simp: length_segs prep_at_def)
  moreover have "list1 s = map Elem (concat (map seg_out R)) @ map Elem (drop x vs)" using assms(1) by (simp add: prep_at_def)
  ultimately show ?thesis using assms(2,3) by (simp add: nth_append)
qed

lemma prep_sense:
  assumes "prep_at cmp vs s x R" "x \<le> k" "k + 1 < length vs"
  shows "in_sense cmp (list1 s) d k (k + 1) \<longleftrightarrow> agree cmp vs d k"
  using prep_slot [OF assms(1,2)] prep_slot [OF assms(1), of "k + 1"] assms(2,3)
  by (simp add: in_sense_def agree_def)

lemma prep_fields:
  assumes "prep_at cmp vs s x R" "list1 s' = list1 s" "list2 s' = list2 s" "dyn_runs s' = dyn_runs s"
    "x < length vs \<Longrightarrow> dyn_p2 s' = dyn_p2 s"
  shows "prep_at cmp vs s' x R"
  using assms by (simp add: prep_at_def)

lemma dyn_pairs_ok:
  assumes "prep_at cmp vs s q R" "p = q + 2 * m" "p \<le> length vs" "\<And>i. i < m \<Longrightarrow> agree cmp vs d (q + 2 * i)"
  shows "\<exists>R'. prep_at cmp vs (dyn_pairs d p q s) p R'"
  using assms
proof (induction m arbitrary: q s R)
  case 0
  then show ?case by (subst dyn_pairs.simps) auto
next
  case (Suc m)
  let ?s = "flip_run d q (q + 2) (dyn_link 2 s)"
  have "in_run cmp vs d q (q + 2)"
    using Suc.prems(4) [of 0] by (auto simp: in_run_def) (metis le_antisym less_Suc_eq_le)
  then have "prep_at cmp vs ?s (q + 2) (R @ [(d, take (q + 2 - q) (drop q vs))])"
    using prep_add [OF Suc.prems(1), of d "q + 2"] Suc.prems(2,3) by simp
  moreover have "agree cmp vs d (q + 2 + 2 * i)" if "i < m" for i
    using Suc.prems(4) [of "Suc i"] that by simp
  ultimately have "\<exists>R'. prep_at cmp vs (dyn_pairs d p (q + 2) ?s) p R'"
    using Suc.prems(2,3) by (intro Suc.IH) simp_all
  moreover have "dyn_pairs d p q s = dyn_pairs d p (q + 2) ?s"
    using Suc.prems(2) by (subst dyn_pairs.simps) (simp add: flip_run_def dyn_reverse_pair [simplified] dyn_link_def Let_def)
  ultimately show ?case by simp
qed

definition inner_inv :: "('a \<Rightarrow> 'a \<Rightarrow> int) \<Rightarrow> 'a list \<Rightarrow> bool \<Rightarrow> nat \<Rightarrow> 'a dyn \<Rightarrow> bool" where
  "inner_inv cmp vs d t s \<longleftrightarrow>
     (\<exists>R j T. prep_at cmp vs s (dyn_b s) R \<and> t = dyn_b s + 2 * T \<and> t \<le> length vs
       \<and> dyn_q s = dyn_b s + 2 * j \<and> j < T \<and> j < PTHRESH
       \<and> (\<forall>i < T. agree cmp vs d (dyn_b s + 2 * i)) \<and> in_run cmp vs d (dyn_b s) (dyn_q s + 2))"

definition inner_done :: "('a \<Rightarrow> 'a \<Rightarrow> int) \<Rightarrow> 'a list \<Rightarrow> nat \<Rightarrow> 'a dyn \<Rightarrow> bool" where
  "inner_done cmp vs t s \<longleftrightarrow>
     (\<exists>R. prep_at cmp vs s (dyn_b s) R) \<and> (dyn_b s = length vs \<or> dyn_b s = t \<and> t + 1 < length vs)"

text \<open>The second half of a turn: simple pairs up to \<open>p\<close>, and a singleton at the end.\<close>

definition dyn_rest :: "bool \<Rightarrow> nat \<Rightarrow> nat \<Rightarrow> nat \<times> nat \<times> nat \<times> 'a dyn \<Rightarrow> 'a dyn" where
  "dyn_rest d lim t res =
     (let (p, q, r, s) = res;
          s = dyn_pairs d p q s;
          s = s\<lparr>dyn_b := p\<rparr>;
          s = (if dyn_b s = t \<and> t + 1 = lim
               then s\<lparr>list2 := (list2 s)[dyn_p2 s := Next (dyn_p2 s + 1)], dyn_runs := dyn_runs s + 1,
                 dyn_b := dyn_b s + 1\<rparr>
               else s)
      in s\<lparr>dyn_q := r\<rparr>)"

lemma dyn_step_rest:
  "dyn_step cmp d lim t s =
     (let (p, q, r) = dyn_search cmp (list1 s) d t (dyn_b s) (dyn_q s)
      in dyn_rest d lim t (if q > dyn_b s then dyn_run cmp d lim t p q r s else (p, q, r, s)))"
  by (simp add: dyn_step_def dyn_rest_def Let_def split: prod.splits)

lemma dyn_rest_ok:
  assumes s: "prep_at cmp vs s q R" and p: "p = q + 2 * m" "p \<le> length vs"
    and pairs: "\<And>i. i < m \<Longrightarrow> agree cmp vs d (q + 2 * i)"
  shows "(\<exists>R'. prep_at cmp vs (dyn_rest d (length vs) t (p, q, r, s)) (dyn_b (dyn_rest d (length vs) t (p, q, r, s))) R')
    \<and> dyn_b (dyn_rest d (length vs) t (p, q, r, s)) = (if p = t \<and> t + 1 = length vs then length vs else p)
    \<and> dyn_q (dyn_rest d (length vs) t (p, q, r, s)) = r"
proof -
  obtain R1 where R1: "prep_at cmp vs (dyn_pairs d p q s) p R1" using dyn_pairs_ok [OF s p pairs] by blast
  show ?thesis
  proof (cases "p = t \<and> t + 1 = length vs")
    case True
    have "in_run cmp vs False p (p + 1)" by (simp add: in_run_def)
    moreover have "p < p + 1" "p + 1 \<le> length vs" using True by simp_all
    ultimately obtain R2 where one: "prep_at cmp vs (flip_run False p (p + 1) (dyn_link 1 (dyn_pairs d p q s))) (p + 1) R2"
      using prep_add [OF R1, of False "p + 1"] by (metis add_diff_cancel_left')
    have "prep_at cmp vs (dyn_rest d (length vs) t (p, q, r, s)) (p + 1) R2"
      using True by (intro prep_fields [OF one]) (simp_all add: dyn_rest_def flip_run_def dyn_link_def Let_def)
    moreover have "dyn_b (dyn_rest d (length vs) t (p, q, r, s)) = p + 1" "p + 1 = length vs"
      "dyn_q (dyn_rest d (length vs) t (p, q, r, s)) = r"
      using True by (simp_all add: dyn_rest_def Let_def)
    ultimately show ?thesis using True by auto
  next
    case False
    have "prep_at cmp vs (dyn_rest d (length vs) t (p, q, r, s)) p R1"
      using False by (intro prep_fields [OF R1]) (auto simp: dyn_rest_def Let_def)
    moreover have "dyn_b (dyn_rest d (length vs) t (p, q, r, s)) = p"
      "dyn_q (dyn_rest d (length vs) t (p, q, r, s)) = r"
      using False by (auto simp: dyn_rest_def Let_def)
    ultimately show ?thesis using False by auto
  qed
qed

lemma stretch_in_run:
  assumes "prep_at cmp vs s x R" "x \<le> i" "j \<le> length vs"
  shows "stretch (\<lambda>k. in_sense cmp (list1 s) d k (k + 1)) i j \<longleftrightarrow> in_run cmp vs d i j"
proof -
  have "in_sense cmp (list1 s) d k (k + 1) \<longleftrightarrow> agree cmp vs d k" if "i \<le> k" "k + 1 < j" for k
    using that assms(2,3) by (intro prep_sense [OF assms(1)]) simp_all
  then show ?thesis by (auto simp: stretch_def in_run_def)
qed

text \<open>A run of more than two at \<open>b\<close>: what is left for the second half of the turn.\<close>

lemma dyn_run_ok:
  assumes s: "prep_at cmp vs s (dyn_b s) R" and b: "dyn_b s < q" and q: "q + 2 \<le> p" "p \<le> t" "t \<le> length vs"
    and run: "in_run cmp vs d (dyn_b s) (q + 2)"
  shows "(\<exists>s' R'. dyn_run cmp d (length vs) t p q r s = (p, q + 2, r, s') \<and> prep_at cmp vs s' (q + 2) R')
    \<or> t + 1 = length vs \<and>
      (\<exists>s' R'. dyn_run cmp d (length vs) t p q r s = (length vs, length vs, length vs, s') \<and> prep_at cmp vs s' (length vs) R')"
proof (cases "q + 2 = t \<and> t + 1 = length vs \<and> in_sense cmp (list1 s) d (q + 1) (q + 2)")
  case True
  have "q + 1 + 1 = q + 2" by simp
  then have "agree cmp vs d (q + 1)" using True b prep_sense [OF s, of "q + 1" d] by (metis add_lessD1 le_add1 le_trans less_add_one nat_less_le)
  then have all: "in_run cmp vs d (dyn_b s) (length vs)"
    using run True unfolding in_run_def by (metis Suc_eq_plus1 add_2_eq_Suc' less_SucE not_less_eq)
  have "prep_at cmp vs (flip_run d (dyn_b s) (length vs) (dyn_link (length vs - dyn_b s) s)) (length vs)
      (R @ [(d, take (length vs - dyn_b s) (drop (dyn_b s) vs))])"
    using b True by (intro prep_add [OF s all]) simp_all
  moreover have "dyn_run cmp d (length vs) t p q r s = (length vs, length vs, length vs,
      flip_run d (dyn_b s) (length vs) (dyn_link (length vs - dyn_b s) s))"
  proof -
    have t: "t = q + 2" and "t + 1 = length vs" using True by simp_all
    moreover have "in_sense cmp (list1 s) d (t - 1) t"
      unfolding t using conjunct2 [OF conjunct2 [OF True]] by simp
    ultimately show ?thesis by (simp add: dyn_run_def flip_run_def dyn_link_def Let_def)
  qed
  ultimately show ?thesis using True by blast
next
  case False
  have "prep_at cmp vs (flip_run d (dyn_b s) (q + 2) (dyn_link (q + 2 - dyn_b s) s)) (q + 2)
      (R @ [(d, take (q + 2 - dyn_b s) (drop (dyn_b s) vs))])"
    using b q by (intro prep_add [OF s run]) simp_all
  moreover have "dyn_run cmp d (length vs) t p q r s = (p, q + 2, r,
      flip_run d (dyn_b s) (q + 2) (dyn_link (q + 2 - dyn_b s) s))"
    using False by (auto simp: dyn_run_def flip_run_def dyn_link_def Let_def)
  ultimately show ?thesis by blast
qed

lemma dyn_step_ok:
  assumes inv: "inner_inv cmp vs d t s"
  shows "dyn_b s < dyn_b (dyn_step cmp d (length vs) t s)
    \<and> (if dyn_b (dyn_step cmp d (length vs) t s) < t then inner_inv cmp vs d t (dyn_step cmp d (length vs) t s)
       else inner_done cmp vs t (dyn_step cmp d (length vs) t s))"
proof -
  define b where "b = dyn_b s"
  obtain R j T where R: "prep_at cmp vs s b R" and t: "t = b + 2 * T" "t \<le> length vs"
    and j: "dyn_q s = b + 2 * j" "j < T" "j < PTHRESH"
    and pairs: "\<And>i. i < T \<Longrightarrow> agree cmp vs d (b + 2 * i)" and known: "in_run cmp vs d b (b + 2 * j + 2)"
    using inv unfolding inner_inv_def b_def by auto
  let ?G = "\<lambda>k. in_sense cmp (list1 s) d k (k + 1)"
  have pairs': "?G (b + 2 * i)" if "i < T" for i
    using that pairs [OF that] prep_sense [OF R, of "b + 2 * i" d] t by simp
  have known': "stretch ?G b (b + 2 * j + 2)"
    using known stretch_in_run [OF R, of b "b + 2 * j + 2" d] t j(2) by simp
  obtain q p r where search: "dyn_search cmp (list1 s) d t b (b + 2 * j) = (b + 2 * p, b + 2 * q, b + 2 * r)"
    "q < p" "p \<le> r" "r \<le> T" "stretch ?G b (b + 2 * q + 2)"
    "r = T \<longrightarrow> p = T" "r < T \<longrightarrow> r < p + PTHRESH \<and> stretch ?G (b + 2 * p) (b + 2 * r + 2)"
    unfolding t(1) by (rule dyn_search_ok [OF j(2,3) pairs' known'])
  have run: "in_run cmp vs d b (b + 2 * q + 2)"
    using search(2-5) stretch_in_run [OF R, of b "b + 2 * q + 2" d] t by simp
  have run_r: "in_run cmp vs d (b + 2 * p) (b + 2 * r + 2)" if "r < T"
    using search(7) that stretch_in_run [OF R, of "b + 2 * p" "b + 2 * r + 2" d] t by simp
  let ?res = "if b + 2 * q > b then dyn_run cmp d (length vs) t (b + 2 * p) (b + 2 * q) (b + 2 * r) s
    else (b + 2 * p, b + 2 * q, b + 2 * r, s)"
  have step: "dyn_step cmp d (length vs) t s = dyn_rest d (length vs) t ?res"
    by (simp add: dyn_step_rest search(1) j(1) b_def [symmetric])
  have cont: ?thesis
    if res: "?res = (b + 2 * p, b + 2 * q1, b + 2 * r, s1)" and s1: "prep_at cmp vs s1 (b + 2 * q1) R1" and q1: "q1 \<le> p"
    for q1 s1 R1
  proof -
    have rest: "agree cmp vs d (b + 2 * q1 + 2 * i)" if "i < p - q1" for i
      using pairs [of "q1 + i"] that search(3,4) by (simp add: algebra_simps)
    have "b + 2 * p = b + 2 * q1 + 2 * (p - q1)" "b + 2 * p \<le> length vs" using q1 search(3,4) t by simp_all
    note new = dyn_rest_ok [OF s1 this rest, where t = t and r = "b + 2 * r"]
    obtain R2 where new: "prep_at cmp vs (dyn_step cmp d (length vs) t s) (dyn_b (dyn_step cmp d (length vs) t s)) R2"
      "dyn_b (dyn_step cmp d (length vs) t s) = (if b + 2 * p = t \<and> t + 1 = length vs then length vs else b + 2 * p)"
      "dyn_q (dyn_step cmp d (length vs) t s) = b + 2 * r"
      using new unfolding step res by blast
    show ?thesis
    proof (cases "p = T")
      case True
      then have "dyn_b (dyn_step cmp d (length vs) t s) = (if t + 1 = length vs then length vs else t)"
        using new(2) t(1) by simp
      then show ?thesis using new(1) t j(2) by (auto simp: inner_done_def b_def [symmetric] split: if_splits)
    next
      case False
      then have r: "r < T" using search(3,4,6) by auto
      have nb: "dyn_b (dyn_step cmp d (length vs) t s) = b + 2 * p" using new(2) False t(1) by simp
      have "inner_inv cmp vs d t (dyn_step cmp d (length vs) t s)"
        unfolding inner_inv_def nb new(3)
      proof (intro exI conjI allI impI)
        show "prep_at cmp vs (dyn_step cmp d (length vs) t s) (b + 2 * p) R2" using new(1) nb by simp
        show "t = b + 2 * p + 2 * (T - p)" using t(1) search(3,4) by simp
        show "b + 2 * r = b + 2 * p + 2 * (r - p)" using search(3) by simp
        show "r - p < T - p" "r - p < PTHRESH" using r search(3,7) by auto
        show "in_run cmp vs d (b + 2 * p) (b + 2 * r + 2)" by (rule run_r [OF r])
        fix i assume "i < T - p"
        then show "agree cmp vs d (b + 2 * p + 2 * i)" using pairs [of "p + i"] by (simp add: algebra_simps)
      qed (rule t(2))
      then show ?thesis using nb False search(2-4) t by (simp add: b_def [symmetric])
    qed
  qed
  show ?thesis
  proof (cases "q = 0")
    case True
    then show ?thesis using R by (intro cont [of 0 s R]) simp_all
  next
    case False
    have q: "b < b + 2 * q" "b + 2 * q + 2 \<le> b + 2 * p" "b + 2 * p \<le> t" using False search(2-4) t by simp_all
    consider (part) s1 R1 where "dyn_run cmp d (length vs) t (b + 2 * p) (b + 2 * q) (b + 2 * r) s = (b + 2 * p, b + 2 * q + 2, b + 2 * r, s1)"
        "prep_at cmp vs s1 (b + 2 * q + 2) R1"
      | (all) s1 R1 where "t + 1 = length vs"
        "dyn_run cmp d (length vs) t (b + 2 * p) (b + 2 * q) (b + 2 * r) s = (length vs, length vs, length vs, s1)"
        "prep_at cmp vs s1 (length vs) R1"
      using dyn_run_ok [OF R [unfolded b_def] q(1) [unfolded b_def], of "b + 2 * p" t d "b + 2 * r"] q run t(2)
      unfolding b_def by blast
    then show ?thesis
    proof cases
      case part
      then show ?thesis using q by (intro cont [of "q + 1" s1 R1]) simp_all
    next
      case all
      have "dyn_rest d (length vs) t (length vs, length vs, length vs, s1)
          = (dyn_pairs d (length vs) (length vs) s1)\<lparr>dyn_b := length vs, dyn_q := length vs\<rparr>"
        using all(1) by (simp add: dyn_rest_def Let_def)
      also have "dyn_pairs d (length vs) (length vs) s1 = s1" by (subst dyn_pairs.simps) simp
      finally have "dyn_step cmp d (length vs) t s = s1\<lparr>dyn_b := length vs, dyn_q := length vs\<rparr>"
        unfolding step using q(1) all(2) by simp
      moreover have "prep_at cmp vs (s1\<lparr>dyn_b := length vs, dyn_q := length vs\<rparr>) (length vs) R1"
        by (rule prep_fields [OF all(3)]) simp_all
      ultimately show ?thesis using all(1) t j(2) by (auto simp: inner_done_def b_def [symmetric])
    qed
  qed
qed

section \<open>The loops end\<close>

lemma dyn_inner_ok:
  assumes "inner_inv cmp vs d t s"
  shows "\<exists>s'. dyn_inner cmp d (length vs) t s = Some s' \<and> inner_done cmp vs t s' \<and> dyn_b s < dyn_b s'"
  using assms
proof (induction "t - dyn_b s" arbitrary: s rule: less_induct)
  case less
  let ?s = "dyn_step cmp d (length vs) t s"
  note ok = dyn_step_ok [OF less.prems]
  show ?case
  proof (cases "dyn_b ?s < t")
    case True
    then have "inner_inv cmp vs d t ?s" "t - dyn_b ?s < t - dyn_b s" using ok by auto
    then obtain s' where "dyn_inner cmp d (length vs) t ?s = Some s'" "inner_done cmp vs t s'" "dyn_b ?s < dyn_b s'"
      using less.hyps by blast
    with True ok show ?thesis by (subst dyn_inner.simps) (auto simp: Let_def)
  next
    case False
    with ok show ?thesis by (subst dyn_inner.simps) (simp add: Let_def)
  qed
qed

lemma dyn_outer_ok:
  assumes "prep_at cmp vs s (dyn_b s) R" "dyn_b s = length vs \<or> dyn_b s + 1 < length vs \<and> agree cmp vs d (dyn_b s)"
  shows "\<exists>s' R'. dyn_outer cmp (length vs) d s = Some s' \<and> prep_at cmp vs s' (length vs) R'"
  using assms
proof (induction "length vs - dyn_b s" arbitrary: s R d rule: less_induct)
  case less
  show ?case
  proof (cases "dyn_b s < length vs")
    case False
    then have "dyn_b s = length vs" using less.prems(1) by (simp add: prep_at_def)
    with less.prems(1) show ?thesis by (subst dyn_outer.simps) auto
  next
    case True
    define b where "b = dyn_b s"
    have b: "b + 1 < length vs" "agree cmp vs d b" using less.prems(2) True by (simp_all add: b_def)
    obtain m where m: "dyn_top cmp (list1 s) d (length vs) (b + 2) = b + 2 + 2 * m" "b + 2 + 2 * m \<le> length vs"
      "\<And>i. i < m \<Longrightarrow> in_sense cmp (list1 s) d (b + 2 + 2 * i) (b + 2 + 2 * i + 1)"
      "b + 2 + 2 * m + 1 < length vs \<Longrightarrow> \<not> in_sense cmp (list1 s) d (b + 2 + 2 * m) (b + 2 + 2 * m + 1)"
      by (rule dyn_top_ok [of "b + 2" "length vs" cmp "list1 s" d]) (use b(1) in auto)
    define t where "t = b + 2 * (m + 1)"
    have t: "dyn_top cmp (list1 s) d (length vs) (b + 2) = t" "t \<le> length vs" using m(1,2) by (simp_all add: t_def)
    note sense = prep_sense [OF less.prems(1) [folded b_def]]
    have pairs: "agree cmp vs d (b + 2 * i)" if "i < m + 1" for i
      using that b m(2) m(3) [of "i - 1"] sense [of "b + 2 * i" d] by (cases i) auto
    have top: "\<not> agree cmp vs d t" if "t + 1 < length vs"
      using m(4) sense [of t d] that by (simp add: t_def algebra_simps)
    have "in_run cmp vs d b (b + 2)" using b(2) by (auto simp: in_run_def less_Suc_eq_le dest: le_antisym)
    moreover have "prep_at cmp vs (s\<lparr>dyn_q := b\<rparr>) b R"
      by (rule prep_fields [OF less.prems(1) [folded b_def]]) simp_all
    ultimately have "inner_inv cmp vs d t (s\<lparr>dyn_q := b\<rparr>)"
      using t(2) pairs unfolding inner_inv_def
      by (intro exI [of _ R] exI [of _ 0] exI [of _ "m + 1"]) (simp add: b_def t_def PTHRESH_def)
    then obtain s1 where s1: "dyn_inner cmp d (length vs) t (s\<lparr>dyn_q := b\<rparr>) = Some s1" "inner_done cmp vs t s1"
        "b < dyn_b s1"
      using dyn_inner_ok by (fastforce simp: b_def)
    obtain R1 where R1: "prep_at cmp vs s1 (dyn_b s1) R1" using s1(2) by (auto simp: inner_done_def)
    have "dyn_b s1 = length vs \<or> dyn_b s1 + 1 < length vs \<and> agree cmp vs (\<not> d) (dyn_b s1)"
      using s1(2) top by (auto simp: inner_done_def agree_def)
    then have "\<exists>s' R'. dyn_outer cmp (length vs) (\<not> d) s1 = Some s' \<and> prep_at cmp vs s' (length vs) R'"
      using R1 s1(3) True by (intro less.hyps) (auto simp: b_def)
    then show ?thesis using True s1(1) t(1) by (subst dyn_outer.simps) (simp add: b_def)
  qed
qed

lemma dynprep_ok:
  assumes "2 \<le> length vs" "length vs \<le> length ys"
  obtains s R where "dynprep cmp (map Elem vs) ys (length vs) = Some s" "prep_at cmp vs s (length vs) R"
proof -
  let ?s = "\<lparr>list1 = map Elem vs, list2 = ys, dyn_p2 = 0, dyn_runs = 0, dyn_b = 0, dyn_q = 0\<rparr>"
  have s: "prep_at cmp vs ?s (dyn_b ?s) []" using assms(2) by (simp add: prep_at_def)
  have "agree cmp vs (in_sense cmp (map Elem vs) True 0 1) 0"
  proof -
    have "0 < length vs" "1 < length vs" using assms(1) by auto
    then show ?thesis by (simp add: agree_def in_sense_def)
  qed
  then show thesis using dyn_outer_ok [OF s, of "in_sense cmp (map Elem vs) True 0 1"] assms(1) that
    by (auto simp: dynprep_def)
qed

end
