(* ===== verification/Sort_Main.thy ===== *)
theory Sort_Main
  imports Sort_Runs
begin

text \<open>
  The main loop of the sort: how the stack and the two arrays carry out a balanced merge.

  \<^item> \<open>resume\<close> is the loop from the moment a merge has gone up to a level, \<open>build\<close> the loop from
    the moment it sets out to make one run of \<open>k\<close>; both are the loop itself (\<open>sort_loop_up\<close>,
    \<open>sort_loop_down\<close>).
  \<^item> \<open>run_in\<close>: a run lies in one array and its end in the other. \<open>merge_level_ok\<close>: a merge of
    the two runs of a level. \<open>build_ok\<close>: from \<open>k\<close> runs to one, by induction on \<open>k\<close>.
\<close>

section \<open>The loop in two directions\<close>

definition resume :: "('a \<Rightarrow> 'a \<Rightarrow> int) \<Rightarrow> 'a sorting \<Rightarrow> 'a sorting option" where
  "resume cmp s = (if sr_level s = 0 then Some s else sort_loop cmp s)"

definition build :: "('a \<Rightarrow> 'a \<Rightarrow> int) \<Rightarrow> nat \<Rightarrow> 'a sorting \<Rightarrow> 'a sorting option" where
  "build cmp k s =
     (let (k, s) = sort_split k s; (fin, s) = (if k = 1 then sort_single s else (False, sort_pair s))
      in if fin then Some s else sort_loop cmp s)"

definition clear_top :: "'a sorting \<Rightarrow> 'a sorting" where
  "clear_top s = s\<lparr>sr_stack := (sr_stack s)[sr_level s := (sr_stack s ! sr_level s)\<lparr>or_runs := 0\<rparr>]\<rparr>"

definition push_half :: "nat \<Rightarrow> 'a sorting \<Rightarrow> 'a sorting" where
  "push_half k s = s\<lparr>sr_level := sr_level s + 1,
     sr_stack := (sr_stack s)[sr_level s + 1 := \<lparr>or_offset = sr_offset s, or_runs = k\<rparr>]\<rparr>"

lemma sort_loop_down:
  assumes "stack_runs s \<noteq> 0"
  shows "sort_loop cmp s = build cmp (stack_runs s) (clear_top s)"
  using assms by (subst sort_loop.simps) (simp add: build_def sort_down_def clear_top_def Let_def split: prod.splits)

lemma build_half: "2 < k \<Longrightarrow> build cmp k s = build cmp (k - k div 2) (push_half (k div 2) s)"
  unfolding build_def by (subst sort_split.simps) (simp add: push_half_def Let_def)

lemma build_one: "build cmp 1 s = (case sort_single s of (fin, s) \<Rightarrow> if fin then Some s else sort_loop cmp s)"
  unfolding build_def by (subst sort_split.simps) (simp split: prod.splits)

lemma build_two: "build cmp 2 s = sort_loop cmp (sort_pair s)"
  unfolding build_def by (subst sort_split.simps) simp

lemma sort_merge_level [simp]: "sr_level (sort_merge cmp i s) = sr_level s" "sr_stack (sort_merge cmp i s) = sr_stack s"
  by (simp_all add: sort_merge_def which_update_def split: prod.splits)

lemma other_parity: "0 < (l :: nat) \<Longrightarrow> 1 - l mod 2 = (l - 1) mod 2"
  by (cases "even l") (auto elim!: evenE oddE simp: mod2_eq_if)

lemma sort_loop_up:
  assumes "stack_runs s = 0" "0 < sr_level s"
  shows "sort_loop cmp s = resume cmp ((sort_merge cmp (sr_level s mod 2) s)\<lparr>sr_level := sr_level s - 1\<rparr>)"
proof -
  let ?s = "(sort_merge cmp (sr_level s mod 2) s)\<lparr>sr_level := sr_level s - 1\<rparr>"
  have up: "sort_up cmp (sr_level s mod 2) s
      = (if sr_level s - 1 = 0 then (True, ?s) else if stack_runs ?s = 0 then sort_up cmp (sr_level ?s mod 2) ?s
         else (False, ?s))"
    using other_parity [OF assms(2)] by (subst sort_up.simps) (simp add: Let_def)
  have "sort_loop cmp s = (case sort_up cmp (sr_level s mod 2) s of (fin, s) \<Rightarrow>
      if fin then Some s else case sort_down (stack_runs s) s of (fin, s) \<Rightarrow> if fin then Some s else sort_loop cmp s)"
    using assms(1) by (subst sort_loop.simps) (simp add: Let_def split: prod.splits)
  moreover have "sort_loop cmp ?s = (case (if stack_runs ?s = 0 then sort_up cmp (sr_level ?s mod 2) ?s else (False, ?s)) of (fin, s) \<Rightarrow>
      if fin then Some s else case sort_down (stack_runs s) s of (fin, s) \<Rightarrow> if fin then Some s else sort_loop cmp s)"
    by (subst sort_loop.simps) (simp add: Let_def split: prod.splits)
  ultimately show ?thesis unfolding up resume_def by simp
qed

section \<open>Runs in the two arrays\<close>

definition run_in :: "nat \<Rightarrow> 'a sorting \<Rightarrow> nat \<Rightarrow> 'a list \<Rightarrow> bool" where
  "run_in i s f C \<longleftrightarrow> C \<noteq> [] \<and> holds (which_array i s) f C
     \<and> f + length C \<le> length (which_array (1 - i) s) \<and> which_array (1 - i) s ! f = Next (f + length C)"

definition outside :: "'a sorting \<Rightarrow> 'a sorting \<Rightarrow> nat \<Rightarrow> nat \<Rightarrow> bool" where
  "outside s s' f e \<longleftrightarrow> length (sr_base s') = length (sr_base s) \<and> length (sr_aux s') = length (sr_aux s)
     \<and> (\<forall>k. k < f \<or> e \<le> k \<longrightarrow> sr_base s' ! k = sr_base s ! k \<and> sr_aux s' ! k = sr_aux s ! k)"

definition merged :: "('a \<Rightarrow> 'a \<Rightarrow> int) \<Rightarrow> 'a list list \<Rightarrow> 'a list \<Rightarrow> bool" where
  "merged cmp rs C \<longleftrightarrow> mset C = mset (concat rs)
     \<and> (\<forall>A. comparator A cmp \<longrightarrow> list_all (ordered A cmp) rs \<longrightarrow> ordered A cmp C \<and> same_order A cmp (concat rs) C)"

lemma which_cases: obtains "i mod 2 = (0 :: nat)" "Suc i mod 2 = 1" | "i mod 2 = 1" "Suc i mod 2 = 0"
proof -
  consider "i mod 2 = 0" | "i mod 2 = 1" by linarith
  then show thesis by cases (use that in \<open>simp_all add: mod_Suc\<close>)
qed

lemma which_simps [simp]:
  "which_array 0 s = sr_base s" "which_array 1 s = sr_aux s" "which_array (Suc 0) s = sr_aux s"
  "which_update 0 xs s = s\<lparr>sr_base := xs\<rparr>" "which_update 1 xs s = s\<lparr>sr_aux := xs\<rparr>"
  "which_update (Suc 0) xs s = s\<lparr>sr_aux := xs\<rparr>"
  by (simp_all add: which_array_def which_update_def)

lemma outside_refl: "outside s s f e"
  by (simp add: outside_def)

lemma outside_trans: "outside s s1 f e \<Longrightarrow> outside s1 s2 f e \<Longrightarrow> outside s s2 f e"
  by (auto simp: outside_def)

lemma outside_mono: "outside s s' f e \<Longrightarrow> f' \<le> f \<Longrightarrow> e \<le> e' \<Longrightarrow> outside s s' f' e'"
  by (auto simp: outside_def)

lemma run_in_outside:
  assumes "run_in i s f C" "outside s s' f' e'" "f + length C \<le> f' \<or> e' \<le> f" "i < 2"
  shows "run_in i s' f C"
proof -
  have "0 < length C" using assms(1) by (simp add: run_in_def)
  then have "f < f' \<or> e' \<le> f" using assms(3) by linarith
  moreover have "i = 0 \<or> i = 1" using assms(4) by auto
  ultimately show ?thesis using assms(1-3)
    by (elim disjE) (auto simp: run_in_def outside_def holds_def)
qed

lemma run_in_fields: "run_in i s f C \<Longrightarrow> sr_base s' = sr_base s \<Longrightarrow> sr_aux s' = sr_aux s \<Longrightarrow> run_in i s' f C"
  by (auto simp: run_in_def which_array_def)

lemma outside_fields:
  "sr_base s' = sr_base s \<Longrightarrow> sr_aux s' = sr_aux s \<Longrightarrow> outside s s' f e"
  by (simp add: outside_def)

lemma merged_one: "merged cmp [C] C"
  by (simp add: merged_def same_order_def)

lemma merged_append:
  assumes "merged cmp rs1 C1" "merged cmp rs2 C2" "mset C = mset C1 + mset C2"
    "\<forall>A. comparator A cmp \<longrightarrow> ordered A cmp C1 \<longrightarrow> ordered A cmp C2 \<longrightarrow> C = smerge cmp C1 C2"
  shows "merged cmp (rs1 @ rs2) C"
  using assms unfolding merged_def same_order_def
  by (auto simp: comparator.ordered_smerge comparator.filter_smerge)

section \<open>The merge of a level\<close>

lemma nth_blit_outside:
  assumes "i + length zs \<le> length ys" "k < i \<or> i + length zs \<le> k"
  shows "blit ys i zs ! k = ys ! k"
  using assms by (auto simp: blit_def nth_append)

lemma merge_level_ok:
  assumes level: "sr_level s = Suc L" and top: "stack_runs s = 0" "or_offset (sr_stack s ! Suc L) = f"
    and C: "run_in (Suc L mod 2) s f C1" "run_in (Suc L mod 2) s (f + length C1) C2"
  obtains s' C where "sort_loop cmp s = resume cmp s'" "sr_level s' = L" "sr_stack s' = sr_stack s"
    "sr_offset s' = f + length C1 + length C2" "run_in (L mod 2) s' f C" "length C = length C1 + length C2"
    "mset C = mset C1 + mset C2" "\<forall>A. comparator A cmp \<longrightarrow> ordered A cmp C1 \<longrightarrow> ordered A cmp C2 \<longrightarrow> C = smerge cmp C1 C2"
    "outside s s' f (f + length C1 + length C2)"
proof -
  define xs where "xs = which_array (Suc L mod 2) s"
  define ys where "ys = which_array (L mod 2) s"
  define e where "e = f + length C1 + length C2"
  have par: "1 - Suc L mod 2 = L mod 2" "1 - L mod 2 = Suc L mod 2" by (rule which_cases [of L]; simp)+
  have X: "holds xs f C1" "C1 \<noteq> []" "holds xs (f + length C1) C2" "C2 \<noteq> []"
    and Y: "ys ! f = Next (f + length C1)" "ys ! (f + length C1) = Next e" "e \<le> length ys"
    using C unfolding run_in_def par xs_def ys_def e_def by simp_all
  obtain zs where zs: "merge_runs cmp xs ys f = (xs[f := Next e], blit ys f (map Elem zs), e)"
    "mset zs = mset C1 + mset C2" "\<forall>A. comparator A cmp \<longrightarrow> ordered A cmp C1 \<longrightarrow> ordered A cmp C2 \<longrightarrow> zs = smerge cmp C1 C2"
    using merge_runs_ok [OF X Y(1,2) refl e_def Y(3)] by blast
  have len: "length zs = length C1 + length C2" using arg_cong [OF zs(2), of size] by simp
  define s' where "s' = (sort_merge cmp (sr_level s mod 2) s)\<lparr>sr_level := sr_level s - 1\<rparr>"
  have merge: "sort_merge cmp (Suc L mod 2) s
      = which_update (L mod 2) (blit ys f (map Elem zs)) (which_update (Suc L mod 2) (xs[f := Next e]) s)\<lparr>sr_offset := e\<rparr>"
    unfolding sort_merge_def level top(2) par using zs(1) by (simp add: xs_def ys_def)
  have xlen: "e \<le> length xs" using X(3) by (simp add: holds_def e_def)
  have ne: "f < e" "zs \<noteq> []" using X(2) len by (auto simp: e_def)
  have arrays: "which_array (L mod 2) s' = blit ys f (map Elem zs)" "which_array (Suc L mod 2) s' = xs[f := Next e]"
    "sr_offset s' = e"
    using merge by (rule_tac [!] which_cases [of L]) (simp_all add: s'_def level)
  have zl: "f + length zs = e" by (simp add: e_def len)
  have "f < length xs" using ne(1) xlen by simp
  then have "xs[f := Next e] ! f = Next (f + length zs)" "f + length zs \<le> length (xs[f := Next e])"
    using xlen by (simp_all add: zl)
  moreover have "holds (blit ys f (map Elem zs)) f zs" using Y(3) zl by (simp add: holds_blit)
  ultimately have "run_in (L mod 2) s' f zs" using ne(2) unfolding run_in_def par arrays by blast
  moreover have upd: "A[f := z] ! k = A ! k" if "e \<le> k" for A :: "'a cell list" and z k
    using ne(1) that by simp
  moreover have "outside s s' f e"
    using ne len xlen Y(3) arrays(1,2)
    by (rule_tac which_cases [of L]) (auto simp: outside_def nth_blit_outside xs_def ys_def e_def upd [unfolded e_def])
  moreover have "sort_loop cmp s = resume cmp s'"
    unfolding s'_def by (rule sort_loop_up) (simp_all add: top level)
  moreover have "sr_level s' = L" "sr_stack s' = sr_stack s" by (simp_all add: s'_def level)
  moreover note arrays(3)
  ultimately show thesis using zs(2,3) len that unfolding e_def by blast
qed

section \<open>From several runs to one\<close>

definition runs_at :: "'a sorting \<Rightarrow> nat \<Rightarrow> 'a list list \<Rightarrow> bool" where
  "runs_at s f Rs \<longleftrightarrow> holds (sr_base s) f (concat Rs) \<and> run_chain (sr_aux s) f (map length Rs) \<and> [] \<notin> set Rs
     \<and> f + length (concat Rs) \<le> length (sr_aux s)"

lemma runs_at_append:
  "runs_at s f (Rs @ Ss) \<Longrightarrow> runs_at s f Rs \<and> runs_at s (f + length (concat Rs)) Ss"
  by (auto simp: runs_at_def holds_append run_chain_append length_concat add.assoc)

lemma runs_at_one: "runs_at s f [r] \<Longrightarrow> run_in 0 s f r"
  by (auto simp: runs_at_def run_in_def)

lemma run_chain_cong:
  assumes "run_chain ys i ls" "length ys' = length ys" "\<And>k. i \<le> k \<Longrightarrow> k < i + sum_list ls \<Longrightarrow> ys' ! k = ys ! k"
    "\<forall>l \<in> set ls. 0 < l"
  shows "run_chain ys' i ls"
  using assms by (induction ls arbitrary: i) auto

lemma runs_at_outside:
  assumes "runs_at s f Rs" "outside s s' f' e'" "f + length (concat Rs) \<le> f' \<or> e' \<le> f"
  shows "runs_at s' f Rs"
proof -
  have "run_chain (sr_aux s') f (map length Rs)"
  proof (rule run_chain_cong)
    show "run_chain (sr_aux s) f (map length Rs)" "length (sr_aux s') = length (sr_aux s)" "\<forall>l \<in> set (map length Rs). 0 < l"
      using assms(1,2) by (auto simp: runs_at_def outside_def)
    fix k assume "f \<le> k" "k < f + sum_list (map length Rs)"
    then show "sr_aux s' ! k = sr_aux s ! k" using assms(2,3) by (auto simp: outside_def length_concat)
  qed
  moreover have "holds (sr_base s') f (concat Rs)"
  proof (rule holds_cong)
    show "holds (sr_base s) f (concat Rs)" "length (sr_base s') = length (sr_base s)"
      using assms(1,2) by (simp_all add: runs_at_def outside_def)
    fix k assume "f \<le> k" "k < f + length (concat Rs)"
    then show "sr_base s' ! k = sr_base s ! k" using assms(2,3) by (auto simp: outside_def)
  qed
  ultimately show ?thesis using assms(1,2) by (simp add: runs_at_def outside_def)
qed

lemma runs_at_fields: "runs_at s f Rs \<Longrightarrow> sr_base s' = sr_base s \<Longrightarrow> sr_aux s' = sr_aux s \<Longrightarrow> runs_at s' f Rs"
  by (simp add: runs_at_def)

lemma outside_update:
  assumes "f < e"
  shows "outside s (s\<lparr>sr_aux := blit (sr_aux s) f zs, sr_offset := n, sr_base := (sr_base s)[f := z]\<rparr>) f e
    \<longleftrightarrow> outside s (s\<lparr>sr_aux := blit (sr_aux s) f zs\<rparr>) f e"
  using assms by (auto simp: outside_def)

lemma outside_blit:
  assumes "f + length zs \<le> length (sr_aux s)" "f + length zs \<le> e"
  shows "outside s (s\<lparr>sr_aux := blit (sr_aux s) f zs\<rparr>) f e"
  using assms by (auto simp: outside_def nth_blit_outside)

lemma build_one_ok:
  assumes R: "runs_at s f [r]" and s: "sr_offset s = f" "0 < sr_level s"
  obtains s' where "build cmp 1 s = sort_loop cmp s'" "sr_level s' = sr_level s" "sr_stack s' = sr_stack s"
    "run_in (sr_level s mod 2) s' f r" "outside s s' f (f + length r)"
proof (cases "sr_level s mod 2 = 0")
  case True
  then have "build cmp 1 s = sort_loop cmp s" using s(2) unfolding build_one by (simp add: sort_single_def)
  then show thesis by (rule that) (use True runs_at_one [OF R] in \<open>simp_all add: outside_refl\<close>)
next
  case False
  define t where "t = f + length r"
  have r: "holds (sr_base s) f r" "r \<noteq> []" "sr_aux s ! f = Next t" "t \<le> length (sr_aux s)" "t \<le> length (sr_base s)"
    using R by (auto simp: runs_at_def t_def holds_def)
  then have ft: "f < t" by (simp add: t_def)
  have copy: "FROMTOUPTO (sr_base s) f (sr_aux s) f t = (t, blit (sr_aux s) f (map Elem r), f + length r)"
    using r by (intro FROMTOUPTO_ok) (simp_all add: t_def)
  let ?s = "s\<lparr>sr_aux := blit (sr_aux s) f (map Elem r), sr_offset := t, sr_base := (sr_base s)[f := Next t]\<rparr>"
  have "build cmp 1 s = sort_loop cmp ?s"
    using False s unfolding build_one by (simp add: sort_single_def r(3) copy Let_def)
  then show thesis
  proof (rule that)
    show "run_in (sr_level s mod 2) ?s f r"
      using False r ft holds_blit [of f r "sr_aux s"] by (simp add: run_in_def t_def [symmetric])
    show "outside s ?s f (f + length r)"
      unfolding t_def [symmetric] outside_update [OF ft]
      by (rule outside_blit) (use r(4) in \<open>simp_all add: t_def\<close>)
  qed simp_all
qed

lemma sort_pair_ok:
  assumes R: "runs_at s f [r1, r2]" and s: "sr_offset s = f" "sr_level s + 1 < length (sr_stack s)"
  shows "sr_level (sort_pair s) = Suc (sr_level s)"
    "sr_stack (sort_pair s) = (sr_stack s)[Suc (sr_level s) := \<lparr>or_offset = f, or_runs = 0\<rparr>]"
    "run_in (Suc (sr_level s) mod 2) (sort_pair s) f r1"
    "run_in (Suc (sr_level s) mod 2) (sort_pair s) (f + length r1) r2"
    "outside s (sort_pair s) f (f + length r1 + length r2)"
proof -
  define p where "p = f + length r1"
  define t where "t = p + length r2"
  have r: "holds (sr_base s) f (r1 @ r2)" "r1 \<noteq> []" "r2 \<noteq> []" "sr_aux s ! f = Next p" "sr_aux s ! p = Next t"
      "t \<le> length (sr_aux s)" "t \<le> length (sr_base s)"
    using R by (auto simp: runs_at_def t_def p_def holds_def)
  then have ft: "f < p" "p < t" by (simp_all add: t_def p_def)
  note split = r(1) [unfolded holds_append]
  let ?s = "s\<lparr>sr_level := sr_level s + 1, sr_stack := (sr_stack s)[sr_level s + 1 := \<lparr>or_offset = f, or_runs = 0\<rparr>]\<rparr>"
  show "sr_level (sort_pair s) = Suc (sr_level s)"
    "sr_stack (sort_pair s) = (sr_stack s)[Suc (sr_level s) := \<lparr>or_offset = f, or_runs = 0\<rparr>]"
    by (simp_all add: sort_pair_def s Let_def split: prod.splits)
  show "run_in (Suc (sr_level s) mod 2) (sort_pair s) f r1"
    "run_in (Suc (sr_level s) mod 2) (sort_pair s) (f + length r1) r2"
    "outside s (sort_pair s) f (f + length r1 + length r2)"
  proof -
    have goal: "run_in (Suc (sr_level s) mod 2) (sort_pair s) f r1
      \<and> run_in (Suc (sr_level s) mod 2) (sort_pair s) p r2 \<and> outside s (sort_pair s) f t"
    proof (rule which_cases [of "sr_level s"])
      assume lev: "sr_level s mod 2 = 0" "Suc (sr_level s) mod 2 = 1"
      have copy: "FROMTOUPTO (sr_base s) f (sr_aux s) f t = (t, blit (sr_aux s) f (map Elem (r1 @ r2)), f + length (r1 @ r2))"
        using r by (intro FROMTOUPTO_ok) (simp_all add: t_def p_def)
      have pair: "sort_pair s = ?s\<lparr>sr_aux := blit (sr_aux s) f (map Elem (r1 @ r2)), sr_offset := p,
          sr_base := (sr_base s)[f := Next p, p := Next t]\<rparr>"
        using lev by (simp add: sort_pair_def s r(4,5) copy Let_def del: map_append)
      have "holds (blit (sr_aux s) f (map Elem (r1 @ r2))) f (r1 @ r2)"
        using r(6) by (intro holds_blit) (simp add: t_def p_def)
      then have "holds (blit (sr_aux s) f (map Elem (r1 @ r2))) f r1" "holds (blit (sr_aux s) f (map Elem (r1 @ r2))) p r2"
        unfolding holds_append p_def by simp_all
      moreover have "(sr_base s)[f := Next p, p := Next t] ! f = Next p" "(sr_base s)[f := Next p, p := Next t] ! p = Next t"
        using ft r(7) by simp_all
      ultimately have "run_in 1 (sort_pair s) f r1" "run_in 1 (sort_pair s) p r2"
        using r(2,3,7) ft unfolding run_in_def pair
        by (simp_all add: p_def [symmetric] t_def [symmetric] del: map_append)
      moreover have "outside s (sort_pair s) f t"
      proof -
        have "f + length (map Elem (r1 @ r2)) = t" by (simp add: t_def p_def)
        then have "blit (sr_aux s) f (map Elem (r1 @ r2)) ! k = sr_aux s ! k" if "k < f \<or> t \<le> k" for k
          using that r(6) by (intro nth_blit_outside) simp_all
        then show ?thesis using ft r(6) \<open>f + length (map Elem (r1 @ r2)) = t\<close>
          unfolding outside_def pair by (auto simp del: map_append)
      qed
      ultimately show ?thesis using lev by simp
    next
      assume lev: "sr_level s mod 2 = 1" "Suc (sr_level s) mod 2 = 0"
      have pair: "sort_pair s = ?s" using lev by (simp add: sort_pair_def s Let_def)
      then show ?thesis using lev r(2-7) split
        by (simp add: run_in_def outside_def t_def p_def)
    qed
    then show "run_in (Suc (sr_level s) mod 2) (sort_pair s) f r1"
      "run_in (Suc (sr_level s) mod 2) (sort_pair s) (f + length r1) r2"
      "outside s (sort_pair s) f (f + length r1 + length r2)"
      by (simp_all add: p_def t_def)
  qed
qed

definition built :: "('a \<Rightarrow> 'a \<Rightarrow> int) \<Rightarrow> 'a list list \<Rightarrow> nat \<Rightarrow> 'a sorting \<Rightarrow> 'a sorting \<Rightarrow> 'a list \<Rightarrow> bool" where
  "built cmp Rs f s s' C \<longleftrightarrow>
     sr_level s' = sr_level s \<and> length (sr_stack s') = length (sr_stack s)
     \<and> take (Suc (sr_level s)) (sr_stack s') = take (Suc (sr_level s)) (sr_stack s)
     \<and> run_in (sr_level s mod 2) s' f C \<and> length C = length (concat Rs) \<and> merged cmp Rs C
     \<and> outside s s' f (f + length (concat Rs))"

lemma merged_length: "merged cmp Rs C \<Longrightarrow> length C = length (concat Rs)"
  unfolding merged_def by (metis size_mset)

lemma built_one:
  assumes "runs_at s f [r]" "sr_offset s = f" "0 < sr_level s"
  obtains s' where "build cmp 1 s = sort_loop cmp s'" "built cmp [r] f s s' r"
proof -
  obtain s' where "build cmp 1 s = sort_loop cmp s'" "sr_level s' = sr_level s" "sr_stack s' = sr_stack s"
    "run_in (sr_level s mod 2) s' f r" "outside s s' f (f + length r)"
    by (rule build_one_ok [OF assms, of cmp])
  then show thesis using that [of s'] by (simp add: built_def merged_one)
qed

text \<open>Two runs of a level, one after the other, merged.\<close>

lemma built_merge:
  assumes level: "sr_level s = Suc L" and top: "sr_stack s ! Suc L = \<lparr>or_offset = f, or_runs = 0\<rparr>"
    and C: "run_in (Suc L mod 2) s f C1" "run_in (Suc L mod 2) s (f + length C1) C2"
    and M: "merged cmp Rs1 C1" "merged cmp Rs2 C2"
  obtains s' C where "sort_loop cmp s = resume cmp s'" "sr_level s' = L" "sr_stack s' = sr_stack s"
    "sr_offset s' = f + length C1 + length C2" "run_in (L mod 2) s' f C" "merged cmp (Rs1 @ Rs2) C"
    "outside s s' f (f + length C1 + length C2)"
proof -
  have "stack_runs s = 0" "or_offset (sr_stack s ! Suc L) = f" by (simp_all add: stack_runs_def level top)
  from merge_level_ok [OF level this C, of cmp]
  show thesis using that merged_append [OF M] by metis
qed

lemma half_pow: "k \<le> 2 ^ Suc d \<Longrightarrow> k - k div 2 \<le> 2 ^ d" "k \<le> 2 ^ Suc d \<Longrightarrow> k div 2 \<le> (2 :: nat) ^ d"
  by simp_all

lemma build_ok:
  assumes "runs_at s f Rs" "sr_offset s = f" "2 \<le> length Rs" "length Rs \<le> 2 ^ d" "sr_level s + d < length (sr_stack s)"
  shows "\<exists>s' C. build cmp (length Rs) s = resume cmp s' \<and> built cmp Rs f s s' C
    \<and> sr_offset s' = f + length (concat Rs)"
  using assms
proof (induction "length Rs" arbitrary: Rs s f d rule: less_induct)
  case less
  define L where "L = sr_level s"
  obtain d' where d': "d = Suc d'" using less.prems(3,4) by (cases d) auto
  show ?case
  proof (cases "length Rs = 2")
    case True
    then obtain r1 r2 where Rs: "Rs = [r1, r2]" by (auto simp: length_Suc_conv numeral_2_eq_2)
    have top: "sr_level s + 1 < length (sr_stack s)" using less.prems(5) d' by simp
    note pair = sort_pair_ok [OF less.prems(1) [unfolded Rs] less.prems(2) top]
    have entry: "sr_stack (sort_pair s) ! Suc (sr_level s) = \<lparr>or_offset = f, or_runs = 0\<rparr>"
      using pair(2) top by simp
    obtain s' C where s': "sort_loop cmp (sort_pair s) = resume cmp s'" "sr_level s' = sr_level s"
        "sr_stack s' = sr_stack (sort_pair s)" "sr_offset s' = f + length r1 + length r2"
        "run_in (sr_level s mod 2) s' f C" "merged cmp ([r1] @ [r2]) C"
        "outside (sort_pair s) s' f (f + length r1 + length r2)"
      by (rule built_merge [OF pair(1) entry pair(3,4) merged_one merged_one])
    have "build cmp (length Rs) s = resume cmp s'" unfolding True build_two by (rule s'(1))
    moreover have "outside s s' f (f + length (concat Rs))"
      using outside_trans [OF pair(5) s'(7)] by (simp add: Rs add.assoc)
    ultimately show ?thesis using s' pair(2) merged_length [OF s'(6)]
      by (intro exI [of _ s'] exI [of _ C]) (simp add: built_def Rs)
  next
    case False
    define k where "k = length Rs"
    then have k: "2 < k" using less.prems(3) False by simp
    define Rs1 where "Rs1 = take (k - k div 2) Rs"
    define Rs2 where "Rs2 = drop (k - k div 2) Rs"
    define f1 where "f1 = f + length (concat Rs1)"
    define e where "e = f + length (concat Rs)"
    have Rs: "Rs = Rs1 @ Rs2" and len: "length Rs1 = k - k div 2" "length Rs2 = k div 2"
      using k by (auto simp: Rs1_def Rs2_def k_def)
    have e: "e = f1 + length (concat Rs2)" by (simp add: e_def f1_def Rs)
    have small: "length Rs1 < length Rs" "length Rs2 < length Rs" "2 \<le> length Rs1" "0 < length Rs2"
      using k len by (auto simp: k_def [symmetric])
    have pow: "length Rs1 \<le> 2 ^ d'" "length Rs2 \<le> 2 ^ d'"
      using half_pow [of k d'] less.prems(4) by (simp_all add: len k_def d')
    define s1 where "s1 = push_half (k div 2) s"
    have s1: "sr_level s1 = Suc L" "length (sr_stack s1) = length (sr_stack s)" "sr_offset s1 = f"
      "sr_stack s1 ! Suc L = \<lparr>or_offset = f, or_runs = k div 2\<rparr>"
      "take (Suc L) (sr_stack s1) = take (Suc L) (sr_stack s)" "outside s s1 f e"
      using less.prems(2,5) d' by (simp_all add: s1_def push_half_def L_def outside_fields)
    have runs: "runs_at s1 f Rs1" "runs_at s1 f1 Rs2"
      using runs_at_append [of s1 f Rs1 Rs2] runs_at_fields [OF less.prems(1), of s1]
      by (simp_all add: s1_def push_half_def Rs f1_def)
    have room: "Suc L + d' < length (sr_stack s1)" using less.prems(5) s1(2) by (simp add: L_def d')
    obtain s2 C1 where s2: "build cmp (length Rs1) s1 = resume cmp s2" "built cmp Rs1 f s1 s2 C1" "sr_offset s2 = f1"
      using less.hyps [OF small(1) runs(1) s1(3) small(3) pow(1)] room by (auto simp: s1(1) f1_def)
    have L2: "sr_level s2 = Suc L" "length (sr_stack s2) = length (sr_stack s)"
      and st2: "take (Suc (Suc L)) (sr_stack s2) = take (Suc (Suc L)) (sr_stack s1)"
      and C1: "run_in (Suc L mod 2) s2 f C1" "merged cmp Rs1 C1" and out2: "outside s1 s2 f f1"
      and len1: "f + length C1 = f1"
      using s2(2) by (simp_all add: built_def s1 f1_def)
    have entry2: "sr_stack s2 ! Suc L = \<lparr>or_offset = f, or_runs = k div 2\<rparr>"
      using arg_cong [OF st2, of "\<lambda>xs. xs ! Suc L"] s1(4) by simp
    define s3 where "s3 = clear_top s2"
    have s3: "sr_level s3 = Suc L" "sr_offset s3 = f1" "length (sr_stack s3) = length (sr_stack s)"
      "take (Suc L) (sr_stack s3) = take (Suc L) (sr_stack s2)" "outside s2 s3 f1 e"
      using L2 s2(3) by (simp_all add: s3_def clear_top_def outside_fields)
    have entry3: "sr_stack s3 ! Suc L = \<lparr>or_offset = f, or_runs = 0\<rparr>"
      using entry2 L2 room s1(2) by (simp add: s3_def clear_top_def)
    have runs3: "runs_at s3 f1 Rs2"
      using runs_at_fields [OF runs_at_outside [OF runs(2) out2], of s3] by (simp add: s3_def clear_top_def)
    have loop2: "build cmp (length Rs1) s1 = build cmp (length Rs2) s3"
      unfolding s2(1) resume_def using L2(1) sort_loop_down [of s2 cmp] entry2 small(4) len
      by (simp add: stack_runs_def s3_def)
    obtain s4 C2 where s4: "build cmp (length Rs2) s3 = sort_loop cmp s4" "built cmp Rs2 f1 s3 s4 C2"
    proof (cases "length Rs2 = 1")
      case True
      then obtain r where r: "Rs2 = [r]" by (auto simp: length_Suc_conv)
      have "0 < sr_level s3" by (simp add: s3(1))
      then obtain s4 where "build cmp 1 s3 = sort_loop cmp s4" "built cmp [r] f1 s3 s4 r"
        by (rule built_one [OF runs3 [unfolded r] s3(2), of cmp])
      then show thesis using that [of s4 r] unfolding True r by simp
    next
      case False
      then have two: "2 \<le> length Rs2" using small(4) by linarith
      obtain s4 C2 where "build cmp (length Rs2) s3 = resume cmp s4" "built cmp Rs2 f1 s3 s4 C2"
        using less.hyps [OF small(2) runs3 s3(2) two pow(2)] room s1(2) s3(1,3) by auto
      moreover from this(2) have "sr_level s4 \<noteq> 0" by (simp add: built_def s3(1))
      ultimately show thesis by (intro that) (simp_all add: resume_def)
    qed
    have L4: "sr_level s4 = Suc L" "length (sr_stack s4) = length (sr_stack s)"
      and st4: "take (Suc (Suc L)) (sr_stack s4) = take (Suc (Suc L)) (sr_stack s3)"
      and C2: "run_in (Suc L mod 2) s4 f1 C2" "merged cmp Rs2 C2" and out4: "outside s3 s4 f1 e"
      and len2: "f1 + length C2 = e"
      using s4(2) by (simp_all add: built_def s3 e)
    have entry4: "sr_stack s4 ! Suc L = \<lparr>or_offset = f, or_runs = 0\<rparr>"
      using arg_cong [OF st4, of "\<lambda>xs. xs ! Suc L"] entry3 by simp
    have C1': "run_in (Suc L mod 2) s4 f C1"
      using run_in_outside [OF C1(1) outside_trans [OF s3(5) out4]] len1 by simp
    obtain s5 C where s5: "sort_loop cmp s4 = resume cmp s5" "sr_level s5 = L" "sr_stack s5 = sr_stack s4"
        "sr_offset s5 = f + length C1 + length C2" "run_in (L mod 2) s5 f C" "merged cmp (Rs1 @ Rs2) C"
        "outside s4 s5 f (f + length C1 + length C2)"
      by (rule built_merge [OF L4(1) entry4 C1' C2(1) [folded len1] C1(2) C2(2)])
    have fe: "f \<le> f1" "f1 \<le> e" using len1 len2 by simp_all
    have out: "outside s s5 f e"
      using outside_trans [OF outside_trans [OF s1(6) outside_mono [OF out2 order_refl fe(2)]]
          outside_trans [OF outside_mono [OF outside_trans [OF s3(5) out4] fe(1) order_refl] s5(7) [unfolded len1 len2]]] .
    have st5: "take (Suc L) (sr_stack s5) = take (Suc L) (sr_stack s)"
    proof -
      have "take (Suc L) xs = take (Suc L) (take (Suc (Suc L)) xs)" for xs :: "off_runs list" by (simp add: min_def)
      then show ?thesis using st2 st4 s1(5) s3(4) s5(3) by metis
    qed
    have "build cmp (length Rs) s = resume cmp s5"
      using build_half [OF k, of cmp s] loop2 s4(1) s5(1) by (simp add: k_def s1_def len)
    moreover have "built cmp Rs f s s5 C"
      using s5 L4(2) st5 out merged_length [OF s5(6)] by (simp add: built_def L_def Rs e_def)
    moreover have "sr_offset s5 = f + length (concat Rs)" using s5(4) len1 len2 by (simp add: e_def)
    ultimately show ?thesis by blast
  qed
qed

section \<open>The runs of an ordering comparison\<close>

lemma successively_sorted_wrt:
  assumes trans: "\<And>x y z. x \<in> A \<Longrightarrow> y \<in> A \<Longrightarrow> z \<in> A \<Longrightarrow> P x y \<Longrightarrow> P y z \<Longrightarrow> P x z"
    and "set xs \<subseteq> A" "successively P xs"
  shows "sorted_wrt P xs"
  using assms(2,3)
proof (induction xs rule: induct_list012)
  case (3 x y zs)
  then have "sorted_wrt P (y # zs)" "P x y" "{x, y} \<union> set zs \<subseteq> A" by simp_all
  moreover from this have "P x z" if "z \<in> set zs" for z
    using that by (intro trans [of x y z]) auto
  ultimately show ?case by simp
qed simp_all

context comparator
begin

lemma ordered_seg:
  assumes "seg_ok cmp g" "set (snd g) \<subseteq> A"
  shows "ordered A cmp (seg_out g)"
proof (cases "fst g")
  case True
  have "successively (\<lambda>x y. 0 < cmp x y) (snd g)" using assms True by (simp add: seg_ok_def)
  then have "sorted_wrt (\<lambda>x y. 0 < cmp x y) (snd g)"
    using assms(2) by (intro successively_sorted_wrt [of A]) (blast intro: cmp_pos_pos)+
  then have "sorted_wrt (\<lambda>x y. 0 < cmp y x) (rev (snd g))" by (simp add: sorted_wrt_rev)
  then have "sorted_wrt (\<lambda>x y. cmp x y \<le> 0) (rev (snd g))"
    using assms(2) by (elim sorted_wrt_mono_rel [rotated]) (auto intro: cmp_total)
  then show ?thesis using True assms(2) by (simp add: ordered_def seg_out_def)
next
  case False
  have "successively (\<lambda>x y. cmp x y \<le> 0) (snd g)" using assms False by (simp add: seg_ok_def not_less)
  then have "sorted_wrt (\<lambda>x y. cmp x y \<le> 0) (snd g)"
    using assms(2) by (intro successively_sorted_wrt [of A]) (blast intro: cmp_trans)+
  then show ?thesis using False assms(2) by (simp add: ordered_def seg_out_def)
qed

lemma filter_seg:
  assumes "seg_ok cmp g" "set (snd g) \<subseteq> A" "x \<in> A"
  shows "filter (\<lambda>y. cmp x y = 0) (seg_out g) = filter (\<lambda>y. cmp x y = 0) (snd g)"
proof (cases "fst g")
  case True
  have "successively (\<lambda>x y. 0 < cmp x y) (snd g)" using assms True by (simp add: seg_ok_def)
  then have "sorted_wrt (\<lambda>x y. 0 < cmp x y) (snd g)"
    using assms(2) by (intro successively_sorted_wrt [of A]) (blast intro: cmp_pos_pos)+
  then have "sorted_wrt (\<lambda>x y. 0 < cmp x y) (filter (\<lambda>y. cmp x y = 0) (snd g))" by (rule sorted_wrt_filter)
  moreover have "\<not> 0 < cmp a b" if "cmp x a = 0" "cmp x b = 0" "a \<in> A" "b \<in> A" for a b
    using cmp_trans [of a x b] cmp_zero_sym [of x a] that assms(3) by simp
  moreover have "cmp x a = 0" "a \<in> A" "cmp x b = 0" "b \<in> A"
    if "filter (\<lambda>y. cmp x y = 0) (snd g) = a # b # ys" for a b ys
    using arg_cong [OF that, of set] assms(2) by auto
  ultimately have "\<not> (\<exists>a b ys. filter (\<lambda>y. cmp x y = 0) (snd g) = a # b # ys)"
    by (metis list.set_intros(1) sorted_wrt.simps(2))
  then have "length (filter (\<lambda>y. cmp x y = 0) (snd g)) \<le> 1"
    by (cases "filter (\<lambda>y. cmp x y = 0) (snd g)" rule: remdups_adj.cases) auto
  then have "rev (filter (\<lambda>y. cmp x y = 0) (snd g)) = filter (\<lambda>y. cmp x y = 0) (snd g)"
    by (cases "filter (\<lambda>y. cmp x y = 0) (snd g)") auto
  then show ?thesis using True by (simp add: seg_out_def rev_filter)
qed (simp add: seg_out_def)

lemma same_order_segs:
  assumes "list_all (seg_ok cmp) R" "set (concat (map snd R)) \<subseteq> A"
  shows "same_order A cmp (concat (map snd R)) (concat (map seg_out R))"
proof -
  have "filter (\<lambda>y. cmp x y = 0) (seg_out g) = filter (\<lambda>y. cmp x y = 0) (snd g)" if "g \<in> set R" "x \<in> A" for g x
    using assms that by (intro filter_seg) (auto simp: list_all_iff)
  then show ?thesis by (auto simp: same_order_def filter_concat intro!: arg_cong [of _ _ concat])
qed

end

lemma mset_segs: "mset (concat (map seg_out R)) = mset (concat (map snd R))"
  by (induction R) (simp_all add: seg_out_def)

section \<open>The whole sort\<close>

lemma sortsv_flags_ok:
  assumes "length base \<le> length aux" "length stack = 60" "length base \<le> 2 ^ 59"
  shows "\<exists>ys. sortsv_flags cmp aux stack base = Some ys \<and> mset ys = mset base
    \<and> (\<forall>A. comparator A cmp \<longrightarrow> set base \<subseteq> A \<longrightarrow> ordered A cmp ys \<and> same_order A cmp base ys)"
proof (cases "length base \<le> 1")
  case True
  then have "set base \<subseteq> A \<longrightarrow> ordered A cmp base" for A by (cases base) (auto simp: ordered_def)
  with True show ?thesis by (simp add: sortsv_flags_def same_order_def)
next
  case False
  then have "2 \<le> length base" by simp
  then obtain d R where d: "dynprep cmp (map Elem base) aux (length base) = Some d" "prep_at cmp base d (length base) R"
    by (rule dynprep_ok [OF _ assms(1)])
  define Rs where "Rs = map seg_out R"
  have prep: "concat (map snd R) = base" "list1 d = map Elem (concat Rs)" "list_all (seg_ok cmp) R"
      "dyn_runs d = length R" "run_chain (list2 d) 0 (map (\<lambda>g. length (snd g)) R)" "length base \<le> length (list2 d)"
    using d(2) by (simp_all add: prep_at_def Rs_def)
  have len: "length (concat Rs) = length base" using prep(1) by (simp add: Rs_def length_segs)
  have ne: "[] \<notin> set Rs" using prep(3) by (auto simp: Rs_def list_all_iff seg_ok_def seg_out_def split: if_splits)
  define s where "s = \<lparr>sr_base = list1 d, sr_aux = list2 d, sr_level = 0, sr_offset = 0,
      sr_stack = stack[0 := \<lparr>or_offset = 0, or_runs = dyn_runs d\<rparr>]\<rparr>"
  have runs: "runs_at (clear_top s) 0 Rs"
    using prep ne len by (simp add: runs_at_def clear_top_def s_def holds_def Rs_def comp_def)
  have bound: "length Rs \<le> length (concat Rs)"
    using ne
  proof (induction Rs)
    case (Cons a Rs)
    then show ?case by (cases a) auto
  qed simp
  have "0 < length Rs" using len False by (cases Rs) auto
  have loop: "sort_loop cmp s = build cmp (length Rs) (clear_top s)"
    using sort_loop_down [of s cmp] \<open>0 < length Rs\<close> assms(2) prep(4) by (simp add: stack_runs_def s_def Rs_def)
  have "\<exists>s' C. sort_loop cmp s = Some s' \<and> sr_base s' = map Elem C \<and> merged cmp Rs C"
  proof (cases "length Rs = 1")
    case True
    then have "Rs = [concat Rs]" by (auto simp: length_Suc_conv)
    then have "merged cmp Rs (concat Rs)" using merged_one [of cmp "concat Rs"] by simp
    moreover have "build cmp (length Rs) (clear_top s) = Some (clear_top s)"
      unfolding True build_one by (simp add: sort_single_def clear_top_def s_def)
    ultimately show ?thesis using loop prep(2) by (auto simp: clear_top_def s_def)
  next
    case False
    then have two: "2 \<le> length Rs" using \<open>0 < length Rs\<close> by linarith
    have "sr_offset (clear_top s) = 0" "sr_level (clear_top s) + 59 < length (sr_stack (clear_top s))"
      using assms(2) by (simp_all add: clear_top_def s_def)
    then obtain s' C where s': "build cmp (length Rs) (clear_top s) = resume cmp s'" "built cmp Rs 0 (clear_top s) s' C"
      using build_ok [OF runs _ two, of 59 cmp] bound len assms(3) by auto
    have level: "sr_level s' = 0" and C: "run_in 0 s' 0 C" "length C = length base" "merged cmp Rs C"
      and out: "length (sr_base s') = length base"
      using s'(2) len prep(2) by (simp_all add: built_def clear_top_def s_def outside_def)
    have "sr_base s' = map Elem C"
      using C(1,2) out by (intro nth_equalityI) (auto simp: run_in_def holds_def)
    then show ?thesis using loop s'(1) level C(3) by (auto simp: resume_def)
  qed
  then obtain s' C where s': "sort_loop cmp s = Some s'" "sr_base s' = map Elem C" "merged cmp Rs C" by blast
  have "sortsv_flags cmp aux stack base = Some C"
    using False d(1) s'(1,2) by (simp add: sortsv_flags_def s_def [symmetric] comp_def)
  moreover have "mset C = mset base" using s'(3) mset_segs [of R] prep(1) by (simp add: merged_def Rs_def)
  moreover have "ordered A cmp C \<and> same_order A cmp base C" if c: "comparator A cmp" "set base \<subseteq> A" for A
  proof -
    have "list_all (ordered A cmp) Rs"
      unfolding Rs_def list_all_iff set_map
    proof (intro ballI, elim imageE, hypsubst)
      fix g assume g: "g \<in> set R"
      then have "set (snd g) \<subseteq> set base" unfolding prep(1) [symmetric] by auto
      then show "ordered A cmp (seg_out g)"
        using g prep(3) c(2) by (intro comparator.ordered_seg [OF c(1)]) (auto simp: list_all_iff)
    qed
    then show ?thesis
      using s'(3) c comparator.same_order_segs [OF c(1) prep(3)] prep(1) by (auto simp: merged_def same_order_def Rs_def)
  qed
  ultimately show ?thesis by blast
qed

end
