(* ===== verification/Utf8.thy ===== *)
theory Utf8
  imports Prelude
begin

text \<open>
  The extended UTF-8 of \<open>src/utf8.h\<close>, \<open>src/utf8.c\<close> and \<open>src/inline.h\<close>, on an ASCII platform with
  64-bit code points: the classes of bytes, the encoder with its checks, the decoder of
  well-formed characters, and the comparison of UTF-8 with a string of bytes.
\<close>

section \<open>Bytes\<close>

definition UTF_CONTINUATION_MASK :: u64 where "UTF_CONTINUATION_MASK = 0x3F"

definition UTF_CONTINUATION_MARK :: u64 where "UTF_CONTINUATION_MARK = 0x80"

definition UTF_START_MARK :: "nat \<Rightarrow> u8" where "UTF_START_MARK len = NOT (drop_bit len 0xFF)"

definition UTF_START_MASK :: "nat \<Rightarrow> u64" where "UTF_START_MASK len = drop_bit len 0xFF"

definition UTF8_IS_INVARIANT :: "u8 \<Rightarrow> bool" where
  "UTF8_IS_INVARIANT c \<longleftrightarrow> c < 0x80"

definition UTF8_IS_START :: "u8 \<Rightarrow> bool" where
  "UTF8_IS_START c \<longleftrightarrow> c \<ge> 0xC2"

definition UTF8_IS_DOWNGRADEABLE_START :: "u8 \<Rightarrow> bool" where
  "UTF8_IS_DOWNGRADEABLE_START c \<longleftrightarrow> 0xC2 \<le> c \<and> c \<le> 0xC4 - 1"

definition UTF8_IS_CONTINUATION :: "u8 \<Rightarrow> bool" where
  "UTF8_IS_CONTINUATION c \<longleftrightarrow> c AND 0xC0 = 0x80"

definition EIGHT_BIT_UTF8_TO_NATIVE :: "u8 \<Rightarrow> u8 \<Rightarrow> u8" where
  "EIGHT_BIT_UTF8_TO_NATIVE HI LO =
     ucast (push_bit 6 (ucast HI AND UTF_START_MASK 2) OR (ucast LO AND UTF_CONTINUATION_MASK))"

definition UTF8_EIGHT_BIT_HI :: "u8 \<Rightarrow> u8" where
  "UTF8_EIGHT_BIT_HI c = drop_bit 6 c OR UTF_START_MARK 2"

definition UTF8_EIGHT_BIT_LO :: "u8 \<Rightarrow> u8" where
  "UTF8_EIGHT_BIT_LO c = ucast ((ucast c AND UTF_CONTINUATION_MASK) OR UTF_CONTINUATION_MARK)"

definition PL_utf8skip :: "nat list" where
  "PL_utf8skip = replicate 192 1 @ replicate 32 2 @ replicate 16 3 @ replicate 8 4 @ replicate 4 5
     @ replicate 2 6 @ [7, 13]"

definition UTF8SKIP :: "u8 \<Rightarrow> nat" where
  "UTF8SKIP c = PL_utf8skip ! unat c"

section \<open>The encoder\<close>

definition UTF8_MAXBYTES :: nat where "UTF8_MAXBYTES = 13"

text \<open>The position of the most significant bit, of a word that is not 0.\<close>

fun msbit :: "nat \<Rightarrow> nat" where
  "msbit n = (if n < 2 then 0 else Suc (msbit (n div 2)))"

declare msbit.simps [simp del]

definition msbit_pos :: "u64 \<Rightarrow> nat" where
  "msbit_pos w = msbit (unat w)"

definition UNISKIP_BY_MSB :: "nat \<Rightarrow> nat" where
  "UNISKIP_BY_MSB pos = (pos + ((6 - 1) - 1)) div (6 - 1)"

definition OFFUNISKIP :: "u64 \<Rightarrow> nat" where
  "OFFUNISKIP uv =
     (if uv < 0x80 then 1
      else if uv > 2 ^ (6 * 6) - 1 then UTF8_MAXBYTES
      else UNISKIP_BY_MSB (msbit_pos uv))"

definition UNICODE_IS_SURROGATE :: "u64 \<Rightarrow> bool" where
  "UNICODE_IS_SURROGATE uv \<longleftrightarrow> 0xD800 \<le> uv \<and> uv \<le> 0xDFFF"

definition UNICODE_IS_SUPER :: "u64 \<Rightarrow> bool" where
  "UNICODE_IS_SUPER uv \<longleftrightarrow> uv > 0x10FFFF"

definition UNICODE_IS_NONCHAR :: "u64 \<Rightarrow> bool" where
  "UNICODE_IS_NONCHAR uv \<longleftrightarrow>
     \<not> UNICODE_IS_SUPER uv \<and> ((0xFDD0 \<le> uv \<and> uv \<le> 0xFDEF) \<or> uv AND 0xFFFE = 0xFFFE)"

definition UNICODE_IS_PERL_EXTENDED :: "u64 \<Rightarrow> bool" where
  "UNICODE_IS_PERL_EXTENDED uv \<longleftrightarrow> uv > 2 ^ 31 - 1"

definition MAX_LEGAL_CP :: u64 where "MAX_LEGAL_CP = 2 ^ 63 - 1"

definition UNICODE_WARN_SURROGATE :: u64 where "UNICODE_WARN_SURROGATE = 0x0001"
definition UNICODE_WARN_NONCHAR :: u64 where "UNICODE_WARN_NONCHAR = 0x0002"
definition UNICODE_WARN_SUPER :: u64 where "UNICODE_WARN_SUPER = 0x0004"
definition UNICODE_WARN_PERL_EXTENDED :: u64 where "UNICODE_WARN_PERL_EXTENDED = 0x0008"
definition UNICODE_DISALLOW_SURROGATE :: u64 where "UNICODE_DISALLOW_SURROGATE = 0x0010"
definition UNICODE_DISALLOW_NONCHAR :: u64 where "UNICODE_DISALLOW_NONCHAR = 0x0020"
definition UNICODE_DISALLOW_SUPER :: u64 where "UNICODE_DISALLOW_SUPER = 0x0040"
definition UNICODE_DISALLOW_PERL_EXTENDED :: u64 where "UNICODE_DISALLOW_PERL_EXTENDED = 0x0080"
definition UNICODE_ALLOW_ABOVE_IV_MAX :: u64 where "UNICODE_ALLOW_ABOVE_IV_MAX = 0x0100"

definition has_flag :: "u64 \<Rightarrow> u64 \<Rightarrow> bool" where
  "has_flag flags bits \<longleftrightarrow> flags AND bits \<noteq> 0"

text \<open>The messages the encoder raises, by the flag bit each carries, and its one error.\<close>

datatype utf8_msg = GOT_SURROGATE | GOT_NONCHAR | GOT_SUPER | GOT_PERL_EXTENDED

datatype utf8_error = Code_point_too_large u64

text \<open>
  The three groups of checks on the way through the cases of the \<open>switch\<close>: whether the code
  point is refused, the messages, and for the first group the flags that remain.
\<close>

definition check_extended :: "u64 \<Rightarrow> bool \<times> u64 \<times> utf8_msg list" where
  "check_extended flags =
     (let (flags', msgs) =
            (if has_flag flags (UNICODE_WARN_PERL_EXTENDED OR UNICODE_WARN_SUPER)
             then (flags AND NOT UNICODE_WARN_SUPER,
               [if has_flag flags UNICODE_WARN_PERL_EXTENDED then GOT_PERL_EXTENDED else GOT_SUPER])
             else (flags, []))
      in (has_flag flags' UNICODE_DISALLOW_PERL_EXTENDED, flags', msgs))"

definition check_super :: "u64 \<Rightarrow> u64 \<Rightarrow> bool \<times> utf8_msg list" where
  "check_super uv flags =
     (if UNICODE_IS_SUPER uv
      then (has_flag flags UNICODE_DISALLOW_SUPER
              \<or> (has_flag flags UNICODE_DISALLOW_PERL_EXTENDED \<and> UNICODE_IS_PERL_EXTENDED uv),
            if has_flag flags UNICODE_WARN_SUPER then [GOT_SUPER] else [])
      else (False, []))"

definition check_problematic :: "u64 \<Rightarrow> u64 \<Rightarrow> bool \<times> utf8_msg list" where
  "check_problematic uv flags =
     (if uv \<ge> 0xD800
      then if UNICODE_IS_NONCHAR uv
           then (has_flag flags UNICODE_DISALLOW_NONCHAR,
                 if has_flag flags UNICODE_WARN_NONCHAR then [GOT_NONCHAR] else [])
           else if UNICODE_IS_SURROGATE uv
           then (has_flag flags UNICODE_DISALLOW_SURROGATE,
                 if has_flag flags UNICODE_WARN_SURROGATE then [GOT_SURROGATE] else [])
           else (False, [])
      else (False, []))"

text \<open>The last \<open>n\<close> bytes of a character, written from the end, and what is left of the code point.\<close>

fun trailing_bytes :: "nat \<Rightarrow> u64 \<Rightarrow> u8 list \<Rightarrow> u64 \<times> u8 list" where
  "trailing_bytes 0 shifted_uv d = (shifted_uv, d)"
| "trailing_bytes (Suc n) shifted_uv d =
     trailing_bytes n (drop_bit 6 shifted_uv)
       (ucast ((shifted_uv AND UTF_CONTINUATION_MASK) OR UTF_CONTINUATION_MARK) # d)"

definition encode_bytes :: "nat \<Rightarrow> u64 \<Rightarrow> u8 list" where
  "encode_bytes utf8_skip uv =
     (let (shifted_uv, d) = trailing_bytes (utf8_skip - 1) uv []
      in ucast ((shifted_uv AND UTF_START_MASK utf8_skip) OR ucast (UTF_START_MARK utf8_skip)) # d)"

text \<open>
  The encoder: the bytes it writes, \<open>None\<close> when it returns \<open>NULL\<close>, and the messages in order.
\<close>

definition uvoffuni_to_utf8_flags_msgs :: "u64 \<Rightarrow> u64 \<Rightarrow> utf8_error + u8 list option \<times> utf8_msg list" where
  "uvoffuni_to_utf8_flags_msgs uv flags =
     (let utf8_skip = OFFUNISKIP uv
      in if utf8_skip = 1 then Inr (Some [ucast uv], [])
         else if utf8_skip > 6 \<and> uv > MAX_LEGAL_CP \<and> \<not> has_flag flags UNICODE_ALLOW_ABOVE_IV_MAX
         then Inl (Code_point_too_large uv)
         else let (stop, flags, msgs) = (if utf8_skip > 6 then check_extended flags else (False, flags, []))
              in if stop then Inr (None, msgs)
         else let (stop, msgs') = (if utf8_skip \<ge> 4 then check_super uv flags else (False, []))
              in if stop then Inr (None, msgs @ msgs')
         else let (stop, msgs'') = (if utf8_skip \<ge> 3 then check_problematic uv flags else (False, []))
              in if stop then Inr (None, msgs @ msgs' @ msgs'')
         else Inr (Some (encode_bytes utf8_skip uv), msgs @ msgs' @ msgs''))"

definition uv_to_utf8_flags :: "u64 \<Rightarrow> u64 \<Rightarrow> utf8_error + u8 list option \<times> utf8_msg list" where
  "uv_to_utf8_flags uv flags = uvoffuni_to_utf8_flags_msgs uv flags"

definition uv_to_utf8 :: "u64 \<Rightarrow> utf8_error + u8 list option \<times> utf8_msg list" where
  "uv_to_utf8 uv = uvoffuni_to_utf8_flags_msgs uv 0"

section \<open>The decoder of well-formed characters\<close>

text \<open>
  The code point of the character at the start of \<open>s\<close>, and its length; \<open>long\<close> is
  \<open>long_valid_utf8_to_uv\<close>, for characters of more than five bytes.
\<close>

definition NEXT_ACCUMULATION :: "u8 list \<Rightarrow> nat \<Rightarrow> nat \<Rightarrow> u64" where
  "NEXT_ACCUMULATION s full_shift n = push_bit (full_shift - n * 6) (ucast (s ! n) AND UTF_CONTINUATION_MASK)"

definition valid_utf8_to_uv :: "(u8 list \<Rightarrow> u64) \<Rightarrow> u8 list \<Rightarrow> u64 \<times> nat" where
  "valid_utf8_to_uv long s =
     (let expectlen = UTF8SKIP (s ! 0);
          full_shift = (expectlen - 1) * 6;
          uv = 0;
          uv = (if expectlen > 5 then long (take expectlen s)
                else if expectlen = 1 then ucast (s ! 0)
                else let uv = (if expectlen \<ge> 5 then uv OR NEXT_ACCUMULATION s full_shift 4 else uv);
                         uv = (if expectlen \<ge> 4 then uv OR NEXT_ACCUMULATION s full_shift 3 else uv);
                         uv = (if expectlen \<ge> 3 then uv OR NEXT_ACCUMULATION s full_shift 2 else uv);
                         uv = uv OR NEXT_ACCUMULATION s full_shift 1
                     in uv OR push_bit full_shift (ucast (s ! 0) AND UTF_START_MASK expectlen))
      in (uv, expectlen))"

section \<open>Comparing with bytes\<close>

text \<open>
  The comparison of a string of bytes with one of UTF-8. The loop ends with a character that is
  no Latin-1 character, with a malformed one or with a difference.
\<close>

fun bytes_cmp_utf8 :: "u8 list \<Rightarrow> u8 list \<Rightarrow> int" where
  "bytes_cmp_utf8 (b # bs) (c # us) =
     (if UTF8_IS_INVARIANT c
      then if b \<noteq> c then if b < c then - 2 else 2 else bytes_cmp_utf8 bs us
      else if UTF8_IS_DOWNGRADEABLE_START c
      then (case us of
              c1 # us' \<Rightarrow>
                (if UTF8_IS_CONTINUATION c1
                 then let c = EIGHT_BIT_UTF8_TO_NATIVE c c1
                      in if b \<noteq> c then if b < c then - 2 else 2 else bytes_cmp_utf8 bs us'
                 else - 2)
            | [] \<Rightarrow> - 2)
      else - 2)"
| "bytes_cmp_utf8 [] [] = 0"
| "bytes_cmp_utf8 (b # bs) [] = 1"
| "bytes_cmp_utf8 [] (c # us) = - 1"

end
