(* ===== verification/Sort_Op.thy ===== *)
theory Sort_Op
  imports Sort_Main Utf8 Complex_Main
begin

text \<open>
  The operator \<open>sort\<close> of \<open>src/pp_sort.c\<close> and the comparisons it hands to the merge sort, with
  the numeric comparison of \<open>src/pp.c\<close> and the string comparison of \<open>src/sv.c\<close>.

  A \<open>scalar\<close> holds the flags and the values of an SV that the comparisons read. The conversions
  of one representation into another, overloading, the locale's comparison and the comparison
  sub of the program are fields of a \<open>runtime\<close>, a parameter. The three conversions return the value
  and the SV as they leave it. The cached value a comparison leaves in an SV is not carried from
  one comparison to the next.
\<close>

section \<open>Scalars\<close>

text \<open>A double: what the comparison operators of C see of it.\<close>

datatype nv = NaN | NInf | Fin rat | PInf

fun nv_less :: "nv \<Rightarrow> nv \<Rightarrow> bool" where
  "nv_less (Fin x) (Fin y) = (x < y)"
| "nv_less NInf y = (y \<noteq> NaN \<and> y \<noteq> NInf)"
| "nv_less x PInf = (x \<noteq> NaN \<and> x \<noteq> PInf)"
| "nv_less _ _ = False"

definition nv_eq :: "nv \<Rightarrow> nv \<Rightarrow> bool" where
  "nv_eq x y \<longleftrightarrow> x = y \<and> x \<noteq> NaN"

record scalar =
  SvROK :: bool
  SvIOK :: bool
  SvIOKp :: bool
  SvIsUV :: bool
  SvNOK :: bool
  SvPOK :: bool
  SvAMAGIC :: bool
  SvUTF8 :: bool
  SvIVX :: "64 word"
  SvNVX :: nv
  SvPVX :: "8 word list"

datatype amg = ncmp_amg | scmp_amg

record runtime =
  sv_2iv :: "scalar \<Rightarrow> 64 word \<times> scalar"
  sv_2nv :: "scalar \<Rightarrow> nv \<times> scalar"
  sv_2pv :: "scalar \<Rightarrow> 8 word list \<times> scalar"
  sv_2num :: "scalar \<Rightarrow> scalar"
  amagic_call :: "scalar \<Rightarrow> scalar \<Rightarrow> amg \<Rightarrow> scalar option"
  sv_cmp_locale :: "scalar \<Rightarrow> scalar \<Rightarrow> int"
  run_sortcop :: "scalar \<Rightarrow> scalar \<Rightarrow> 64 word"
  IN_BYTES :: bool
  IN_LC_COLLATE :: bool

definition SvIV :: "runtime \<Rightarrow> scalar \<Rightarrow> 64 word" where
  "SvIV rt sv = (if SvIOK sv then SvIVX sv else fst (sv_2iv rt sv))"

definition SvNV :: "runtime \<Rightarrow> scalar \<Rightarrow> nv" where
  "SvNV rt sv = (if SvNOK sv then SvNVX sv else fst (sv_2nv rt sv))"

text \<open>\<open>SvPV_flags_const\<close>: the bytes, and the SV whose \<open>SvUTF8\<close> is then read.\<close>

definition SvPV :: "runtime \<Rightarrow> scalar \<Rightarrow> 8 word list \<times> scalar" where
  "SvPV rt sv = (if SvPOK sv then (SvPVX sv, sv) else sv_2pv rt sv)"

definition SvIV_please_nomg :: "runtime \<Rightarrow> scalar \<Rightarrow> bool \<times> scalar" where
  "SvIV_please_nomg rt sv =
     (if \<not> (SvIOK sv \<or> SvIOKp sv) \<and> (SvNOK sv \<or> SvPOK sv)
      then let sv = snd (sv_2iv rt sv) in (SvIOK sv, sv)
      else (SvIOK sv, sv))"

section \<open>Comparisons\<close>

text \<open>The value \<open>(x > y) - (x < y)\<close> of the source.\<close>

definition three_way :: "'a::linorder \<Rightarrow> 'a \<Rightarrow> int" where
  "three_way x y = (if x > y then 1 else 0) - (if x < y then 1 else 0)"

definition do_ncmp :: "runtime \<Rightarrow> scalar \<Rightarrow> scalar \<Rightarrow> int" where
  "do_ncmp rt left right =
     (let (rok, right) = SvIV_please_nomg rt right;
          (lok, left) = (if rok then SvIV_please_nomg rt left else (False, left))
      in if rok \<and> lok
         then if \<not> SvIsUV left
              then if \<not> SvIsUV right then three_way (sint (SvIVX left)) (sint (SvIVX right))
                   else if sint (SvIVX left) < 0 then - 1
                   else three_way (uint (SvIVX left)) (uint (SvIVX right))
              else if SvIsUV right then three_way (uint (SvIVX left)) (uint (SvIVX right))
              else if sint (SvIVX right) < 0 then 1
              else three_way (uint (SvIVX left)) (uint (SvIVX right))
         else let lnv = SvNV rt left; rnv = SvNV rt right
              in if nv_less lnv rnv then - 1
                 else if nv_less rnv lnv then 1
                 else if nv_eq lnv rnv then 0
                 else 2)"

definition S_sv_ncmp :: "runtime \<Rightarrow> scalar \<Rightarrow> scalar \<Rightarrow> int" where
  "S_sv_ncmp rt a b =
     (let a = (if SvROK a then sv_2num rt a else a);
          b = (if SvROK b then sv_2num rt b else b);
          cmp = do_ncmp rt a b
      in if cmp = 2 then 0 else cmp)"

definition S_sv_ncmp_desc :: "runtime \<Rightarrow> scalar \<Rightarrow> scalar \<Rightarrow> int" where
  "S_sv_ncmp_desc rt a b = - S_sv_ncmp rt a b"

definition S_sv_i_ncmp :: "runtime \<Rightarrow> scalar \<Rightarrow> scalar \<Rightarrow> int" where
  "S_sv_i_ncmp rt a b =
     (let iv1 = sint (SvIV rt a); iv2 = sint (SvIV rt b)
      in if iv1 < iv2 then - 1 else if iv1 > iv2 then 1 else 0)"

definition S_sv_i_ncmp_desc :: "runtime \<Rightarrow> scalar \<Rightarrow> scalar \<Rightarrow> int" where
  "S_sv_i_ncmp_desc rt a b = - S_sv_i_ncmp rt a b"

definition tryCALL_AMAGICbin :: "runtime \<Rightarrow> scalar \<Rightarrow> scalar \<Rightarrow> amg \<Rightarrow> scalar option" where
  "tryCALL_AMAGICbin rt left right meth =
     (if SvAMAGIC left \<or> SvAMAGIC right then amagic_call rt left right meth else None)"

definition SORT_NORMAL_RETURN_VALUE :: "int \<Rightarrow> int" where
  "SORT_NORMAL_RETURN_VALUE i = (if i > 0 then 1 else if i \<noteq> 0 then - 1 else 0)"

definition SORT_NORMAL_RETURN_VALUE_nv :: "nv \<Rightarrow> int" where
  "SORT_NORMAL_RETURN_VALUE_nv d = (if nv_less (Fin 0) d then 1 else if \<not> nv_eq d (Fin 0) then - 1 else 0)"

text \<open>
  What a comparison makes of the value an overloaded operator returned: the four functions
  \<open>S_amagic_*\<close> share these lines. The integer goes through a variable of type \<open>I32\<close>.
\<close>

definition amagic_value :: "runtime \<Rightarrow> scalar \<Rightarrow> int" where
  "amagic_value rt tmpsv =
     (if SvIOK tmpsv
      then let i = (ucast (SvIVX tmpsv) :: 32 word) in SORT_NORMAL_RETURN_VALUE (sint i)
      else SORT_NORMAL_RETURN_VALUE_nv (SvNV rt tmpsv))"

definition S_amagic_ncmp :: "runtime \<Rightarrow> scalar \<Rightarrow> scalar \<Rightarrow> int" where
  "S_amagic_ncmp rt a b =
     (case tryCALL_AMAGICbin rt a b ncmp_amg of
        Some tmpsv \<Rightarrow> amagic_value rt tmpsv | None \<Rightarrow> S_sv_ncmp rt a b)"

definition S_amagic_ncmp_desc :: "runtime \<Rightarrow> scalar \<Rightarrow> scalar \<Rightarrow> int" where
  "S_amagic_ncmp_desc rt a b = - S_amagic_ncmp rt a b"

definition S_amagic_i_ncmp :: "runtime \<Rightarrow> scalar \<Rightarrow> scalar \<Rightarrow> int" where
  "S_amagic_i_ncmp rt a b =
     (case tryCALL_AMAGICbin rt a b ncmp_amg of
        Some tmpsv \<Rightarrow> amagic_value rt tmpsv | None \<Rightarrow> S_sv_i_ncmp rt a b)"

definition S_amagic_i_ncmp_desc :: "runtime \<Rightarrow> scalar \<Rightarrow> scalar \<Rightarrow> int" where
  "S_amagic_i_ncmp_desc rt a b = - S_amagic_i_ncmp rt a b"

text \<open>\<open>memcmp\<close> of the C library on two lists of the same length.\<close>

fun memcmp :: "8 word list \<Rightarrow> 8 word list \<Rightarrow> int" where
  "memcmp (x # xs) (y # ys) = (if x = y then memcmp xs ys else if x < y then - 1 else 1)"
| "memcmp _ _ = 0"

definition sv_cmp :: "runtime \<Rightarrow> scalar \<Rightarrow> scalar \<Rightarrow> int" where
  "sv_cmp rt sv1 sv2 =
     (let (pv1, sv1) = SvPV rt sv1; cur1 = length pv1;
          (pv2, sv2) = SvPV rt sv2; cur2 = length pv2
      in if cur1 \<noteq> 0 \<and> cur2 \<noteq> 0 \<and> SvUTF8 sv1 \<noteq> SvUTF8 sv2 \<and> \<not> IN_BYTES rt
         then let retval = (if SvUTF8 sv1 then - bytes_cmp_utf8 pv2 pv1 else bytes_cmp_utf8 pv1 pv2)
              in if retval \<noteq> 0 then if retval < 0 then - 1 else 1 else 0
         else if cur1 = 0 then if cur2 \<noteq> 0 then - 1 else 0
         else if cur2 = 0 then 1
         else let shortest_len = (if cur1 < cur2 then cur1 else cur2);
                  retval = memcmp (take shortest_len pv1) (take shortest_len pv2)
              in if retval \<noteq> 0 then if retval < 0 then - 1 else 1
                 else if cur1 = cur2 then 0
                 else if cur1 < cur2 then - 1 else 1)"

definition S_cmp_desc :: "runtime \<Rightarrow> scalar \<Rightarrow> scalar \<Rightarrow> int" where
  "S_cmp_desc rt str1 str2 = - sv_cmp rt str1 str2"

definition S_amagic_cmp :: "runtime \<Rightarrow> scalar \<Rightarrow> scalar \<Rightarrow> int" where
  "S_amagic_cmp rt str1 str2 =
     (case tryCALL_AMAGICbin rt str1 str2 scmp_amg of
        Some tmpsv \<Rightarrow> amagic_value rt tmpsv | None \<Rightarrow> sv_cmp rt str1 str2)"

definition S_amagic_cmp_desc :: "runtime \<Rightarrow> scalar \<Rightarrow> scalar \<Rightarrow> int" where
  "S_amagic_cmp_desc rt str1 str2 = - S_amagic_cmp rt str1 str2"

definition S_amagic_cmp_locale :: "runtime \<Rightarrow> scalar \<Rightarrow> scalar \<Rightarrow> int" where
  "S_amagic_cmp_locale rt str1 str2 =
     (case tryCALL_AMAGICbin rt str1 str2 scmp_amg of
        Some tmpsv \<Rightarrow> amagic_value rt tmpsv | None \<Rightarrow> sv_cmp_locale rt str1 str2)"

definition S_amagic_cmp_locale_desc :: "runtime \<Rightarrow> scalar \<Rightarrow> scalar \<Rightarrow> int" where
  "S_amagic_cmp_locale_desc rt str1 str2 = - S_amagic_cmp_locale rt str1 str2"

definition S_cmp_locale_desc :: "runtime \<Rightarrow> scalar \<Rightarrow> scalar \<Rightarrow> int" where
  "S_cmp_locale_desc rt str1 str2 = - sv_cmp_locale rt str1 str2"

text \<open>The sign of what the comparison sub returned: \<open>S_sortcv\<close> and its two variants.\<close>

definition S_sortcv :: "runtime \<Rightarrow> scalar \<Rightarrow> scalar \<Rightarrow> int" where
  "S_sortcv rt a b =
     (let iv = sint (run_sortcop rt a b) in if iv > 0 then 1 else if iv < 0 then - 1 else 0)"

section \<open>The operator\<close>

record sort_op =
  OPpSORT_NUMERIC :: bool
  OPpSORT_INTEGER :: bool
  OPpSORT_DESCEND :: bool
  OPpSORT_REVERSE :: bool
  PL_sortcop :: bool

definition SvSIOK :: "scalar \<Rightarrow> bool" where
  "SvSIOK sv \<longleftrightarrow> SvIOK sv \<and> \<not> SvIsUV sv"

definition SvNSIOK :: "scalar \<Rightarrow> bool" where
  "SvNSIOK sv \<longleftrightarrow> SvNOK sv \<or> (SvIOK sv \<and> \<not> SvIsUV sv)"

text \<open>The conversion of one element, and whether it is a signed integer.\<close>

definition sort_convert :: "runtime \<Rightarrow> sort_op \<Rightarrow> scalar \<Rightarrow> scalar" where
  "sort_convert rt priv sv =
     (if PL_sortcop priv then sv
      else if OPpSORT_NUMERIC priv
      then if OPpSORT_INTEGER priv then if \<not> SvIOK sv then snd (sv_2iv rt sv) else sv
           else if \<not> SvNSIOK sv then snd (sv_2nv rt sv) else sv
      else if \<not> SvPOK sv then snd (sv_2pv rt sv) else sv)"

text \<open>
  The shuffle down of the stack: the elements without the nulls, each converted, and the two
  flags \<open>all_SIVs\<close> and \<open>overloading\<close>.
\<close>

fun sort_items :: "runtime \<Rightarrow> sort_op \<Rightarrow> scalar option list \<Rightarrow> bool \<Rightarrow> bool \<Rightarrow> scalar list \<times> bool \<times> bool" where
  "sort_items rt priv [] all_SIVs overloading = ([], all_SIVs, overloading)"
| "sort_items rt priv (None # items) all_SIVs overloading = sort_items rt priv items all_SIVs overloading"
| "sort_items rt priv (Some sv # items) all_SIVs overloading =
     (let sv = sort_convert rt priv sv;
          all_SIVs =
            (if \<not> PL_sortcop priv \<and> OPpSORT_NUMERIC priv \<and> \<not> OPpSORT_INTEGER priv \<and> all_SIVs \<and> \<not> SvSIOK sv
             then False else all_SIVs);
          overloading = (if \<not> PL_sortcop priv \<and> SvAMAGIC sv then True else overloading);
          (svs, all_SIVs, overloading) = sort_items rt priv items all_SIVs overloading
      in (sv # svs, all_SIVs, overloading))"

text \<open>The choice of the comparison.\<close>

definition sort_compare :: "runtime \<Rightarrow> sort_op \<Rightarrow> bool \<Rightarrow> bool \<Rightarrow> scalar \<Rightarrow> scalar \<Rightarrow> int" where
  "sort_compare rt priv all_SIVs overloading =
     (if PL_sortcop priv then S_sortcv rt
      else if OPpSORT_NUMERIC priv
      then if OPpSORT_INTEGER priv \<or> all_SIVs
           then if overloading
                then if OPpSORT_DESCEND priv then S_amagic_i_ncmp_desc rt else S_amagic_i_ncmp rt
                else if OPpSORT_DESCEND priv then S_sv_i_ncmp_desc rt else S_sv_i_ncmp rt
           else if overloading
                then if OPpSORT_DESCEND priv then S_amagic_ncmp_desc rt else S_amagic_ncmp rt
                else if OPpSORT_DESCEND priv then S_sv_ncmp_desc rt else S_sv_ncmp rt
      else if IN_LC_COLLATE rt
      then if overloading
           then if OPpSORT_DESCEND priv then S_amagic_cmp_locale_desc rt else S_amagic_cmp_locale rt
           else if OPpSORT_DESCEND priv then S_cmp_locale_desc rt else sv_cmp_locale rt
      else if overloading
           then if OPpSORT_DESCEND priv then S_amagic_cmp_desc rt else S_amagic_cmp rt
           else if OPpSORT_DESCEND priv then S_cmp_desc rt else sv_cmp rt)"

text \<open>The reversal in place, from both ends at once.\<close>

function sort_reverse :: "scalar list \<Rightarrow> nat \<Rightarrow> nat \<Rightarrow> scalar list" where
  "sort_reverse svs start q =
     (if start < q then sort_reverse (svs[start := svs ! q, q := svs ! start]) (start + 1) (q - 1) else svs)"
  by pat_completeness auto
termination by (relation "measure (\<lambda>(svs, start, q). q - start)") auto

declare sort_reverse.simps [simp del]

text \<open>
  The list operator in list context, up to its result on the stack; \<open>aux\<close> and \<open>stack\<close> are
  the memory the merge sort works in, as it finds it.
\<close>

definition pp_sort :: "runtime \<Rightarrow> sort_op \<Rightarrow> scalar cell list \<Rightarrow> off_runs list \<Rightarrow> scalar option list
    \<Rightarrow> scalar list option" where
  "pp_sort rt priv aux stack items =
     (let (svs, all_SIVs, overloading) = sort_items rt priv items True False
      in if length svs > 1
         then map_option (\<lambda>svs. if OPpSORT_REVERSE priv then sort_reverse svs 0 (length svs - 1) else svs)
                (sortsv_flags (sort_compare rt priv all_SIVs overloading) aux stack svs)
         else Some svs)"

end
