(* ===== verification/Sort_Num.thy ===== *)
theory Sort_Num
  imports Sort_Op
begin

text \<open>
  The comparisons of \<open>Sort_Op\<close> as comparators, and the operator on integers.

  \<^item> \<open>comparator_key\<close>: a comparison by an integer key orders its elements; the interpretations
    are the integer comparisons of the code and their reverses.
  \<^item> \<open>do_ncmp_integers\<close>: the four cases of \<open>do_ncmp\<close> compare the values.
  \<^item> \<open>sort_by_key\<close>: the merge sort with such a comparison is the stable sort of the library.
\<close>

section \<open>Integer comparisons\<close>

lemma three_way_sgn: "three_way (x::int) y = sgn (x - y)"
  by (simp add: three_way_def)

lemma comparator_key:
  assumes "\<And>x y. x \<in> A \<Longrightarrow> y \<in> A \<Longrightarrow> cmp x y = sgn (f x - f y :: int)"
  shows "comparator A cmp"
  by unfold_locales (auto simp: assms sgn_if split: if_splits)

text \<open>The value of an integer scalar, signed or unsigned.\<close>

definition int_value :: "scalar \<Rightarrow> int" where
  "int_value sv = (if SvIsUV sv then uint (SvIVX sv) else sint (SvIVX sv))"

definition integer :: "scalar \<Rightarrow> bool" where
  "integer sv \<longleftrightarrow> SvIOK sv \<and> \<not> SvROK sv \<and> \<not> SvAMAGIC sv"

lemma uint_of_nonneg: "0 \<le> sint (w :: 64 word) \<Longrightarrow> uint w = sint w"
  using sint_less [of w] by (subst uint_sint) (simp add: take_bit_int_eq_self)

lemma sint_uint_less: "sint x < 0 \<Longrightarrow> sint x < uint (y :: 64 word)" "sint x < 0 \<Longrightarrow> sint x \<le> uint y"
  by (rule less_le_trans [OF _ uint_ge_0], assumption) (rule order_trans [OF _ uint_ge_0], simp)

lemma do_ncmp_integers:
  assumes "SvIOK left" "SvIOK right"
  shows "do_ncmp rt left right = sgn (int_value left - int_value right)"
  using assms uint_of_nonneg [of "SvIVX left"] uint_of_nonneg [of "SvIVX right"]
    sint_uint_less [of "SvIVX left" "SvIVX right"] sint_uint_less [of "SvIVX right" "SvIVX left"]
  by (auto simp: do_ncmp_def SvIV_please_nomg_def int_value_def three_way_sgn sgn_if)

lemma S_sv_ncmp_integers:
  "integer a \<Longrightarrow> integer b \<Longrightarrow> S_sv_ncmp rt a b = sgn (int_value a - int_value b)"
  by (simp add: S_sv_ncmp_def integer_def do_ncmp_integers sgn_if)

lemma S_sv_i_ncmp_key: "S_sv_i_ncmp rt a b = sgn (sint (SvIV rt a) - sint (SvIV rt b))"
  by (simp add: S_sv_i_ncmp_def Let_def)

lemma S_sv_i_ncmp_integers:
  assumes "integer a" "integer b" "SvSIOK a" "SvSIOK b"
  shows "S_sv_i_ncmp rt a b = sgn (int_value a - int_value b)"
  using assms by (simp add: S_sv_i_ncmp_key integer_def int_value_def SvIV_def SvSIOK_def)

interpretation i_ncmp: comparator UNIV "S_sv_i_ncmp rt" for rt
  by (rule comparator_key) (rule S_sv_i_ncmp_key)

interpretation i_ncmp_desc: comparator UNIV "S_sv_i_ncmp_desc rt" for rt
  by (rule comparator_key [where f = "\<lambda>sv. - sint (SvIV rt sv)"]) (simp add: S_sv_i_ncmp_desc_def S_sv_i_ncmp_key sgn_if)

interpretation ncmp: comparator "Collect integer" "S_sv_ncmp rt" for rt
  by (rule comparator_key [where f = int_value]) (simp add: S_sv_ncmp_integers)

section \<open>Sorting by a key\<close>

lemma sort_by_key:
  assumes key: "\<And>x y. x \<in> set base \<Longrightarrow> y \<in> set base \<Longrightarrow> cmp x y = sgn (f x - f y :: int)"
    and "length base \<le> length aux" "length stack = 60" "length base \<le> 2 ^ 59"
  shows "sortsv_flags cmp aux stack base = Some (sort_key f base)"
proof -
  have "comparator (set base) cmp" using key by (rule comparator_key)
  then obtain ys where ys: "sortsv_flags cmp aux stack base = Some ys" "mset ys = mset base"
      "ordered (set base) cmp ys" "same_order (set base) cmp base ys"
    using sortsv_flags_ok [OF assms(2-4)] by blast
  have set: "set ys = set base" using ys(2) by (rule mset_eq_setD)
  have "sorted (map f ys)"
    using ys(3) unfolding ordered_def sorted_map
    by (elim conjE sorted_wrt_mono_rel [rotated]) (auto simp: set key sgn_if split: if_splits)
  moreover have "filter (\<lambda>y. f x = f y) ys = filter (\<lambda>y. f x = f y) base" if "x \<in> set ys" for x
  proof -
    have "filter (\<lambda>y. cmp x y = 0) zs = filter (\<lambda>y. f x = f y) zs" if "set zs = set base" for zs
      using that \<open>x \<in> set ys\<close> by (intro filter_cong) (auto simp: set key sgn_0_0)
    note this [OF set] this [OF refl]
    moreover have "filter (\<lambda>y. cmp x y = 0) ys = filter (\<lambda>y. cmp x y = 0) base"
      using ys(4) that set by (simp add: same_order_def)
    ultimately show ?thesis by simp
  qed
  ultimately show ?thesis using ys(1,2) properties_for_sort_key by metis
qed

section \<open>The operator\<close>

lemma sort_reverse_ok: "sort_reverse (xs @ g @ ys) (length xs) (length xs + length g - 1) = xs @ rev g @ ys"
proof (induction "length g" arbitrary: xs g ys rule: less_induct)
  case less
  show ?case
  proof (cases "length g < 2")
    case True
    then have "rev g = g" by (cases g) auto
    with True show ?thesis by (subst sort_reverse.simps) auto
  next
    case False
    then obtain a g1 where g1: "g = a # g1" "g1 \<noteq> []" by (cases g) auto
    then obtain m c where g: "g = a # m @ [c]" by (metis rev_exhaust)
    have "sort_reverse (xs @ g @ ys) (length xs) (length xs + length g - 1)
        = sort_reverse (xs @ c # m @ a # ys) (length xs + 1) (length xs + length m)"
      by (subst sort_reverse.simps) (simp add: g nth_append list_update_append)
    also have "\<dots> = sort_reverse ((xs @ [c]) @ m @ (a # ys)) (length (xs @ [c])) (length (xs @ [c]) + length m - 1)"
      by simp
    also have "\<dots> = (xs @ [c]) @ rev m @ (a # ys)" by (rule less.hyps) (simp add: g)
    finally show ?thesis by (simp add: g)
  qed
qed

lemma sort_reverse_rev: "sort_reverse svs 0 (length svs - 1) = rev svs"
  using sort_reverse_ok [of "[]" svs "[]"] by simp

text \<open>The elements that are there, and what the first pass makes of integers.\<close>

definition given :: "'a option list \<Rightarrow> 'a list" where
  "given items = map the (filter (\<lambda>i. i \<noteq> None) items)"

lemma given_simps [simp]: "given [] = []" "given (None # items) = given items" "given (Some x # items) = x # given items"
  by (simp_all add: given_def)

lemma length_given: "length (given items) \<le> length items"
  by (simp add: given_def length_filter_le)

lemma sort_items_given: "fst (sort_items rt priv items a v) = map (sort_convert rt priv) (given items)"
  by (induction rt priv items a v rule: sort_items.induct) (simp_all add: Let_def split_beta)

lemma sort_items_integers:
  assumes "PL_sortcop priv = False" "OPpSORT_NUMERIC priv" "\<And>sv. sv \<in> set (given items) \<Longrightarrow> integer (sort_convert rt priv sv)"
  shows "snd (sort_items rt priv items a v)
    = (a \<and> (OPpSORT_INTEGER priv \<or> (\<forall>sv \<in> set (given items). SvSIOK (sort_convert rt priv sv))), v)"
  using assms(3)
proof (induction items arbitrary: a v)
  case (Cons item items)
  then show ?case using assms(1,2) by (cases item) (auto simp: Let_def split_beta integer_def)
qed simp

text \<open>The key by which the operator orders integers.\<close>

definition num_key :: "sort_op \<Rightarrow> scalar \<Rightarrow> int" where
  "num_key priv sv =
     (if OPpSORT_DESCEND priv then - 1 else 1) * (if OPpSORT_INTEGER priv then sint (SvIVX sv) else int_value sv)"

lemma sort_compare_integers:
  assumes "\<not> PL_sortcop priv" "OPpSORT_NUMERIC priv" "integer a" "integer b"
    "all_SIVs \<Longrightarrow> \<not> OPpSORT_INTEGER priv \<Longrightarrow> SvSIOK a \<and> SvSIOK b"
  shows "sort_compare rt priv all_SIVs False a b = sgn (num_key priv a - num_key priv b)"
proof -
  consider "OPpSORT_INTEGER priv" | "\<not> OPpSORT_INTEGER priv" "all_SIVs" | "\<not> OPpSORT_INTEGER priv" "\<not> all_SIVs" by blast
  then have "(if OPpSORT_INTEGER priv \<or> all_SIVs then S_sv_i_ncmp rt a b else S_sv_ncmp rt a b)
      = sgn ((if OPpSORT_INTEGER priv then sint (SvIVX a) else int_value a)
          - (if OPpSORT_INTEGER priv then sint (SvIVX b) else int_value b))"
  proof cases
    case 1
    with assms(3,4) show ?thesis by (simp add: S_sv_i_ncmp_key SvIV_def integer_def)
  next
    case 2
    with assms(3-5) show ?thesis by (simp add: S_sv_i_ncmp_integers)
  next
    case 3
    with assms(3,4) show ?thesis by (simp add: S_sv_ncmp_integers)
  qed
  then show ?thesis using assms(1,2)
    by (auto simp: sort_compare_def num_key_def S_sv_i_ncmp_desc_def S_sv_ncmp_desc_def sgn_if split: if_splits)
qed

end
