(* ===== verification/Utf8_Codec.thy ===== *)
theory Utf8_Codec
  imports Utf8
begin

text \<open>
  The encoding as base-64 digits.
\<close>

section \<open>Bytes as numbers\<close>

definition cont :: "u64 \<Rightarrow> u8" where
  "cont w = ucast ((w AND UTF_CONTINUATION_MASK) OR UTF_CONTINUATION_MARK)"

lemma mask_6: "UTF_CONTINUATION_MASK = mask 6"
  by (simp add: UTF_CONTINUATION_MASK_def mask_eq_exp_minus_1)

lemma bit_mark: "bit UTF_CONTINUATION_MARK n \<longleftrightarrow> n = 7"
proof -
  have "bit (push_bit 7 (1 :: u64)) n \<longleftrightarrow> n = 7" by (subst bit_push_bit_iff) (auto simp: bit_1_iff)
  then show ?thesis by (simp add: UTF_CONTINUATION_MARK_def)
qed

lemma unat_and_mask: "unat (w AND mask n) = unat w mod 2 ^ n"
  by (subst take_bit_eq_mask [symmetric]) (metis take_bit_eq_mod unsigned_take_bit_eq)

lemma unat_cont: "unat (cont w) = 128 + unat w mod 64"
proof -
  have "(w AND mask 6) OR UTF_CONTINUATION_MARK = (w AND mask 6) + UTF_CONTINUATION_MARK"
    by (rule disjunctive_add [symmetric]) (auto simp: bit_simps bit_mark)
  moreover have "unat ((w AND mask 6) + UTF_CONTINUATION_MARK) = unat w mod 64 + 128"
    by (subst unat_add_lem [THEN iffD1]) (auto simp: unat_and_mask UTF_CONTINUATION_MARK_def)
  ultimately show ?thesis
    by (simp add: cont_def mask_6 unsigned_ucast_eq take_bit_eq_mod)
qed

lemma cont_bits: "ucast (cont w) AND UTF_CONTINUATION_MASK = w AND mask 6"
  unfolding cont_def mask_6 by (rule bit_word_eqI) (auto simp: bit_simps bit_mark)

lemma trailing_bytes_eq:
  "trailing_bytes n uv d = (drop_bit (6 * n) uv, map (\<lambda>i. cont (drop_bit (6 * (n - 1 - i)) uv)) [0..<n] @ d)"
proof (induction n arbitrary: uv d)
  case (Suc n)
  have "map (\<lambda>i. cont (drop_bit (6 * (n - 1 - i)) (drop_bit 6 uv))) [0..<n]
      = map (\<lambda>i. cont (drop_bit (6 * (n - i)) uv)) [0..<n]"
    by (rule map_cong) (auto simp: drop_bit_drop_bit Suc_diff_Suc algebra_simps)
  moreover have "drop_bit (6 * n) (drop_bit 6 uv) = drop_bit (6 * Suc n) uv" by (simp add: drop_bit_drop_bit ac_simps)
  ultimately show ?case by (simp add: Suc cont_def [symmetric])
qed simp

section \<open>The length of a character\<close>

lemma msbit_eq:
  assumes "2 ^ k \<le> n" "n < 2 ^ Suc k"
  shows "msbit n = k"
  using assms
proof (induction k arbitrary: n)
  case 0
  then show ?case by (subst msbit.simps) simp
next
  case (Suc k)
  have "2 ^ k \<le> n div 2" "n div 2 < 2 ^ Suc k" using Suc.prems by auto
  moreover have "\<not> n < 2" using order_trans [OF _ Suc.prems(1), of 2] by simp
  ultimately show ?case using Suc.IH [of "n div 2"] by (subst msbit.simps) simp
qed

lemma msbit_bounds: "0 < n \<Longrightarrow> 2 ^ msbit n \<le> n \<and> n < 2 ^ Suc (msbit n)"
proof (induction n rule: msbit.induct)
  case (1 n)
  show ?case
  proof (cases "n < 2")
    case True
    with 1 show ?thesis by (subst (1 2) msbit.simps) simp
  next
    case False
    with 1 have "2 ^ msbit (n div 2) \<le> n div 2 \<and> n div 2 < 2 ^ Suc (msbit (n div 2))" by simp
    moreover have "msbit n = Suc (msbit (n div 2))" using False by (subst msbit.simps) simp
    ultimately show ?thesis by auto
  qed
qed

text \<open>The number of bits a character of a length can hold.\<close>

definition skip_bits :: "nat \<Rightarrow> nat" where
  "skip_bits n = (if n = 1 then 7 else if n \<le> 7 then 5 * n + 1 else 64)"

lemma msbit_less:
  assumes "0 < n"
  shows "msbit n < k \<longleftrightarrow> n < 2 ^ k"
proof -
  have "n < 2 ^ k" if "Suc (msbit n) \<le> k"
    using msbit_bounds [OF assms] power_increasing [OF that, of "2::nat"] by simp
  moreover have "\<not> n < 2 ^ k" if "k \<le> msbit n"
    using msbit_bounds [OF assms] power_increasing [OF that, of "2::nat"] by linarith
  ultimately show ?thesis by (metis Suc_leI not_less)
qed

lemma OFFUNISKIP_ranges:
  "OFFUNISKIP uv =
     (if unat uv < 2 ^ 7 then 1 else if unat uv < 2 ^ 11 then 2 else if unat uv < 2 ^ 16 then 3
      else if unat uv < 2 ^ 21 then 4 else if unat uv < 2 ^ 26 then 5 else if unat uv < 2 ^ 31 then 6
      else if unat uv < 2 ^ 36 then 7 else 13)"
proof -
  have lo: "uv < 0x80 \<longleftrightarrow> unat uv < 2 ^ 7" and hi: "uv > 2 ^ (6 * 6) - 1 \<longleftrightarrow> \<not> unat uv < 2 ^ 36"
    by (simp_all add: word_less_nat_alt) linarith
  show ?thesis
  proof (cases "unat uv < 2 ^ 7 \<or> \<not> unat uv < 2 ^ 36")
    case True
    then show ?thesis unfolding OFFUNISKIP_def lo hi UTF8_MAXBYTES_def by auto
  next
    case False
    then have pos: "0 < unat uv" by simp
    define m where "m = msbit_pos uv"
    have m: "m < k \<longleftrightarrow> unat uv < 2 ^ k" for k
      unfolding m_def msbit_pos_def by (rule msbit_less [OF pos])
    have "OFFUNISKIP uv = (m + 4) div 5"
      using False unfolding OFFUNISKIP_def lo hi UNISKIP_BY_MSB_def m_def by simp
    then show ?thesis using False unfolding m [symmetric] by auto
  qed
qed

section \<open>The first byte\<close>

lemma START_MASK: "UTF_START_MASK s = mask (8 - s)"
proof -
  have "UTF_START_MASK s = drop_bit s (mask 8)" by (simp add: UTF_START_MASK_def mask_eq_exp_minus_1)
  also have "\<dots> = mask (8 - s)" by (rule bit_word_eqI) (auto simp: bit_simps)
  finally show ?thesis .
qed

lemma START_MARK: "UTF_START_MARK s = NOT (mask (8 - s))"
proof -
  have "UTF_START_MARK s = NOT (drop_bit s (mask 8))" by (simp add: UTF_START_MARK_def mask_eq_exp_minus_1)
  also have "drop_bit s (mask 8) = (mask (8 - s) :: u8)" by (rule bit_word_eqI) (auto simp: bit_simps)
  finally show ?thesis .
qed

lemma unat_START_MARK: "unat (UTF_START_MARK s) = 256 - 2 ^ (8 - s)"
proof -
  have "8 - s = 0 \<or> 8 - s = 1 \<or> 8 - s = 2 \<or> 8 - s = 3 \<or> 8 - s = 4 \<or> 8 - s = 5 \<or> 8 - s = 6 \<or> 8 - s = 7 \<or> 8 - s = 8"
    by linarith
  then show ?thesis unfolding START_MARK
    by (elim disjE) (simp_all add: mask_eq_exp_minus_1 unsigned_minus_1_eq_mask)
qed

definition lead :: "nat \<Rightarrow> u64 \<Rightarrow> u8" where
  "lead s w = ucast ((w AND UTF_START_MASK s) OR ucast (UTF_START_MARK s))"

lemma unat_lead: "unat (lead s w) = unat w mod 2 ^ (8 - s) + (256 - 2 ^ (8 - s))"
proof -
  have "(w AND mask (8 - s)) OR ucast (UTF_START_MARK s) = (w AND mask (8 - s)) + ucast (UTF_START_MARK s)"
    unfolding START_MARK by (rule disjunctive_add [symmetric]) (auto simp: bit_simps)
  moreover have small: "unat w mod 2 ^ (8 - s) + (256 - 2 ^ (8 - s)) < 256"
  proof -
    have "unat w mod 2 ^ (8 - s) < 2 ^ (8 - s)" by simp
    moreover have "(2::nat) ^ (8 - s) \<le> 2 ^ 8" by (rule power_increasing) simp_all
    moreover have "(2::nat) ^ 8 = 256" by simp
    ultimately show ?thesis by linarith
  qed
  moreover have "unat (ucast (UTF_START_MARK s) :: u64) = 256 - 2 ^ (8 - s)"
    by (simp add: unsigned_ucast_eq unat_START_MARK take_bit_eq_mod)
  moreover from this small have "unat ((w AND mask (8 - s)) + ucast (UTF_START_MARK s))
      = unat w mod 2 ^ (8 - s) + (256 - 2 ^ (8 - s))"
    by (subst unat_add_lem [THEN iffD1]) (auto simp: unat_and_mask)
  ultimately show ?thesis
    by (simp add: lead_def START_MASK unsigned_ucast_eq take_bit_eq_mod)
qed

section \<open>A character as digits\<close>

lemma encode_bytes_eq:
  "encode_bytes s uv = lead s (drop_bit (6 * (s - 1)) uv)
     # map (\<lambda>i. cont (drop_bit (6 * (s - 1 - 1 - i)) uv)) [0..<s - 1]"
  by (simp add: encode_bytes_def trailing_bytes_eq lead_def)

definition utf8_char :: "u64 \<Rightarrow> u8 list" where
  "utf8_char uv = (if OFFUNISKIP uv = 1 then [ucast uv] else encode_bytes (OFFUNISKIP uv) uv)"

text \<open>\<open>k\<close> digits to base 64, most significant first.\<close>

definition digits :: "nat \<Rightarrow> nat \<Rightarrow> nat list" where
  "digits k n = map (\<lambda>i. n div 64 ^ (k - 1 - i) mod 64) [0..<k]"

lemma length_utf8_char: "length (utf8_char uv) = OFFUNISKIP uv"
  using OFFUNISKIP_ranges [of uv] by (auto simp: utf8_char_def encode_bytes_eq split: if_splits)

lemma unat_drop_bit: "unat (drop_bit n (w :: u64)) = unat w div 2 ^ n"
  by (metis drop_bit_eq_div unsigned_drop_bit_eq unsigned_take_bit_eq take_bit_word_eq_self order_refl)

lemma unat_conts:
  "map unat (map (\<lambda>i. cont (drop_bit (6 * (k - 1 - i)) uv)) [0..<k]) = map (\<lambda>d. 128 + d) (digits k (unat uv))"
  by (simp add: digits_def unat_cont unat_drop_bit power_mult)

text \<open>The first byte of a character of \<open>s\<close> bytes lies in a range of its own.\<close>

lemma lead_range:
  assumes "OFFUNISKIP uv = s" "s \<noteq> 1"
  shows "unat (hd (utf8_char uv)) = unat uv div 64 ^ (s - 1) + (256 - 2 ^ (8 - s))"
    "unat uv div 64 ^ (s - 1) < 2 ^ (7 - s)"
proof -
  have s: "s = 2 \<and> unat uv < 2 ^ 11 \<or> s = 3 \<and> unat uv < 2 ^ 16 \<or> s = 4 \<and> unat uv < 2 ^ 21
      \<or> s = 5 \<and> unat uv < 2 ^ 26 \<or> s = 6 \<and> unat uv < 2 ^ 31 \<or> s = 7 \<and> unat uv < 2 ^ 36 \<or> s = 13 \<and> unat uv < 2 ^ 64"
    using assms OFFUNISKIP_ranges [of uv] unsigned_less [of uv] by (auto split: if_splits)
  then show small: "unat uv div 64 ^ (s - 1) < 2 ^ (7 - s)"
    by (elim disjE) (auto simp: div_less_iff_less_mult)
  have "(2::nat) ^ (7 - s) \<le> 2 ^ (8 - s)" by (rule power_increasing) simp_all
  with small have "unat uv div 64 ^ (s - 1) < 2 ^ (8 - s)" by linarith
  then have "unat uv div 64 ^ (s - 1) mod 2 ^ (8 - s) = unat uv div 64 ^ (s - 1)" by simp
  then show "unat (hd (utf8_char uv)) = unat uv div 64 ^ (s - 1) + (256 - 2 ^ (8 - s))"
    using assms by (simp add: utf8_char_def encode_bytes_eq unat_lead unat_drop_bit power_mult)
qed

section \<open>Lexicographic comparison\<close>

fun lex_cmp :: "'a::linorder list \<Rightarrow> 'a list \<Rightarrow> int" where
  "lex_cmp [] [] = 0"
| "lex_cmp [] (y # ys) = - 1"
| "lex_cmp (x # xs) [] = 1"
| "lex_cmp (x # xs) (y # ys) = (if x < y then - 1 else if y < x then 1 else lex_cmp xs ys)"

lemma lex_cmp_refl [simp]: "lex_cmp xs xs = 0"
  by (induction xs) simp_all

lemma lex_cmp_swap: "lex_cmp ys xs = - lex_cmp xs ys"
  by (induction xs ys rule: lex_cmp.induct) auto

lemma lex_cmp_eq: "lex_cmp xs ys = 0 \<longleftrightarrow> xs = ys"
  by (induction xs ys rule: lex_cmp.induct) auto

lemma lex_cmp_values: "lex_cmp xs ys \<in> {- 1, 0, 1}"
  by (induction xs ys rule: lex_cmp.induct) auto

lemma lex_cmp_trans: "lex_cmp xs ys \<le> 0 \<Longrightarrow> lex_cmp ys zs \<le> 0 \<Longrightarrow> lex_cmp xs zs \<le> 0"
proof (induction xs ys arbitrary: zs rule: lex_cmp.induct)
  case 1
  then show ?case by simp
next
  case (2 y ys)
  then show ?case by (cases zs) auto
next
  case (3 x xs)
  then show ?case by simp
next
  case (4 x xs y ys)
  then show ?case by (cases zs) (auto split: if_splits)
qed

lemma lex_cmp_map:
  assumes "\<And>x y. f x < f y \<longleftrightarrow> x < y"
  shows "lex_cmp (map f xs) (map f ys) = lex_cmp xs ys"
  by (induction xs ys rule: lex_cmp.induct) (simp_all add: assms)

lemma lex_cmp_append:
  "length xs = length ys \<Longrightarrow> lex_cmp (xs @ us) (ys @ vs) = (if xs = ys then lex_cmp us vs else lex_cmp xs ys)"
  by (induction xs ys rule: list_induct2) auto

section \<open>The order of characters\<close>

lemma digits_Suc: "digits (Suc k) n = n div 64 ^ k mod 64 # digits k n"
  by (simp add: digits_def upt_conv_Cons map_Suc_upt [symmetric] comp_def del: upt_Suc)

lemma digits_order: "n < m \<Longrightarrow> lex_cmp (n div 64 ^ k # digits k n) (m div 64 ^ k # digits k m) = - 1"
proof (induction k)
  case 0
  then show ?case by (simp add: digits_def)
next
  case (Suc k)
  define a b where "a = n div 64 ^ k" and "b = m div 64 ^ k"
  have le: "a \<le> b" using Suc.prems unfolding a_def b_def by (simp add: div_le_mono)
  have div: "n div (64 * 64 ^ k) = a div 64" "m div (64 * 64 ^ k) = b div 64"
    unfolding a_def b_def by (metis div_mult2_eq mult.commute)+
  have ih: "lex_cmp (a # digits k n) (b # digits k m) = - 1" using Suc unfolding a_def b_def by simp
  have "a div 64 \<le> b div 64" using le by (rule div_le_mono)
  moreover have "a = 64 * (a div 64) + a mod 64" "b = 64 * (b div 64) + b mod 64" by simp_all
  ultimately consider "a div 64 < b div 64" | "a div 64 = b div 64" "a mod 64 < b mod 64" | "a = b"
    using le by linarith
  then show ?case
  proof cases
    case 3
    with ih show ?thesis by (simp add: div digits_Suc a_def [symmetric] b_def [symmetric])
  qed (simp_all add: div digits_Suc a_def [symmetric] b_def [symmetric])
qed

lemma OFFUNISKIP_mono: "u \<le> v \<Longrightarrow> OFFUNISKIP u \<le> OFFUNISKIP v"
proof -
  have sum: "OFFUNISKIP w = 1 + of_bool (2 ^ 7 \<le> unat w) + of_bool (2 ^ 11 \<le> unat w) + of_bool (2 ^ 16 \<le> unat w)
      + of_bool (2 ^ 21 \<le> unat w) + of_bool (2 ^ 26 \<le> unat w) + of_bool (2 ^ 31 \<le> unat w)
      + 6 * of_bool (2 ^ 36 \<le> unat w)" for w
    unfolding OFFUNISKIP_ranges by (simp split: if_splits)
  have step: "of_bool (c \<le> unat u) \<le> (of_bool (c \<le> unat v) :: nat)" if "u \<le> v" for c
    using that by (auto simp: word_le_nat_alt)
  show "OFFUNISKIP u \<le> OFFUNISKIP v" if "u \<le> v"
    unfolding sum by (intro add_mono mult_le_mono order_refl step that)
qed

lemma OFFUNISKIP_cases: "OFFUNISKIP uv \<in> {1, 2, 3, 4, 5, 6, 7, 13}"
  unfolding OFFUNISKIP_ranges by simp

lemma OFFUNISKIP_1: "OFFUNISKIP uv = 1 \<longleftrightarrow> unat uv < 128"
  unfolding OFFUNISKIP_ranges by simp

lemma utf8_char_Cons: "utf8_char uv = hd (utf8_char uv) # tl (utf8_char uv)"
proof -
  have "length (utf8_char uv) \<noteq> 0" unfolding length_utf8_char using OFFUNISKIP_cases [of uv] by fastforce
  then have "utf8_char uv \<noteq> []" by blast
  then show ?thesis by (rule hd_Cons_tl [symmetric])
qed

lemma lead_order:
  assumes "OFFUNISKIP u < OFFUNISKIP v"
  shows "hd (utf8_char u) < hd (utf8_char v)"
proof -
  have v: "OFFUNISKIP v \<noteq> 1" using assms OFFUNISKIP_cases [of u] by auto
  have hv: "256 - 2 ^ (8 - OFFUNISKIP v) \<le> unat (hd (utf8_char v))"
    using lead_range(1) [OF refl v] by simp
  have "unat (hd (utf8_char u)) < 256 - 2 ^ (8 - OFFUNISKIP v)"
  proof (cases "OFFUNISKIP u = 1")
    case True
    then have "unat u < 128" using OFFUNISKIP_1 by blast
    then have "unat (hd (utf8_char u)) < 128" using True by (simp add: utf8_char_def unsigned_ucast_eq take_bit_eq_mod)
    moreover have "(2::nat) ^ (8 - OFFUNISKIP v) \<le> 2 ^ 6" using assms True by (intro power_increasing) simp_all
    moreover have "(2::nat) ^ 6 = 64" by simp
    ultimately show ?thesis by linarith
  next
    case False
    have "unat (hd (utf8_char u)) < 2 ^ (7 - OFFUNISKIP u) + (256 - 2 ^ (8 - OFFUNISKIP u))"
      using lead_range [OF refl False] by simp
    moreover have "(2::nat) ^ (8 - OFFUNISKIP v) \<le> 2 ^ (7 - OFFUNISKIP u)"
      using assms by (intro power_increasing) simp_all
    moreover have "2 ^ (7 - OFFUNISKIP u) + (256 - 2 ^ (8 - OFFUNISKIP u)) = 256 - (2::nat) ^ (7 - OFFUNISKIP u)"
    proof (cases "OFFUNISKIP u \<le> 7")
      case True
      then have "8 - OFFUNISKIP u = Suc (7 - OFFUNISKIP u)" by simp
      moreover have "(2::nat) ^ (7 - OFFUNISKIP u) \<le> 2 ^ 7" by (rule power_increasing) simp_all
      ultimately show ?thesis by simp
    next
      case False
      then have "OFFUNISKIP u = 13" using OFFUNISKIP_cases [of u] by auto
      with assms show ?thesis using OFFUNISKIP_cases [of v] by auto
    qed
    ultimately show ?thesis by linarith
  qed
  with hv show ?thesis by (simp add: word_less_nat_alt)
qed

lemma map_unat_utf8_char:
  assumes "OFFUNISKIP uv = Suc k" "k \<noteq> 0"
  shows "map unat (utf8_char uv) = (unat uv div 64 ^ k + (256 - 2 ^ (7 - k))) # map (\<lambda>d. 128 + d) (digits k (unat uv))"
proof -
  have "map unat (tl (utf8_char uv)) = map (\<lambda>d. 128 + d) (digits k (unat uv))"
    using assms unat_conts [of k uv] by (simp add: utf8_char_def encode_bytes_eq)
  then show ?thesis
    using lead_range(1) [OF assms(1)] assms(2) by (subst utf8_char_Cons) simp
qed

lemma utf8_char_order:
  assumes "u < v"
  shows "lex_cmp (utf8_char u @ xs) (utf8_char v @ ys) = - 1"
proof (cases "OFFUNISKIP u = OFFUNISKIP v")
  case False
  then have "hd (utf8_char u) < hd (utf8_char v)"
    using OFFUNISKIP_mono [of u v] less_imp_le [OF assms] by (intro lead_order) simp
  then show ?thesis by (subst (1 2) utf8_char_Cons) simp
next
  case True
  have less: "unat u < unat v" using assms by (simp add: word_less_nat_alt)
  have "lex_cmp (utf8_char u) (utf8_char v) = - 1"
  proof (cases "OFFUNISKIP u = 1")
    case one: True
    then have "unat u < 128" "unat v < 128" using True OFFUNISKIP_1 by metis+
    with less one True show ?thesis
      by (simp add: utf8_char_def word_less_nat_alt unsigned_ucast_eq take_bit_eq_mod)
  next
    case False
    then obtain k where k: "OFFUNISKIP u = Suc k" "k \<noteq> 0" using OFFUNISKIP_cases [of u] by (cases "OFFUNISKIP u") auto
    have "lex_cmp (utf8_char u) (utf8_char v) = lex_cmp (map unat (utf8_char u)) (map unat (utf8_char v))"
      by (rule lex_cmp_map [symmetric]) (simp add: word_less_nat_alt)
    also have "\<dots> = lex_cmp (unat u div 64 ^ k # digits k (unat u)) (unat v div 64 ^ k # digits k (unat v))"
      using k True by (simp add: map_unat_utf8_char lex_cmp_map)
    also have "\<dots> = - 1" using less by (rule digits_order)
    finally show ?thesis .
  qed
  then show ?thesis using lex_cmp_append [of "utf8_char u" "utf8_char v" xs ys] True
    by (auto simp: length_utf8_char)
qed

definition utf8_string :: "u64 list \<Rightarrow> u8 list" where
  "utf8_string cps = concat (map utf8_char cps)"

lemma utf8_string_simps [simp]:
  "utf8_string [] = []" "utf8_string (cp # cps) = utf8_char cp @ utf8_string cps"
  by (simp_all add: utf8_string_def)

lemma utf8_string_order: "lex_cmp (utf8_string us) (utf8_string vs) = lex_cmp us vs"
proof (induction us vs rule: lex_cmp.induct)
  case (2 v vs)
  then show ?case by (subst utf8_string_simps(2), subst utf8_char_Cons) simp
next
  case (3 u us)
  then show ?case by (subst utf8_string_simps(2), subst utf8_char_Cons) simp
next
  case (4 u us v vs)
  consider "u < v" | "v < u" | "u = v" by (rule linorder_cases)
  then show ?case
  proof cases
    case 2
    then show ?thesis
      using utf8_char_order [of v u "utf8_string vs" "utf8_string us"] lex_cmp_swap [of "utf8_char v @ utf8_string vs" "utf8_char u @ utf8_string us"]
      by simp
  qed (use 4 in \<open>auto simp: utf8_char_order lex_cmp_append\<close>)
qed simp

section \<open>Characters below 256\<close>

lemma IS_CONTINUATION_iff: "UTF8_IS_CONTINUATION c \<longleftrightarrow> unat c div 64 = 2"
proof -
  have "c AND 0xC0 = push_bit 6 (drop_bit 6 c)"
  proof -
    have "(0xC0 :: u8) = NOT (mask 6)" by (simp add: mask_eq_exp_minus_1)
    moreover have "c AND NOT (mask 6) = push_bit 6 (drop_bit 6 c)"
      by (rule bit_word_eqI) (auto simp: bit_simps)
    ultimately show ?thesis by metis
  qed
  then have "c AND 0xC0 = 0x80 \<longleftrightarrow> unat (push_bit 6 (drop_bit 6 c)) = 128"
    by (simp add: word_unat_eq_iff)
  also have "unat (push_bit 6 (drop_bit 6 c)) = unat c div 64 * 64"
  proof -
    have "unat (drop_bit 6 c) = unat c div 64"
      using unsigned_drop_bit_eq [of 6 c, where 'a = nat] unsigned_less [of c, where 'a = nat]
      by (simp add: drop_bit_eq_div take_bit_nat_eq_self)
    moreover have "unat c div 64 * 64 < 256" using unsigned_less [of c, where 'a = nat] by simp
    ultimately show ?thesis by (subst unsigned_push_bit_eq) (simp add: push_bit_eq_mult take_bit_eq_mod)
  qed
  finally show ?thesis by (auto simp: UTF8_IS_CONTINUATION_def)
qed

lemma cont_IS_CONTINUATION: "UTF8_IS_CONTINUATION (cont w)"
  by (simp add: IS_CONTINUATION_iff unat_cont)

lemma unat_ucast_u8: "unat (ucast (b :: u8) :: u64) = unat b"
  using unsigned_less [of b, where 'a = nat] by (simp add: unsigned_ucast_eq take_bit_eq_mod)

lemma EIGHT_BIT_unat:
  "unat (EIGHT_BIT_UTF8_TO_NATIVE h l) = (64 * (unat h mod 64) + unat l mod 64) mod 256"
proof -
  have parts: "unat (ucast h AND mask 6 :: u64) = unat h mod 64" "unat (ucast l AND mask 6 :: u64) = unat l mod 64"
    by (simp_all add: unat_and_mask unat_ucast_u8)
  have "unat (push_bit 6 (ucast h AND mask 6 :: u64)) = 64 * (unat h mod 64)"
    by (subst unsigned_push_bit_eq) (simp add: parts push_bit_eq_mult take_bit_eq_mod)
  moreover have "push_bit 6 (ucast h AND mask 6) OR (ucast l AND mask 6) = push_bit 6 (ucast h AND mask 6) + (ucast l AND mask 6 :: u64)"
    by (rule disjunctive_add [symmetric]) (auto simp: bit_simps)
  moreover have "64 * (unat h mod 64) + unat l mod 64 < 2 ^ 64"
    using mod_less_divisor [of 64 "unat h"] mod_less_divisor [of 64 "unat l"] by simp
  ultimately have "unat (push_bit 6 (ucast h AND mask 6) OR (ucast l AND mask 6 :: u64)) = 64 * (unat h mod 64) + unat l mod 64"
    using parts(2) unat_add_lem [of "push_bit 6 (ucast h AND mask 6 :: u64)" "ucast l AND mask 6"] by simp
  moreover have "UTF_START_MASK 2 = mask 6" by (simp add: START_MASK)
  ultimately show ?thesis
    by (simp add: EIGHT_BIT_UTF8_TO_NATIVE_def mask_6 unsigned_ucast_eq take_bit_eq_mod)
qed

lemma utf8_char_ascii: "unat u < 128 \<Longrightarrow> utf8_char u = [ucast u]"
  using OFFUNISKIP_1 [of u] by (simp add: utf8_char_def)

lemma utf8_char_latin1:
  assumes "128 \<le> unat u" "unat u < 256"
  obtains h where "utf8_char u = [h, cont u]" "unat h = 192 + unat u div 64"
proof -
  have two: "OFFUNISKIP u = 2" using assms OFFUNISKIP_ranges [of u] by simp
  then have "utf8_char u = [lead 2 (drop_bit 6 u), cont u]" by (simp add: utf8_char_def encode_bytes_eq)
  moreover have "unat (hd (utf8_char u)) = 192 + unat u div 64" using lead_range(1) [OF two] by simp
  ultimately show thesis by (intro that [of "lead 2 (drop_bit 6 u)"]) simp_all
qed

lemma utf8_char_above:
  assumes "256 \<le> unat u"
  shows "196 \<le> unat (hd (utf8_char u))"
proof -
  have not1: "OFFUNISKIP u \<noteq> 1" using assms OFFUNISKIP_1 [of u] by simp
  show ?thesis
  proof (cases "OFFUNISKIP u = 2")
    case True
    have "4 \<le> unat u div 64" using assms by simp
    then show ?thesis using lead_range(1) [OF True] by simp
  next
    case False
    then have "3 \<le> OFFUNISKIP u" using not1 OFFUNISKIP_cases [of u] by auto
    then have "(2::nat) ^ (8 - OFFUNISKIP u) \<le> 2 ^ 5" by (intro power_increasing) simp_all
    moreover have "(2::nat) ^ 5 = 32" by simp
    ultimately show ?thesis using lead_range(1) [OF refl not1] by linarith
  qed
qed

lemma bytes_cmp_utf8_ok: "sgn (bytes_cmp_utf8 bs (utf8_string us)) = lex_cmp (map ucast bs) us"
proof (induction us arbitrary: bs)
  case Nil
  then show ?case by (cases bs) simp_all
next
  case (Cons u us)
  show ?case
  proof (cases bs)
    case Nil
    then show ?thesis by (subst utf8_string_simps(2), subst utf8_char_Cons) simp
  next
    case (Cons b bs')
    have small: "unat b < 256" using unsigned_less [of b] by simp
    note ub = unat_ucast_u8 [of b]
    consider "unat u < 128" | "128 \<le> unat u" "unat u < 256" | "256 \<le> unat u" by linarith
    then show ?thesis
    proof cases
      case 1
      have "unat (ucast u :: u8) = unat u" using 1 by (simp add: unsigned_ucast_eq take_bit_eq_mod)
      then show ?thesis using 1 Cons Cons.IH [of bs'] ub
        by (auto simp: utf8_char_ascii UTF8_IS_INVARIANT_def word_less_nat_alt word_unat_eq_iff)
    next
      case 2
      obtain h where h: "utf8_char u = [h, cont u]" "unat h = 192 + unat u div 64"
        by (rule utf8_char_latin1 [OF 2])
      define q r where "q = unat u div 64" and "r = unat u mod 64"
      have "unat u = 64 * q + r" "r < 64" by (simp_all add: q_def r_def)
      then have q: "q = 2 \<or> q = 3" using 2 by auto
      have native: "unat (EIGHT_BIT_UTF8_TO_NATIVE h (cont u)) = unat u"
        unfolding EIGHT_BIT_unat unat_cont h(2) q_def [symmetric] r_def [symmetric]
        using q \<open>unat u = 64 * q + r\<close> \<open>r < 64\<close> mod_add_left_eq [of 128 64 r] by auto
      have "\<not> UTF8_IS_INVARIANT h" "UTF8_IS_DOWNGRADEABLE_START h"
        using q h(2) unfolding q_def [symmetric]
        by (auto simp: UTF8_IS_INVARIANT_def UTF8_IS_DOWNGRADEABLE_START_def word_less_nat_alt word_le_nat_alt)
      then show ?thesis using Cons Cons.IH [of bs'] ub native cont_IS_CONTINUATION h(1)
        by (auto simp: word_less_nat_alt word_unat_eq_iff Let_def)
    next
      case 3
      have "\<not> UTF8_IS_INVARIANT (hd (utf8_char u))" "\<not> UTF8_IS_DOWNGRADEABLE_START (hd (utf8_char u))"
        using utf8_char_above [OF 3]
        by (auto simp: UTF8_IS_INVARIANT_def UTF8_IS_DOWNGRADEABLE_START_def word_less_nat_alt word_le_nat_alt)
      then show ?thesis using Cons small 3 ub
        by (subst utf8_string_simps(2), subst utf8_char_Cons) (simp add: word_less_nat_alt)
    qed
  qed
qed

section \<open>Decoding\<close>

lemma UTF8SKIP_ranges:
  "UTF8SKIP c =
     (if unat c < 192 then 1 else if unat c < 224 then 2 else if unat c < 240 then 3 else if unat c < 248 then 4
      else if unat c < 252 then 5 else if unat c < 254 then 6 else if unat c < 255 then 7 else 13)"
  using unsigned_less [of c, where 'a = nat]
  by (auto simp: UTF8SKIP_def PL_utf8skip_def nth_append nth_Cons')

lemma UTF8SKIP_lead: "UTF8SKIP (hd (utf8_char uv)) = OFFUNISKIP uv"
proof (cases "OFFUNISKIP uv = 1")
  case True
  then have "unat uv < 128" using OFFUNISKIP_1 by blast
  then show ?thesis using True by (simp add: utf8_char_ascii UTF8SKIP_ranges unsigned_ucast_eq take_bit_eq_mod)
next
  case False
  define x where "x = unat uv div 64 ^ (OFFUNISKIP uv - 1)"
  have x: "unat (hd (utf8_char uv)) = x + (256 - 2 ^ (8 - OFFUNISKIP uv))" "x < 2 ^ (7 - OFFUNISKIP uv)"
    using lead_range [OF refl False] by (simp_all add: x_def)
  have "OFFUNISKIP uv \<in> {2, 3, 4, 5, 6, 7, 13}" using OFFUNISKIP_cases [of uv] False by auto
  then show ?thesis using x by (auto simp: UTF8SKIP_ranges)
qed

lemma lead_bits:
  assumes "unat w < 2 ^ (7 - s)"
  shows "ucast (lead s w) AND UTF_START_MASK s = w"
proof -
  have w: "w AND mask (8 - s) = w"
  proof -
    have "(2::nat) ^ (7 - s) \<le> 2 ^ (8 - s)" by (rule power_increasing) simp_all
    then have "unat w < 2 ^ (8 - s)" using assms by linarith
    then have "unat w mod 2 ^ (8 - s) = unat w" by simp
    then show ?thesis by (simp add: word_unat_eq_iff unat_and_mask)
  qed
  have "ucast (lead s w) AND UTF_START_MASK s = w AND mask (8 - s)"
    unfolding lead_def START_MASK START_MARK by (rule bit_word_eqI) (auto simp: bit_simps)
  with w show ?thesis by simp
qed

lemma encoded_nth:
  assumes "OFFUNISKIP uv = Suc k" "k \<noteq> 0"
  shows "(utf8_char uv @ rest) ! 0 = lead (Suc k) (drop_bit (6 * k) uv)"
    "0 < n \<Longrightarrow> n \<le> k \<Longrightarrow> (utf8_char uv @ rest) ! n = cont (drop_bit (6 * (k - n)) uv)"
  using assms by (auto simp: utf8_char_def encode_bytes_eq nth_append nth_Cons' Suc_diff_Suc)

lemma NEXT_ACCUMULATION_encoded:
  assumes "OFFUNISKIP uv = Suc k" "0 < n" "n \<le> k"
  shows "NEXT_ACCUMULATION (utf8_char uv @ rest) (6 * k) n = push_bit (6 * (k - n)) (drop_bit (6 * (k - n)) uv AND mask 6)"
proof -
  have "k \<noteq> 0" "6 * k - n * 6 = 6 * (k - n)" using assms by (simp_all add: diff_mult_distrib2)
  then show ?thesis using encoded_nth(2) [OF assms(1) _ assms(2,3), of rest]
    unfolding NEXT_ACCUMULATION_def by (simp add: cont_bits)
qed

lemma valid_utf8_to_uv_char:
  assumes "unat uv < 2 ^ 26"
  shows "valid_utf8_to_uv long (utf8_char uv @ rest) = (uv, OFFUNISKIP uv)"
proof -
  have skip: "UTF8SKIP ((utf8_char uv @ rest) ! 0) = OFFUNISKIP uv"
    using UTF8SKIP_lead [of uv] by (subst utf8_char_Cons) simp
  show ?thesis
  proof (cases "OFFUNISKIP uv = 1")
    case True
    then have "unat uv < 128" using OFFUNISKIP_1 by blast
    moreover from this have "(ucast (ucast uv :: u8) :: u64) = uv"
      unfolding word_unat_eq_iff unat_ucast_u8 by (simp add: unsigned_ucast_eq take_bit_eq_mod)
    ultimately show ?thesis using skip True by (simp add: valid_utf8_to_uv_def utf8_char_ascii)
  next
    case False
    then have small: "OFFUNISKIP uv \<in> {2, 3, 4, 5}" using assms OFFUNISKIP_ranges [of uv] by auto
    define k where "k = OFFUNISKIP uv - 1"
    then have k: "OFFUNISKIP uv = Suc k" "k \<noteq> 0" "k \<in> {1, 2, 3, 4}" using small by auto
    have first: "ucast ((utf8_char uv @ rest) ! 0) AND UTF_START_MASK (Suc k) = drop_bit (6 * k) uv"
      using lead_range(2) [OF k(1)] k(2)
      unfolding encoded_nth(1) [OF k(1,2)] by (intro lead_bits) (simp add: unat_drop_bit power_mult)
    have next_byte: "NEXT_ACCUMULATION (utf8_char uv @ rest) (k * 6) n = push_bit (6 * (k - n)) (drop_bit (6 * (k - n)) uv AND mask 6)"
      if "0 < n" "n \<le> k" for n
      using NEXT_ACCUMULATION_encoded [OF k(1) that] by (simp add: mult.commute)
    have glue: "push_bit (6 * j) (drop_bit (6 * j) uv AND mask 6) OR push_bit (6 * Suc j) (drop_bit (6 * Suc j) uv)
        = push_bit (6 * j) (drop_bit (6 * j) uv)" for j
    proof (rule bit_word_eqI)
      fix n
      assume "n < LENGTH(64)"
      have "6 + 6 * j + (n - (6 + 6 * j)) = n" if "6 + 6 * j \<le> n" using that by simp
      then show "bit (push_bit (6 * j) (drop_bit (6 * j) uv AND mask 6) OR push_bit (6 * Suc j) (drop_bit (6 * Suc j) uv)) n
          = bit (push_bit (6 * j) (drop_bit (6 * j) uv)) n"
        by (cases "6 + 6 * j \<le> n") (auto simp: bit_simps)
    qed
    show ?thesis
      using k(3) skip first next_byte glue [of 0] glue [of 1] glue [of 2] glue [of 3]
      unfolding valid_utf8_to_uv_def k(1)
      by (auto simp: or.assoc numeral_2_eq_2 numeral_3_eq_3)
  qed
qed

end
