(* ===== verification/Sort_Text.thy ===== *)
theory Sort_Text
  imports Sort_Num Utf8_Codec
begin

text \<open>
  The default string comparison: \<open>sv_cmp\<close> orders strings by their code points, whatever
  the encodings of the two, so a sort by it is a stable sort by the text.
\<close>

section \<open>Comparing strings\<close>

lemma shortest: "(if (m :: nat) < n then m else n) = min m n"
  by simp

lemma memcmp_lex:
  "m = min (length xs) (length ys) \<Longrightarrow>
   (if memcmp (take m xs) (take m ys) \<noteq> 0 then if memcmp (take m xs) (take m ys) < 0 then - 1 else 1
    else if length xs = length ys then 0 else if length xs < length ys then - 1 else 1) = lex_cmp xs ys"
proof (induction xs ys arbitrary: m rule: lex_cmp.induct)
  case (4 x xs y ys)
  then obtain n where n: "m = Suc n" "n = min (length xs) (length ys)" by simp
  consider "x < y" | "y < x" | "x = y" by (rule linorder_cases)
  then show ?case
  proof cases
    case 3
    then have "\<not> x < y" "\<not> y < x" by simp_all
    from "4.IH" [OF this n(2)] 3 n(1) show ?thesis by (auto split: if_splits)
  qed (auto simp: n(1))
qed simp_all

text \<open>A string scalar and the code points it stands for.\<close>

definition spells :: "scalar \<Rightarrow> u64 list \<Rightarrow> bool" where
  "spells sv cps \<longleftrightarrow> SvPOK sv \<and>
     (if SvUTF8 sv then SvPVX sv = utf8_string cps else cps = map ucast (SvPVX sv))"

lemma utf8_string_empty: "utf8_string cps = [] \<longleftrightarrow> cps = []"
  by (cases cps) (simp_all, metis Nil_is_append_conv utf8_char_Cons list.distinct(1))

lemma ucast_u8_less: "(ucast (a :: u8) :: u64) < ucast b \<longleftrightarrow> a < b"
  by (simp add: word_less_nat_alt unat_ucast_u8)

lemma sgn_lex: "sgn (lex_cmp xs ys) = lex_cmp xs ys"
  using lex_cmp_values [of xs ys] by auto

lemma sv_cmp_spells:
  assumes "spells a us" "spells b vs" "\<not> IN_BYTES rt"
  shows "sv_cmp rt a b = lex_cmp us vs"
proof -
  have pok: "SvPV rt a = (SvPVX a, a)" "SvPV rt b = (SvPVX b, b)"
    using assms(1,2) by (simp_all add: spells_def SvPV_def)
  have empty: "SvPVX a = [] \<longleftrightarrow> us = []" "SvPVX b = [] \<longleftrightarrow> vs = []"
    using assms(1,2) utf8_string_empty by (auto simp: spells_def split: if_splits)
  consider "us = [] \<or> vs = []" | "us \<noteq> []" "vs \<noteq> []" "SvUTF8 a = SvUTF8 b"
    | "us \<noteq> []" "vs \<noteq> []" "SvUTF8 a" "\<not> SvUTF8 b" | "us \<noteq> []" "vs \<noteq> []" "\<not> SvUTF8 a" "SvUTF8 b" by blast
  then show ?thesis
  proof cases
    case 1
    then show ?thesis using empty by (cases us; cases vs) (auto simp: sv_cmp_def pok Let_def)
  next
    case 2
    have "lex_cmp (SvPVX a) (SvPVX b) = lex_cmp us vs"
      using assms(1,2) 2(3) utf8_string_order [of us vs]
      by (auto simp: spells_def lex_cmp_map ucast_u8_less split: if_splits)
    moreover have "sv_cmp rt a b = lex_cmp (SvPVX a) (SvPVX b)"
      using 2 empty unfolding memcmp_lex [OF refl, symmetric] by (simp add: sv_cmp_def pok Let_def shortest)
    ultimately show ?thesis by simp
  next
    case 3
    have "sv_cmp rt a b = - sgn (bytes_cmp_utf8 (SvPVX b) (SvPVX a))"
      using 3 empty assms(3) by (auto simp: sv_cmp_def pok Let_def sgn_if)
    also have "\<dots> = - lex_cmp vs us"
      using assms(1,2) 3 bytes_cmp_utf8_ok [of "SvPVX b" us] by (simp add: spells_def)
    finally show ?thesis by (simp add: lex_cmp_swap [of us vs])
  next
    case 4
    have "sv_cmp rt a b = sgn (bytes_cmp_utf8 (SvPVX a) (SvPVX b))"
      using 4 empty assms(3) by (auto simp: sv_cmp_def pok Let_def sgn_if)
    then show ?thesis
      using assms(1,2) 4 bytes_cmp_utf8_ok [of "SvPVX a" vs] by (simp add: spells_def)
  qed
qed

section \<open>Sorting strings\<close>

definition strings :: "scalar set" where
  "strings = {sv. \<exists>cps. spells sv cps}"

lemma comparator_text:
  assumes "\<And>sv. sv \<in> A \<Longrightarrow> spells sv (text_of sv)" "\<not> IN_BYTES rt"
  shows "comparator A (sv_cmp rt)"
proof
  have cmp: "sv_cmp rt x y = lex_cmp (text_of x) (text_of y)" if "x \<in> A" "y \<in> A" for x y
    using that assms by (intro sv_cmp_spells)
  fix x y z assume A: "x \<in> A" "y \<in> A"
  show "(0 < sv_cmp rt x y) = (sv_cmp rt y x < 0)"
    using lex_cmp_swap [of "text_of y" "text_of x"] A by (simp add: cmp)
  assume "z \<in> A" "sv_cmp rt x y \<le> 0" "sv_cmp rt y z \<le> 0"
  then show "sv_cmp rt x z \<le> 0"
    using lex_cmp_trans [of "text_of x" "text_of y" "text_of z"] A by (simp add: cmp)
qed

text \<open>The comparisons of whole classes of scalars that the operator can choose.\<close>

interpretation by_text: comparator strings "sv_cmp (rt\<lparr>IN_BYTES := False\<rparr>)" for rt
proof (rule comparator_text)
  fix sv assume "sv \<in> strings"
  then show "spells sv (SOME cps. spells sv cps)" unfolding strings_def by (metis (mono_tags) mem_Collect_eq someI)
qed simp

lemma sort_items_strings:
  assumes "\<not> PL_sortcop priv" "\<not> OPpSORT_NUMERIC priv" "\<And>sv. sv \<in> set (given items) \<Longrightarrow> SvPOK sv \<and> \<not> SvAMAGIC sv"
  shows "sort_items rt priv items a v = (given items, a, v)"
  using assms(3)
proof (induction items arbitrary: a v)
  case (Cons item items)
  then show ?case using assms(1,2) by (cases item) (auto simp: Let_def split_beta sort_convert_def)
qed simp

lemma comparator_uminus:
  assumes "comparator A cmp"
  shows "comparator A (\<lambda>x y. - cmp x y)"
proof
  note swap = comparator.cmp_swap [OF assms]
  fix x y z
  assume A: "x \<in> A" "y \<in> A"
  show "(0 < - cmp x y) = (- cmp y x < 0)"
    using swap [OF A(2,1)] by simp
  assume z: "z \<in> A" and le: "- cmp x y \<le> 0" "- cmp y z \<le> 0"
  have "cmp z y \<le> 0" "cmp y x \<le> 0" using le swap [OF A(2,1)] swap [OF z A(2)] by linarith+
  from comparator.cmp_trans [OF assms z A(2,1) this] show "- cmp x z \<le> 0"
    using swap [OF z A(1)] swap [OF A(1) z] by linarith
qed

end
