(* ===== verification/Sort_Props.thy ===== *)
theory Sort_Props
  imports Sort_Text
begin

text \<open>
  The properties of \<open>src/pp_sort.c\<close>: the merge sort for every comparison and for one that orders
  its elements, the operator on integers, and what the widths in the code do to the results of
  comparisons.
\<close>

section \<open>Instances for the witnesses\<close>

definition iv :: "64 word \<Rightarrow> scalar" where
  "iv w = \<lparr>SvROK = False, SvIOK = True, SvIOKp = True, SvIsUV = False, SvNOK = False, SvPOK = False,
     SvAMAGIC = False, SvUTF8 = False, SvIVX = w, SvNVX = Fin 0, SvPVX = []\<rparr>"

definition uv :: "64 word \<Rightarrow> scalar" where "uv w = (iv w)\<lparr>SvIsUV := True\<rparr>"

definition plain :: runtime where
  "plain = \<lparr>sv_2iv = \<lambda>sv. (SvIVX sv, sv), sv_2nv = \<lambda>sv. (Fin (of_int (int_value sv)), sv\<lparr>SvNOK := True\<rparr>),
     sv_2pv = \<lambda>sv. (SvPVX sv, sv), sv_2num = \<lambda>sv. sv, amagic_call = \<lambda>a b meth. Some b,
     sv_cmp_locale = \<lambda>a b. 0, run_sortcop = \<lambda>a b. 7, IN_BYTES = False, IN_LC_COLLATE = False\<rparr>"

definition by_sub :: sort_op where
  "by_sub = \<lparr>OPpSORT_NUMERIC = False, OPpSORT_INTEGER = False, OPpSORT_DESCEND = False,
     OPpSORT_REVERSE = True, PL_sortcop = True\<rparr>"

definition largest_first :: sort_op where
  "largest_first = by_sub\<lparr>OPpSORT_NUMERIC := True, OPpSORT_DESCEND := True, OPpSORT_REVERSE := False, PL_sortcop := False\<rparr>"

definition bytes_sv :: "u8 list \<Rightarrow> scalar" where
  "bytes_sv s = \<lparr>SvROK = False, SvIOK = False, SvIOKp = False, SvIsUV = False, SvNOK = False, SvPOK = True,
     SvAMAGIC = False, SvUTF8 = False, SvIVX = 0, SvNVX = Fin 0, SvPVX = s\<rparr>"

definition utf8_sv :: "u64 list \<Rightarrow> scalar" where
  "utf8_sv cps = (bytes_sv (utf8_string cps))\<lparr>SvUTF8 := True\<rparr>"

definition back_to_front :: sort_op where
  "back_to_front = \<lparr>OPpSORT_NUMERIC = False, OPpSORT_INTEGER = False, OPpSORT_DESCEND = True,
     OPpSORT_REVERSE = True, PL_sortcop = False\<rparr>"

definition new_stack :: "off_runs list" where
  "new_stack = replicate 60 \<lparr>or_offset = 0, or_runs = 0\<rparr>"

definition new_aux :: "'a cell list" where
  "new_aux = replicate 200 (Next 0)"

lemma new_sizes [simp]: "length new_stack = 60" "length new_aux = 200"
  by (simp_all add: new_stack_def new_aux_def)

section \<open>The properties\<close>

text \<open>C31: \<open>sort\<close> always comes to an end, whatever the comparison answers, an inconsistent
comparison sub included: its result is a permutation of the elements given, none lost and none
duplicated, with every null dropped.\<close>

theorem sort_permutes:
  assumes "length items \<le> length aux" "length items \<le> 2 ^ 59" "length stack = 60"
  shows "\<exists>ys. pp_sort rt priv aux stack items = Some ys
    \<and> mset ys = mset (map (sort_convert rt priv) (given items))"
proof -
  obtain svs a v where items: "sort_items rt priv items True False = (svs, a, v)"
    by (cases "sort_items rt priv items True False") auto
  have svs: "svs = map (sort_convert rt priv) (given items)"
    using sort_items_given [of rt priv items True False] items by simp
  obtain ys where "sortsv_flags (sort_compare rt priv a v) aux stack svs = Some ys" "mset ys = mset svs"
    using sortsv_flags_ok [of svs aux stack] length_given [of items] svs assms by (metis length_map order_trans)
  then show ?thesis using items svs by (auto simp: pp_sort_def sort_reverse_rev sort_reverse_rev [simplified])
qed

theorem sort_permutes_witness:
  "\<exists>ys. pp_sort plain by_sub new_aux new_stack [Some (iv 3), None, Some (iv 1), Some (iv 2)] = Some ys
    \<and> mset ys = mset (map (sort_convert plain by_sub) (given [Some (iv 3), None, Some (iv 1), Some (iv 2)]))"
  by (rule sort_permutes) simp_all

text \<open>C32: for a comparison that orders the elements it is given, the merge sort puts every
element before the ones it does not exceed and keeps the order of elements that compare equal:
it is a stable sort.\<close>

theorem sort_stable:
  assumes "comparator (set base) cmp" "length base \<le> length aux" "length base \<le> 2 ^ 59" "length stack = 60"
  shows "\<exists>ys. sortsv_flags cmp aux stack base = Some ys \<and> mset ys = mset base
    \<and> sorted_wrt (\<lambda>x y. cmp x y \<le> 0) ys
    \<and> (\<forall>x \<in> set base. filter (\<lambda>y. cmp x y = 0) ys = filter (\<lambda>y. cmp x y = 0) base)"
  using sortsv_flags_ok [OF assms(2,4,3), of cmp] assms(1) by (auto simp: ordered_def same_order_def)

theorem sort_stable_witness:
  "\<exists>ys. sortsv_flags (S_sv_ncmp plain) new_aux new_stack [uv (- 1), iv 3, iv (- 1)] = Some ys
    \<and> mset ys = mset [uv (- 1), iv 3, iv (- 1)] \<and> sorted_wrt (\<lambda>x y. S_sv_ncmp plain x y \<le> 0) ys
    \<and> (\<forall>x \<in> set [uv (- 1), iv 3, iv (- 1)]. filter (\<lambda>y. S_sv_ncmp plain x y = 0) ys
          = filter (\<lambda>y. S_sv_ncmp plain x y = 0) [uv (- 1), iv 3, iv (- 1)])"
proof (rule sort_stable)
  show "comparator (set [uv (- 1), iv 3, iv (- 1)]) (S_sv_ncmp plain)"
    by (rule comparator_key [where f = int_value]) (auto simp: S_sv_ncmp_integers integer_def uv_def iv_def)
qed simp_all

text \<open>C33: the numeric sort of integers, ascending or descending, reversed or not, is the stable sort
by a key. Without \<open>use integer\<close> the key is the value, signed and unsigned 64-bit integers mixed
correctly, and which of the two comparisons the operator chose makes no difference. Under
\<open>use integer\<close> it is the signed view of the 64 bits, in which an unsigned integer above \<open>IV_MAX\<close> counts
as negative.\<close>

theorem sort_integers:
  assumes "\<not> PL_sortcop priv" "OPpSORT_NUMERIC priv"
    and "\<And>sv. sv \<in> set (given items) \<Longrightarrow> integer (sort_convert rt priv sv)"
    and "length items \<le> length aux" "length items \<le> 2 ^ 59" "length stack = 60"
  shows "pp_sort rt priv aux stack items
    = Some ((if OPpSORT_REVERSE priv then rev else (\<lambda>svs. svs))
        (sort_key (\<lambda>sv. (if OPpSORT_DESCEND priv then - 1 else 1)
            * (if OPpSORT_INTEGER priv then sint (SvIVX sv)
               else if SvIsUV sv then uint (SvIVX sv) else sint (SvIVX sv)))
          (map (sort_convert rt priv) (given items))))"
proof -
  have key: "(\<lambda>sv. (if OPpSORT_DESCEND priv then - 1 else 1) * (if OPpSORT_INTEGER priv then sint (SvIVX sv)
      else if SvIsUV sv then uint (SvIVX sv) else sint (SvIVX sv))) = num_key priv"
    by (auto simp: fun_eq_iff num_key_def int_value_def)
  define svs where "svs = map (sort_convert rt priv) (given items)"
  define a where "a = (OPpSORT_INTEGER priv \<or> (\<forall>sv \<in> set (given items). SvSIOK (sort_convert rt priv sv)))"
  have items: "sort_items rt priv items True False = (svs, a, False)"
    using sort_items_given [of rt priv items True False] sort_items_integers [of priv items rt True False] assms(1-3)
    by (simp add: prod_eq_iff svs_def a_def)
  have "sortsv_flags (sort_compare rt priv a False) aux stack svs = Some (sort_key (num_key priv) svs)"
  proof (rule sort_by_key)
    fix x y assume "x \<in> set svs" "y \<in> set svs"
    then show "sort_compare rt priv a False x y = sgn (num_key priv x - num_key priv y)"
      using assms(1-3) by (intro sort_compare_integers) (auto simp: svs_def a_def)
  qed (use assms(4-6) length_given [of items] in \<open>simp_all add: svs_def\<close>)
  moreover have "sort_key (num_key priv) svs = svs \<and> rev svs = svs" if "\<not> length svs > 1"
    using that by (cases svs) auto
  ultimately show ?thesis unfolding key using sort_reverse_rev [of "sort_key (num_key priv) svs"]
    by (auto simp: pp_sort_def items svs_def [symmetric])
qed

theorem sort_integers_witness:
  "map_option (map int_value) (pp_sort plain largest_first new_aux new_stack [Some (iv (- 1)), Some (uv (- 1)), Some (iv 5)])
    = Some [2 ^ 64 - 1, 5, - 1]"
proof -
  let ?items = "[Some (iv (- 1)), Some (uv (- 1)), Some (iv 5)]"
  have sorted: "pp_sort plain largest_first new_aux new_stack ?items
    = Some ((if OPpSORT_REVERSE largest_first then rev else (\<lambda>svs. svs))
        (sort_key (\<lambda>sv. (if OPpSORT_DESCEND largest_first then - 1 else 1)
            * (if OPpSORT_INTEGER largest_first then sint (SvIVX sv)
               else if SvIsUV sv then uint (SvIVX sv) else sint (SvIVX sv)))
          (map (sort_convert plain largest_first) (given ?items))))"
    by (rule sort_integers) (auto simp: integer_def sort_convert_def SvNSIOK_def plain_def iv_def uv_def largest_first_def by_sub_def)
  show ?thesis unfolding sorted
    by (simp add: unsigned_minus_1_eq_mask mask_eq_exp_minus_1 int_value_def sort_convert_def SvNSIOK_def plain_def iv_def uv_def largest_first_def by_sub_def)
qed

text \<open>C34: what an overloaded comparison operator returned passes through an \<open>I32\<close>, under
\<open>use integer\<close> and without: the result is the sign of its low 32 bits read as a signed number, so
the sign is kept where the integer fits 32 bits, but \<open>2 ^ 31\<close> is taken for a negative
one and \<open>2 ^ 32\<close> for equality.\<close>

theorem amagic_width:
  assumes "SvAMAGIC a \<or> SvAMAGIC b" "amagic_call rt a b ncmp_amg = Some v" "SvIOK v"
  shows "S_amagic_i_ncmp rt a b = S_amagic_ncmp rt a b
    \<and> S_amagic_ncmp rt a b = sgn (signed_take_bit 31 (sint (SvIVX v)))
    \<and> (- (2 ^ 31) \<le> sint (SvIVX v) \<and> sint (SvIVX v) < 2 ^ 31 \<longrightarrow> S_amagic_ncmp rt a b = sgn (sint (SvIVX v)))
    \<and> (SvIVX v = 2 ^ 31 \<longrightarrow> S_amagic_ncmp rt a b = - 1)
    \<and> (SvIVX v = 2 ^ 32 \<longrightarrow> S_amagic_ncmp rt a b = 0)"
proof -
  have i: "sint (ucast (SvIVX v) :: 32 word) = signed_take_bit 31 (sint (SvIVX v))"
    by (simp add: sint_uint unsigned_ucast_eq signed_take_bit_take_bit)
  then have "S_amagic_ncmp rt a b = sgn (signed_take_bit 31 (sint (SvIVX v)))"
      "S_amagic_i_ncmp rt a b = sgn (signed_take_bit 31 (sint (SvIVX v)))"
    using assms by (auto simp: S_amagic_ncmp_def S_amagic_i_ncmp_def tryCALL_AMAGICbin_def amagic_value_def
        SORT_NORMAL_RETURN_VALUE_def sgn_if)
  then show ?thesis by (auto simp: signed_take_bit_int_eq_self)
qed

theorem amagic_width_witness:
  "S_amagic_ncmp plain ((iv 1)\<lparr>SvAMAGIC := True\<rparr>) (iv (2 ^ 32)) = 0"
  using amagic_width [of "(iv 1)\<lparr>SvAMAGIC := True\<rparr>" "iv (2 ^ 32)" plain "iv (2 ^ 32)"]
  by (simp add: plain_def iv_def)

text \<open>C35: \<open>sv_cmp\<close> compares the code points of its two strings one by one, the shorter first,
whether the strings are kept as bytes, as UTF-8, or one each way.\<close>

theorem sv_cmp_code_points:
  assumes "spells a us" "spells b vs" "\<not> IN_BYTES rt"
  shows "sv_cmp rt a b = lex_cmp us vs"
  using assms by (rule sv_cmp_spells)

theorem sv_cmp_code_points_witness: "sv_cmp plain (bytes_sv [0xE9]) (utf8_sv [0xE9, 0x20AC]) = lex_cmp [0xE9] [0xE9, 0x20AC :: u64]"
  by (rule sv_cmp_code_points) (simp_all add: spells_def bytes_sv_def utf8_sv_def plain_def)

text \<open>C36: the default sort is the stable sort by code points, descending with the flag for it, and
turned round with the flag for that; strings in either encoding may be mixed.\<close>

theorem sort_strings:
  assumes "\<not> PL_sortcop priv" "\<not> OPpSORT_NUMERIC priv" "\<not> IN_LC_COLLATE rt" "\<not> IN_BYTES rt"
    and spelt: "\<And>sv. sv \<in> set (given items) \<Longrightarrow> spells sv (text_of sv) \<and> \<not> SvAMAGIC sv"
    and room: "length items \<le> length aux" "length items \<le> 2 ^ 59" "length stack = 60"
  shows "\<exists>ys. pp_sort rt priv aux stack items = Some (if OPpSORT_REVERSE priv then rev ys else ys)
    \<and> mset ys = mset (given items)
    \<and> sorted_wrt (\<lambda>x y. (if OPpSORT_DESCEND priv then - 1 else 1) * lex_cmp (text_of x) (text_of y) \<le> 0) ys
    \<and> (\<forall>x \<in> set (given items). filter (\<lambda>y. text_of y = text_of x) ys = filter (\<lambda>y. text_of y = text_of x) (given items))"
proof -
  define cmp where "cmp = sort_compare rt priv True False"
  define d :: int where "d = (if OPpSORT_DESCEND priv then - 1 else 1)"
  have items: "sort_items rt priv items True False = (given items, True, False)"
    using assms(1,2) spelt by (intro sort_items_strings) (auto simp: spells_def)
  have cmp: "cmp x y = d * lex_cmp (text_of x) (text_of y)" if "x \<in> set (given items)" "y \<in> set (given items)" for x y
    using assms(1-4) spelt that sv_cmp_spells [of x "text_of x" y "text_of y" rt]
    by (simp add: cmp_def sort_compare_def S_cmp_desc_def d_def)
  have "comparator (set (given items)) (sv_cmp rt)"
    using spelt assms(4) by (intro comparator_text [of _ text_of]) auto
  then have "comparator (set (given items)) (if OPpSORT_DESCEND priv then (\<lambda>x y. - sv_cmp rt x y) else sv_cmp rt)"
    using comparator_uminus by auto
  also have "(if OPpSORT_DESCEND priv then (\<lambda>x y. - sv_cmp rt x y) else sv_cmp rt) = cmp"
    using assms(1-3) by (simp add: cmp_def sort_compare_def S_cmp_desc_def [abs_def])
  finally obtain ys where ys: "sortsv_flags cmp aux stack (given items) = Some ys" "mset ys = mset (given items)"
      "ordered (set (given items)) cmp ys" "same_order (set (given items)) cmp (given items) ys"
    using sortsv_flags_ok [of "given items" aux stack cmp] room length_given [of items] by fastforce
  have set: "set ys = set (given items)" using ys(2) by (rule mset_eq_setD)
  have "sorted_wrt (\<lambda>x y. d * lex_cmp (text_of x) (text_of y) \<le> 0) ys"
    using ys(3) unfolding ordered_def
    by (elim conjE sorted_wrt_mono_rel [rotated]) (simp add: set cmp)
  moreover have "filter (\<lambda>y. text_of y = text_of x) ys = filter (\<lambda>y. text_of y = text_of x) (given items)"
    if x: "x \<in> set (given items)" for x
  proof -
    have "filter (\<lambda>y. cmp x y = 0) zs = filter (\<lambda>y. text_of y = text_of x) zs" if "set zs = set (given items)" for zs
      using that x by (intro filter_cong) (auto simp: cmp d_def lex_cmp_eq)
    note this [OF set] this [OF refl]
    moreover have "filter (\<lambda>y. cmp x y = 0) ys = filter (\<lambda>y. cmp x y = 0) (given items)"
      using ys(4) x by (simp add: same_order_def)
    ultimately show ?thesis by simp
  qed
  moreover have "pp_sort rt priv aux stack items = Some (if OPpSORT_REVERSE priv then rev ys else ys)"
  proof (cases "length (given items) > 1")
    case True
    then show ?thesis using ys(1) sort_reverse_rev [of ys] by (simp add: pp_sort_def items cmp_def)
  next
    case False
    then have "ys = given items" using ys(1) by (simp add: sortsv_flags_def)
    moreover have "rev (given items) = given items" using False by (cases "given items") auto
    ultimately show ?thesis using False by (simp add: pp_sort_def items)
  qed
  ultimately show ?thesis using ys(2) d_def by blast
qed

theorem sort_strings_witness:
  "\<exists>ys. pp_sort plain back_to_front new_aux new_stack [Some (bytes_sv [0xE9]), Some (bytes_sv [0x41])]
      = Some (if OPpSORT_REVERSE back_to_front then rev ys else ys)
    \<and> mset ys = mset (given [Some (bytes_sv [0xE9]), Some (bytes_sv [0x41])])
    \<and> sorted_wrt (\<lambda>x y. (if OPpSORT_DESCEND back_to_front then - 1 else 1) * lex_cmp (map ucast (SvPVX x)) (map ucast (SvPVX y) :: u64 list) \<le> 0) ys
    \<and> (\<forall>x \<in> set (given [Some (bytes_sv [0xE9]), Some (bytes_sv [0x41])]).
        filter (\<lambda>y. (map ucast (SvPVX y) :: u64 list) = map ucast (SvPVX x)) ys
          = filter (\<lambda>y. (map ucast (SvPVX y) :: u64 list) = map ucast (SvPVX x)) (given [Some (bytes_sv [0xE9]), Some (bytes_sv [0x41])]))"
  by (rule sort_strings) (auto simp: spells_def bytes_sv_def plain_def back_to_front_def)

end
