(* ===== verification/Utf8_Bytes.thy ===== *)
theory Utf8_Bytes
  imports Utf8_Codec
begin

text \<open>
  Strings of UTF-8 as a whole: their length, and the conversions between UTF-8 and bytes, of
  \<open>src/utf8.c\<close> and \<open>src/inline.h\<close>. Long strings are read a word at a time, on a little-endian
  64-bit platform: \<open>addr\<close> is the address of the string modulo 8, a pointer is an index.
\<close>

section \<open>Words in a string\<close>

definition PERL_WORDSIZE :: nat where "PERL_WORDSIZE = 8"

definition PERL_COUNT_MULTIPLIER :: u64 where "PERL_COUNT_MULTIPLIER = NOT 0 div 0xFF"

definition PERL_VARIANTS_WORD_MASK :: u64 where "PERL_VARIANTS_WORD_MASK = PERL_COUNT_MULTIPLIER * 0x80"

text \<open>The word whose bytes, from the least significant one, are those of the list.\<close>

fun bytes_word :: "u8 list \<Rightarrow> u64" where
  "bytes_word [] = 0"
| "bytes_word (b # bs) = push_bit 8 (bytes_word bs) OR ucast b"

definition word_at :: "u8 list \<Rightarrow> nat \<Rightarrow> u64" where
  "word_at s i = bytes_word (take 8 (drop i s))"

definition BYTES_REMAINING_IN_WORD :: "nat \<Rightarrow> nat" where
  "BYTES_REMAINING_IN_WORD x = (PERL_WORDSIZE - x mod 8) mod 8"

definition WORTH_PER_WORD_LOOP :: "nat \<Rightarrow> nat \<Rightarrow> nat \<Rightarrow> nat \<Rightarrow> nat option" where
  "WORTH_PER_WORD_LOOP addr s e full_words_needed =
     (if s + BYTES_REMAINING_IN_WORD (addr + s) + full_words_needed * PERL_WORDSIZE < e
      then Some (s + BYTES_REMAINING_IN_WORD (addr + s)) else None)"

text \<open>The sum of the eight bytes of a word, each 0 or 1.\<close>

definition add_bytes :: "u64 \<Rightarrow> nat" where
  "add_bytes w = unat (drop_bit ((PERL_WORDSIZE - 1) * 8) (w * PERL_COUNT_MULTIPLIER))"

lemma UTF8SKIP_pos: "0 < UTF8SKIP c"
  unfolding UTF8SKIP_ranges by simp

section \<open>Invariant strings\<close>

text \<open>The position of the lowest byte with its top bit set.\<close>

fun lsbit :: "nat \<Rightarrow> u64 \<Rightarrow> nat" where
  "lsbit 0 w = 0"
| "lsbit (Suc n) w = (if bit w 0 then 0 else Suc (lsbit n (drop_bit 1 w)))"

definition variant_byte_number :: "u64 \<Rightarrow> nat" where
  "variant_byte_number word = (lsbit 64 (word AND PERL_VARIANTS_WORD_MASK) + 1) div 8 - 1"

text \<open>The per-byte loop up to \<open>e\<close>: the first variant, if there is one.\<close>

function first_variant_byte :: "u8 list \<Rightarrow> nat \<Rightarrow> nat \<Rightarrow> nat option" where
  "first_variant_byte s e x =
     (if x < e then if \<not> UTF8_IS_INVARIANT (s ! x) then Some x else first_variant_byte s e (x + 1) else None)"
  by pat_completeness auto
termination by (relation "measure (\<lambda>(s, e, x). e - x)") auto

declare first_variant_byte.simps [simp del]

text \<open>The per-word loop: the first variant, or where the loop ends.\<close>

function first_variant_word :: "u8 list \<Rightarrow> nat \<Rightarrow> nat \<Rightarrow> nat + nat" where
  "first_variant_word s send x =
     (if word_at s x AND PERL_VARIANTS_WORD_MASK \<noteq> 0 then Inl (x + variant_byte_number (word_at s x))
      else if x + PERL_WORDSIZE + PERL_WORDSIZE \<le> send then first_variant_word s send (x + PERL_WORDSIZE)
      else Inr (x + PERL_WORDSIZE))"
  by pat_completeness auto
termination by (relation "measure (\<lambda>(s, send, x). send - x)") (auto simp: PERL_WORDSIZE_def)

declare first_variant_word.simps [simp del]

text \<open>
  \<open>None\<close> when the function returns true, else the first variant. The end of the string is
  computed before a length of 0 is replaced by the position of the first NUL.
\<close>

definition is_utf8_invariant_string_loc :: "nat \<Rightarrow> u8 list \<Rightarrow> nat \<Rightarrow> nat option" where
  "is_utf8_invariant_string_loc addr s len =
     (let send = len; x = 0
      in case WORTH_PER_WORD_LOOP addr x send 1 of
           None \<Rightarrow> first_variant_byte s send x
         | Some per_byte_end \<Rightarrow>
             (case first_variant_byte s per_byte_end x of
                Some v \<Rightarrow> Some v
              | None \<Rightarrow> (case first_variant_word s send per_byte_end of
                          Inl v \<Rightarrow> Some v
                        | Inr x \<Rightarrow> first_variant_byte s send x)))"

section \<open>From bytes to UTF-8\<close>

function variant_words :: "u8 list \<Rightarrow> nat \<Rightarrow> nat \<Rightarrow> nat \<Rightarrow> nat \<times> nat" where
  "variant_words s e x cnt =
     (let cnt = cnt + add_bytes (drop_bit 7 (word_at s x AND PERL_VARIANTS_WORD_MASK)); x = x + PERL_WORDSIZE
      in if x + PERL_WORDSIZE \<le> e then variant_words s e x cnt else (x, cnt))"
  by pat_completeness auto
termination by (relation "measure (\<lambda>(s, e, x, cnt). e - x)") (auto simp: PERL_WORDSIZE_def)

declare variant_words.simps [simp del]

function variant_bytes :: "u8 list \<Rightarrow> nat \<Rightarrow> nat \<Rightarrow> nat \<Rightarrow> nat" where
  "variant_bytes s e x cnt =
     (if x < e then variant_bytes s e (x + 1) (if \<not> UTF8_IS_INVARIANT (s ! x) then cnt + 1 else cnt) else cnt)"
  by pat_completeness auto
termination by (relation "measure (\<lambda>(s, e, x, cnt). e - x)") auto

declare variant_bytes.simps [simp del]

definition variant_under_utf8_count :: "nat \<Rightarrow> u8 list \<Rightarrow> nat" where
  "variant_under_utf8_count addr s =
     (let e = length s
      in case WORTH_PER_WORD_LOOP addr 0 e 1 of
           None \<Rightarrow> variant_bytes s e 0 0
         | Some per_byte_end \<Rightarrow>
             (let cnt = variant_bytes s per_byte_end 0 0;
                  (x, cnt) = variant_words s e per_byte_end cnt
              in variant_bytes s e x cnt))"

definition append_utf8_from_native_byte :: "u8 \<Rightarrow> u8 list" where
  "append_utf8_from_native_byte byte =
     (if UTF8_IS_INVARIANT byte then [byte] else [UTF8_EIGHT_BIT_HI byte, UTF8_EIGHT_BIT_LO byte])"

text \<open>
  The result, and the size of the memory allocated for it with its trailing NUL, \<open>None\<close> when the
  input itself is returned.
\<close>

definition bytes_to_utf8_free_me :: "bool \<Rightarrow> nat \<Rightarrow> u8 list \<Rightarrow> u8 list \<times> nat option" where
  "bytes_to_utf8_free_me free_me_ptr addr s =
     (let variant_count = variant_under_utf8_count addr s
      in if free_me_ptr \<and> variant_count = 0 then (s, None)
         else (concat (map append_utf8_from_native_byte s), Some (length s + variant_count + 1)))"

definition bytes_to_utf8 :: "nat \<Rightarrow> u8 list \<Rightarrow> u8 list \<times> nat option" where
  "bytes_to_utf8 addr s = bytes_to_utf8_free_me False addr s"

section \<open>The number of characters\<close>

text \<open>
  The loop over the characters of a short string: whether it came to the end, where, and the
  number of characters.
\<close>

function length_chars :: "u8 list \<Rightarrow> nat \<Rightarrow> nat \<Rightarrow> nat \<Rightarrow> bool \<times> nat \<times> nat" where
  "length_chars s e x len =
     (if x < e
      then let expected_byte_count = UTF8SKIP (s ! x)
           in if e - x < expected_byte_count then (False, x, len)
              else length_chars s e (x + expected_byte_count) (len + 1)
      else (True, x, len))"
  by pat_completeness auto
termination by (relation "measure (\<lambda>(s, e, x, len). e - x)") (use UTF8SKIP_pos in \<open>auto intro: diff_less_mono2\<close>)

declare length_chars.simps [simp del]

text \<open>The three loops over a long string, which count its continuation bytes.\<close>

function length_align :: "u8 list \<Rightarrow> nat \<Rightarrow> nat \<Rightarrow> nat \<Rightarrow> nat \<times> nat" where
  "length_align s per_byte_end x continuations =
     (if x < per_byte_end
      then let skip = UTF8SKIP (s ! x)
           in length_align s per_byte_end (x + skip) (continuations + (skip - 1))
      else (x, continuations))"
  by pat_completeness auto
termination by (relation "measure (\<lambda>(s, e, x, c). e - x)") (use UTF8SKIP_pos in \<open>auto intro: diff_less_mono2\<close>)

declare length_align.simps [simp del]

function length_words :: "u8 list \<Rightarrow> nat \<Rightarrow> nat \<Rightarrow> nat \<Rightarrow> nat \<times> nat" where
  "length_words s e_limit x continuations =
     (let w = word_at s x;
          continuations = continuations + add_bytes (drop_bit 7 (w AND PERL_VARIANTS_WORD_MASK) AND drop_bit 6 (NOT w));
          x = x + PERL_WORDSIZE
      in if x + PERL_WORDSIZE \<le> e_limit then length_words s e_limit x continuations else (x, continuations))"
  by pat_completeness auto
termination by (relation "measure (\<lambda>(s, e, x, c). e - x)") (auto simp: PERL_WORDSIZE_def)

declare length_words.simps [simp del]

function length_starts :: "u8 list \<Rightarrow> nat \<Rightarrow> nat \<Rightarrow> nat \<Rightarrow> nat \<times> nat" where
  "length_starts s e x continuations =
     (let expected_byte_count = UTF8SKIP (s ! x)
      in if e - x < expected_byte_count then (x, continuations)
         else let continuations = continuations + (expected_byte_count - 1); x = x + expected_byte_count
              in if x < e then length_starts s e x continuations else (x, continuations))"
  by pat_completeness auto
termination by (relation "measure (\<lambda>(s, e, x, c). e - x)") (use UTF8SKIP_pos in \<open>auto intro: diff_less_mono2\<close>)

declare length_starts.simps [simp del]

function length_tail :: "u8 list \<Rightarrow> nat \<Rightarrow> nat \<Rightarrow> nat \<Rightarrow> nat \<times> nat" where
  "length_tail s e x continuations =
     (if x < e
      then if UTF8_IS_CONTINUATION (s ! x) then length_tail s e (x + 1) (continuations + 1)
           else length_starts s e x continuations
      else (x, continuations))"
  by pat_completeness auto
termination by (relation "measure (\<lambda>(s, e, x, c). e - x)") auto

declare length_tail.simps [simp del]

text \<open>The value returned, and whether a truncated character was reported.\<close>

definition utf8_length :: "nat \<Rightarrow> u8 list \<Rightarrow> nat \<times> bool" where
  "utf8_length addr s =
     (let e = length s
      in case WORTH_PER_WORD_LOOP addr 0 e 12 of
           None \<Rightarrow> (case length_chars s e 0 0 of (complete, x, len) \<Rightarrow> if complete \<and> e = x then (len, False) else (x, True))
         | Some per_byte_end \<Rightarrow>
             (let e_limit = e - UTF8_MAXBYTES;
                  (x, continuations) = length_align s per_byte_end 0 0;
                  continuations = continuations - (x - per_byte_end);
                  (x, continuations) = length_words s e_limit per_byte_end continuations;
                  (x, continuations) = length_tail s e x continuations
              in if e = x then (x - continuations, False) else (x - continuations, True)))"

section \<open>From UTF-8 to bytes\<close>

datatype utf8_to_bytes_arg = utf8_to_bytes_overwrite | utf8_to_bytes_new_memory | utf8_to_bytes_use_temporary

definition UTF8_IS_NEXT_CHAR_DOWNGRADEABLE :: "u8 list \<Rightarrow> nat \<Rightarrow> nat \<Rightarrow> bool" where
  "UTF8_IS_NEXT_CHAR_DOWNGRADEABLE s x e \<longleftrightarrow>
     e - x > 1 \<and> UTF8_IS_DOWNGRADEABLE_START (s ! x) \<and> UTF8_IS_CONTINUATION (s ! (x + 1))"

text \<open>The byte-wise check up to \<open>lim\<close>, in a string that ends at \<open>send\<close>; \<open>None\<close> when it fails.\<close>

function check_bytes :: "u8 list \<Rightarrow> nat \<Rightarrow> nat \<Rightarrow> nat \<Rightarrow> nat \<Rightarrow> (nat \<times> nat) option" where
  "check_bytes s send lim x variant_count =
     (if x < lim
      then if \<not> UTF8_IS_INVARIANT (s ! x)
           then if \<not> UTF8_IS_NEXT_CHAR_DOWNGRADEABLE s x send then None
                else check_bytes s send lim (x + 2) (variant_count + 1)
           else check_bytes s send lim (x + 1) variant_count
      else Some (x, variant_count))"
  by pat_completeness auto
termination by (relation "measure (\<lambda>(s, send, lim, x, v). lim - x)") auto

declare check_bytes.simps [simp del]

text \<open>The most significant bit of every byte of a word that is 0.\<close>

definition zero_bytes :: "u64 \<Rightarrow> u64" where
  "zero_bytes w =
     (let w = w OR push_bit 1 w; w = w OR push_bit 2 w; w = w OR push_bit 4 w
      in NOT w AND PERL_VARIANTS_WORD_MASK)"

function check_words :: "u8 list \<Rightarrow> nat \<Rightarrow> nat \<Rightarrow> nat \<Rightarrow> (nat \<times> nat) option" where
  "check_words s send x variant_count =
     (let C0_mask = PERL_COUNT_MULTIPLIER * 0xC0; C2_mask = PERL_COUNT_MULTIPLIER * 0xC2;
          FE_mask = PERL_COUNT_MULTIPLIER * 0xFE; w = word_at s x;
          start_bytes = zero_bytes ((w AND C0_mask) XOR C0_mask);
          C2_C3_start_bytes = zero_bytes ((w AND FE_mask) XOR C2_mask)
      in if start_bytes \<noteq> C2_C3_start_bytes then None
         else let variant_count = variant_count + add_bytes (drop_bit 7 start_bytes); x = x + PERL_WORDSIZE
              in if x + PERL_WORDSIZE \<le> send then check_words s send x variant_count
                 else Some (x, variant_count))"
  by pat_completeness auto
termination by (relation "measure (\<lambda>(s, send, x, v). send - x)") (auto simp: PERL_WORDSIZE_def)

declare check_words.simps [simp del]

text \<open>The first pass from the first variant: the number of variants.\<close>

definition check_downgradeable :: "nat \<Rightarrow> u8 list \<Rightarrow> nat \<Rightarrow> nat option" where
  "check_downgradeable addr s first_variant =
     (let send = length s
      in Option.bind
           (case WORTH_PER_WORD_LOOP addr first_variant send 5 of
              None \<Rightarrow> Some (first_variant, 0)
            | Some per_byte_end \<Rightarrow>
                Option.bind (check_bytes s send per_byte_end first_variant 0) (\<lambda>(x, variant_count).
                map_option (\<lambda>(x, variant_count).
                    if x > first_variant \<and> UTF8_IS_START (s ! (x - 1)) then (x - 1, variant_count - 1)
                    else (x, variant_count))
                  (check_words s send per_byte_end variant_count)))
           (\<lambda>(x, variant_count). map_option snd (check_bytes s send send x variant_count)))"

text \<open>
  The second pass, which converts and checks again, from the byte at \<open>x\<close> to the byte at \<open>d\<close> of
  \<open>d0\<close>; when it overwrites, it reads what it writes. Whether it came to the end, where it reads
  and writes next, and the memory.
\<close>

function convert_bytes :: "bool \<Rightarrow> u8 list \<Rightarrow> nat \<Rightarrow> nat \<Rightarrow> u8 list \<Rightarrow> bool \<times> nat \<times> nat \<times> u8 list" where
  "convert_bytes overwrite s x d d0 =
     (let send = length s; source = (if overwrite then d0 else s)
      in if x < send
         then let c = source ! x; x = x + 1
              in if \<not> UTF8_IS_INVARIANT c
                 then if UTF8_IS_CONTINUATION c \<or> x \<ge> send \<or> \<not> UTF8_IS_CONTINUATION (source ! x)
                      then (False, x, d, d0)
                      else convert_bytes overwrite s (x + 1) (d + 1)
                             (d0[d := EIGHT_BIT_UTF8_TO_NATIVE c (source ! x)])
                 else convert_bytes overwrite s x (d + 1) (d0[d := c])
         else (True, x, d, d0))"
  by pat_completeness auto
termination by (relation "measure (\<lambda>(overwrite, s, x, d, d0). length s - x)") auto

declare convert_bytes.simps [simp del]

text \<open>
  The two loops that undo an overwriting; \<open>None\<close> when one of them leaves the string, and what it
  accesses is unknown.
\<close>

function undo_find :: "u8 list \<Rightarrow> int \<Rightarrow> int \<Rightarrow> int \<Rightarrow> (int \<times> int) option" where
  "undo_find m d s s1 =
     (if s \<ge> d
      then if s1 < 0 then None
           else let s = s - 1; s = (if \<not> UTF8_IS_INVARIANT (m ! nat s1) then s - 1 else s)
                in undo_find m d s (s1 - 1)
      else Some (s, s1))"
  by pat_completeness auto
termination by (relation "measure (\<lambda>(m, d, s, s1). nat (s - d + 1))") auto

declare undo_find.simps [simp del]

function undo_bytes :: "int \<Rightarrow> u8 list \<Rightarrow> int \<Rightarrow> int \<Rightarrow> u8 list option" where
  "undo_bytes first_variant m s s1 =
     (if s1 \<ge> first_variant
      then if s < 0 then None
           else let c = m ! nat s1
                in if UTF8_IS_INVARIANT c then undo_bytes first_variant (m[nat s := c]) (s - 1) (s1 - 1)
                   else if s < 1 then None
                   else undo_bytes first_variant
                          ((m[nat s := UTF8_EIGHT_BIT_LO c])[nat (s - 1) := UTF8_EIGHT_BIT_HI c]) (s - 2) (s1 - 1)
      else Some m)"
  by pat_completeness auto
termination by (relation "measure (\<lambda>(f, m, s, s1). nat (s1 - f + 1))") auto

declare undo_bytes.simps [simp del]

definition undo_overwrite :: "u8 list \<Rightarrow> nat \<Rightarrow> nat \<Rightarrow> nat \<Rightarrow> u8 list option" where
  "undo_overwrite m first_variant d s =
     Option.bind (undo_find m (int d) (int s) (int d)) (\<lambda>(s, s1). undo_bytes (int first_variant) m s s1)"

text \<open>
  What the conversion returns, the memory of its input and the length it leaves, and the memory
  it allocated when it returns that, a trailing NUL included.
\<close>

record bytes_result =
  returned :: bool
  input_memory :: "u8 list"
  lenp :: nat
  new_memory :: "u8 list option"

text \<open>
  \<open>fresh\<close> is what newly allocated memory holds. \<open>None\<close> when the undoing leaves the string.
\<close>

definition utf8_to_bytes_as :: "utf8_to_bytes_arg \<Rightarrow> (nat \<Rightarrow> u8) \<Rightarrow> nat \<Rightarrow> u8 list \<Rightarrow> bytes_result option" where
  "utf8_to_bytes_as result_as fresh addr s =
     (let unchanged = \<lambda>b. \<lparr>returned = b, input_memory = s, lenp = length s, new_memory = None\<rparr>;
          overwrite = (result_as = utf8_to_bytes_overwrite)
      in case is_utf8_invariant_string_loc addr s (length s) of
           None \<Rightarrow> Some (unchanged True)
         | Some first_variant \<Rightarrow>
             (case check_downgradeable addr s first_variant of
                None \<Rightarrow> Some (unchanged False)
              | Some variant_count \<Rightarrow>
                  (let d0 = (if overwrite then s
                             else take first_variant s
                                  @ map fresh [first_variant..<length s + 1 - variant_count])
                   in case convert_bytes overwrite s first_variant first_variant d0 of
                        (True, x, d, d0) \<Rightarrow>
                          (let d0 = d0[d := 0]
                           in Some (if overwrite
                                then \<lparr>returned = True, input_memory = d0, lenp = d, new_memory = None\<rparr>
                                else \<lparr>returned = True, input_memory = s, lenp = d, new_memory = Some d0\<rparr>))
                      | (False, x, d, d0) \<Rightarrow>
                          if overwrite
                          then map_option (\<lambda>m. (unchanged False)\<lparr>input_memory := m\<rparr>)
                                 (undo_overwrite d0 first_variant d x)
                          else Some (unchanged False))))"

text \<open>The older interfaces: the result with its length, and the memory of the input.\<close>

definition utf8_to_bytes :: "(nat \<Rightarrow> u8) \<Rightarrow> nat \<Rightarrow> u8 list \<Rightarrow> (u8 list option \<times> u8 list) option" where
  "utf8_to_bytes fresh addr s =
     map_option (\<lambda>r. (if returned r then Some (take (lenp r) (input_memory r)) else None, input_memory r))
       (utf8_to_bytes_as utf8_to_bytes_overwrite fresh addr s)"

text \<open>The string returned, its flag, and the memory allocated for it.\<close>

definition bytes_from_utf8 :: "(nat \<Rightarrow> u8) \<Rightarrow> nat \<Rightarrow> bool \<Rightarrow> u8 list \<Rightarrow> (u8 list \<times> bool \<times> u8 list option) option" where
  "bytes_from_utf8 fresh addr is_utf8 s =
     (if is_utf8
      then map_option (\<lambda>r.
             if returned r
             then case new_memory r of
                    None \<Rightarrow> (take (lenp r) s, False, Some (take (lenp r) s @ [0]))
                  | Some m \<Rightarrow> (take (lenp r) m, False, Some m)
             else (s, True, None))
           (utf8_to_bytes_as utf8_to_bytes_new_memory fresh addr s)
      else Some (s, False, None))"

end
