(* ===== verification/Utf8_Words.thy ===== *)
theory Utf8_Words
  imports Utf8_Bytes
begin

text \<open>
  What the operations on eight bytes at a time compute, byte by byte, and with it the search for
  the first variant and the count of variants.
\<close>

section \<open>The bytes of a word\<close>

lemma bit_bytes_word:
  "bit (bytes_word bs) n \<longleftrightarrow> n < 64 \<and> n div 8 < length bs \<and> bit (bs ! (n div 8)) (n mod 8)"
proof (induction bs arbitrary: n)
  case (Cons b bs)
  show ?case
  proof (cases "n < 8")
    case True
    then show ?thesis by (auto simp: bit_simps)
  next
    case False
    then obtain k where "n = k + 8" by (metis add.commute le_Suc_ex not_less)
    then have "(n - 8) div 8 = n div 8 - 1" "(n - 8) mod 8 = n mod 8" "n div 8 \<noteq> 0" by simp_all
    moreover have "\<not> bit b n" using False bit_imp_le_length [of b n] by auto
    moreover from calculation have "n div 8 < Suc (length bs) \<longleftrightarrow> n div 8 - 1 < length bs" by linarith
    ultimately show ?thesis using False Cons [of "n - 8"] by (auto simp: bit_simps nth_Cons')
  qed
qed simp

lemma bytes_word_and: "length as = length bs \<Longrightarrow> bytes_word as AND bytes_word bs = bytes_word (map2 (AND) as bs)"
  by (rule bit_word_eqI) (auto simp: bit_simps bit_bytes_word)

lemma bytes_word_xor: "length as = length bs \<Longrightarrow> bytes_word as XOR bytes_word bs = bytes_word (map2 (XOR) as bs)"
  by (rule bit_word_eqI) (auto simp: bit_simps bit_bytes_word)

lemma replicated:
  "PERL_COUNT_MULTIPLIER * 0x80 = bytes_word (replicate 8 0x80)"
  "PERL_COUNT_MULTIPLIER * 0xC0 = bytes_word (replicate 8 0xC0)"
  "PERL_COUNT_MULTIPLIER * 0xC2 = bytes_word (replicate 8 0xC2)"
  "PERL_COUNT_MULTIPLIER * 0xFE = bytes_word (replicate 8 0xFE)"
  by code_simp+

text \<open>A word of eight flags.\<close>

definition flags_word :: "('a \<Rightarrow> bool) \<Rightarrow> 'a list \<Rightarrow> u64" where
  "flags_word P bs = bytes_word (map (\<lambda>b. of_bool (P b)) bs)"

lemma bit_flags_word:
  "length bs = 8 \<Longrightarrow> bit (flags_word P bs) n \<longleftrightarrow> n < 64 \<and> n mod 8 = 0 \<and> P (bs ! (n div 8))"
  by (auto simp: flags_word_def bit_bytes_word bit_simps)

lemma unat_bytes_word: "length bs \<le> 8 \<Longrightarrow> unat (bytes_word bs) = foldr (\<lambda>b v. unat b + v * 256) bs 0 \<and> unat (bytes_word bs) < 256 ^ length bs"
proof (induction bs)
  case (Cons b bs)
  have "push_bit 8 (bytes_word bs) OR ucast b = push_bit 8 (bytes_word bs) + ucast b"
    by (rule disjunctive_add [symmetric]) (use bit_imp_le_length [of b] in \<open>fastforce simp: bit_simps\<close>)
  moreover have b: "unat (ucast b :: u64) = unat b" "unat b < 256"
    using unat_ucast_u8 [of b] unsigned_less [of b, where 'a = nat] by simp_all
  moreover have p: "unat (push_bit 8 (bytes_word bs)) = 256 * unat (bytes_word bs)"
  proof -
    have "256 * 256 ^ length bs \<le> (256::nat) ^ 8" using Cons.prems by (subst power_Suc [symmetric], intro power_increasing) simp_all
    with Cons show ?thesis by (subst unsigned_push_bit_eq) (simp add: push_bit_eq_mult take_bit_eq_mod)
  qed
  moreover have "256 * unat (bytes_word bs) + unat b < 256 ^ Suc (length bs)" using Cons b(2) by simp
  moreover have "(256::nat) ^ Suc (length bs) \<le> 256 ^ 8" using Cons.prems by (intro power_increasing) simp_all
  ultimately have "unat (bytes_word (b # bs)) = 256 * unat (bytes_word bs) + unat b"
    using unat_add_lem [of "push_bit 8 (bytes_word bs)" "ucast b"] by simp
  then show ?case using Cons \<open>256 * unat (bytes_word bs) + unat b < 256 ^ Suc (length bs)\<close> by simp
qed simp

lemma middle_digits:
  fixes a :: nat
  shows "a = s * 2 ^ 56 + l + h * 2 ^ 64 \<Longrightarrow> l < 2 ^ 56 \<Longrightarrow> s * 2 ^ 56 + l < 2 ^ 64 \<Longrightarrow> a mod 2 ^ 64 div 2 ^ 56 = s"
  by simp

lemma sum_by_product:
  fixes c0 :: nat
  assumes "c0 \<le> 1" "c1 \<le> 1" "c2 \<le> 1" "c3 \<le> 1" "c4 \<le> 1" "c5 \<le> 1" "c6 \<le> 1" "c7 \<le> 1"
  shows "(c0 * 1 + c1 * 256 + c2 * 65536 + c3 * 16777216 + c4 * 4294967296 + c5 * 1099511627776 + c6 * 281474976710656 + c7 * 72057594037927936) * 72340172838076673 mod 2 ^ 64 div 2 ^ 56
      = c0 + c1 + c2 + c3 + c4 + c5 + c6 + c7" (is "?v * _ mod _ div _ = ?s")
proof -
  define l where "l = (c0) * 1 + (c0 + c1) * 256 + (c0 + c1 + c2) * 65536 + (c0 + c1 + c2 + c3) * 16777216 + (c0 + c1 + c2 + c3 + c4) * 4294967296 + (c0 + c1 + c2 + c3 + c4 + c5) * 1099511627776 + (c0 + c1 + c2 + c3 + c4 + c5 + c6) * 281474976710656"
  define h where "h = (c1 + c2 + c3 + c4 + c5 + c6 + c7) * 1 + (c2 + c3 + c4 + c5 + c6 + c7) * 256 + (c3 + c4 + c5 + c6 + c7) * 65536 + (c4 + c5 + c6 + c7) * 16777216 + (c5 + c6 + c7) * 4294967296 + (c6 + c7) * 1099511627776 + (c7) * 281474976710656"
  show ?thesis
  proof (rule middle_digits)
    show "?v * 72340172838076673 = ?s * 2 ^ 56 + l + h * 2 ^ 64" by (simp add: l_def h_def)
    show "l < 2 ^ 56" using assms unfolding l_def by simp
    then show "?s * 2 ^ 56 + l < 2 ^ 64" using assms by simp
  qed
qed

lemma eight: "length bs = 8 \<Longrightarrow> \<exists>b0 b1 b2 b3 b4 b5 b6 b7. bs = [b0, b1, b2, b3, b4, b5, b6, b7]"
  by (auto simp: length_Suc_conv eval_nat_numeral)

lemma add_bytes_flags:
  assumes "length bs = 8"
  shows "add_bytes (flags_word P bs) = length (filter P bs)"
proof -
  from eight [OF assms] obtain b0 b1 b2 b3 b4 b5 b6 b7 where bs: "bs = [b0, b1, b2, b3, b4, b5, b6, b7]" by blast
  define c where "c b = (of_bool (P b) :: nat)" for b
  have c: "c b \<le> 1" "unat (of_bool (P b) :: u8) = c b" for b by (simp_all add: c_def)
  have "add_bytes (flags_word P bs) = unat (flags_word P bs) * unat PERL_COUNT_MULTIPLIER mod 2 ^ 64 div 2 ^ 56"
    by (simp add: add_bytes_def PERL_WORDSIZE_def unat_drop_bit unat_word_ariths)
  also have "unat PERL_COUNT_MULTIPLIER = 72340172838076673"
  proof -
    have m: "PERL_COUNT_MULTIPLIER = 72340172838076673" by code_simp
    show ?thesis unfolding m by simp
  qed
  also have "unat (flags_word P bs) = c b0 * 1 + c b1 * 256 + c b2 * 65536 + c b3 * 16777216 + c b4 * 4294967296
      + c b5 * 1099511627776 + c b6 * 281474976710656 + c b7 * 72057594037927936"
    using unat_bytes_word [of "map (\<lambda>b. of_bool (P b)) bs"] assms
    unfolding flags_word_def bs by (simp add: c(2))
  also have "\<dots> * 72340172838076673 mod 2 ^ 64 div 2 ^ 56 = c b0 + c b1 + c b2 + c b3 + c b4 + c b5 + c b6 + c b7"
    by (rule sum_by_product) (rule c(1))+
  also have "\<dots> = length (filter P bs)" unfolding bs c_def by simp
  finally show ?thesis .
qed

section \<open>Flags of bytes\<close>

lemma top_bits:
  fixes b :: u8
  shows "bit b 7 \<longleftrightarrow> 128 \<le> unat b" "bit b 6 \<longleftrightarrow> odd (unat b div 64)"
proof -
  have odd: "bit b n \<longleftrightarrow> odd (unat b div 2 ^ n)" if "n < 8" for n
    using that bit_unsigned_iff [of b n, where 'a = nat] by (simp add: bit_iff_odd [of "unat b"])
  have "unat b div 128 = 0 \<or> unat b div 128 = 1" using unsigned_less [of b, where 'a = nat] by auto
  moreover have "unat b div 128 = 1 \<longleftrightarrow> 128 \<le> unat b" using unsigned_less [of b, where 'a = nat] by auto
  ultimately show "bit b 7 \<longleftrightarrow> 128 \<le> unat b" using odd [of 7] by auto
  show "bit b 6 \<longleftrightarrow> odd (unat b div 64)" using odd [of 6] by simp
qed

lemma byte_class_bits:
  "UTF8_IS_INVARIANT b \<longleftrightarrow> \<not> bit b 7" "UTF8_IS_CONTINUATION b \<longleftrightarrow> bit b 7 \<and> \<not> bit b 6"
  unfolding top_bits IS_CONTINUATION_iff
proof -
  show "UTF8_IS_INVARIANT b \<longleftrightarrow> \<not> 128 \<le> unat b" by (auto simp: UTF8_IS_INVARIANT_def word_less_nat_alt)
  have "unat b div 64 \<in> {0, 1, 2, 3}" using unsigned_less [of b, where 'a = nat] by auto
  then show "(unat b div 64 = 2) = (128 \<le> unat b \<and> \<not> odd (unat b div 64))" by auto
qed

lemma unat_drop_bit_u8: "unat (drop_bit k (b :: u8)) = unat b div 2 ^ k"
  by (metis drop_bit_eq_div unsigned_drop_bit_eq unsigned_take_bit_eq take_bit_word_eq_self order_refl)

lemma unat_and_not_mask:
  fixes b :: u8
  shows "unat (b AND NOT (mask k)) = unat b div 2 ^ k * 2 ^ k"
proof -
  have "unat b div 2 ^ k * 2 ^ k < 256"
    by (rule le_less_trans [OF div_times_less_eq_dividend]) (use unsigned_less [of b, where 'a = nat] in simp)
  then have "unat (push_bit k (drop_bit k b)) = unat b div 2 ^ k * 2 ^ k"
    by (subst unsigned_push_bit_eq) (simp add: unat_drop_bit_u8 push_bit_eq_mult [where 'a = nat] take_bit_eq_mod)
  moreover have "b AND NOT (mask k) = push_bit k (drop_bit k b)"
    by (rule bit_word_eqI) (auto simp: bit_simps)
  ultimately show ?thesis by metis
qed

lemma bit_0x80: "bit (0x80 :: u8) k \<longleftrightarrow> k = 7"
proof -
  have "bit (push_bit 7 (1 :: u8)) k \<longleftrightarrow> k = 7" by (subst bit_push_bit_iff) (auto simp: bit_1_iff)
  then show ?thesis by simp
qed

lemma bit_VARIANTS: "bit PERL_VARIANTS_WORD_MASK n \<longleftrightarrow> n < 64 \<and> n mod 8 = 7"
proof -
  have "n div 8 < 8" if "n < 64" using that by simp
  then show ?thesis
    unfolding PERL_VARIANTS_WORD_MASK_def replicated bit_bytes_word length_replicate
    by (metis bit_0x80 nth_replicate)
qed

lemma variant_flags:
  assumes "length bs = 8"
  shows "drop_bit 7 (bytes_word bs AND PERL_VARIANTS_WORD_MASK) = flags_word (\<lambda>b. \<not> UTF8_IS_INVARIANT b) bs"
proof (rule bit_word_eqI)
  fix n
  assume "n < LENGTH(64)"
  have "(7 + n) mod 8 = 7 \<longleftrightarrow> n mod 8 = 0" "n mod 8 = 0 \<Longrightarrow> (7 + n) div 8 = n div 8" by presburger+
  then show "bit (drop_bit 7 (bytes_word bs AND PERL_VARIANTS_WORD_MASK)) n
      \<longleftrightarrow> bit (flags_word (\<lambda>b. \<not> UTF8_IS_INVARIANT b) bs) n"
    using assms \<open>n < LENGTH(64)\<close>
    by (auto simp: bit_drop_bit_eq bit_and_iff bit_bytes_word bit_VARIANTS bit_flags_word byte_class_bits)
qed

lemma continuation_flags:
  assumes "length bs = 8"
  shows "drop_bit 7 (bytes_word bs AND PERL_VARIANTS_WORD_MASK) AND drop_bit 6 (NOT (bytes_word bs))
    = flags_word UTF8_IS_CONTINUATION bs"
proof (rule bit_word_eqI)
  fix n
  assume "n < LENGTH(64)"
  have "n mod 8 = 0 \<Longrightarrow> (6 + n) mod 8 = 6" "n mod 8 = 0 \<Longrightarrow> (6 + n) div 8 = n div 8" by presburger+
  then show "bit (drop_bit 7 (bytes_word bs AND PERL_VARIANTS_WORD_MASK) AND drop_bit 6 (NOT (bytes_word bs))) n
      \<longleftrightarrow> bit (flags_word UTF8_IS_CONTINUATION bs) n"
    using assms \<open>n < LENGTH(64)\<close> unfolding variant_flags [OF assms]
    by (auto simp: bit_drop_bit_eq bit_and_iff bit_not_iff bit_bytes_word bit_flags_word byte_class_bits)
qed

text \<open>The smearing of \<open>zero_bytes\<close> finds the bytes that are 0.\<close>

lemma bit_smear:
  fixes w :: u64
  shows "j \<le> m \<Longrightarrow> m < 64 \<Longrightarrow> bit (w OR push_bit j w) m \<longleftrightarrow> bit w m \<or> bit w (m - j)"
  by (simp only: bit_or_iff bit_push_bit_iff) simp

lemma bit_zero_bytes:
  "bit (zero_bytes w) n \<longleftrightarrow> n < 64 \<and> n mod 8 = 7 \<and> (\<forall>k \<in> {0, 1, 2, 3, 4, 5, 6, 7}. \<not> bit w (n - k))"
proof (cases "n < 64 \<and> n mod 8 = 7")
  case True
  then have n: "7 \<le> n" "n < 64" using mod_less_eq_dividend [of n 8] by simp_all
  define w1 where "w1 = w OR push_bit 1 w"
  define w2 where "w2 = w1 OR push_bit 2 w1"
  define w3 where "w3 = w2 OR push_bit 4 w2"
  have "bit w1 m \<longleftrightarrow> bit w m \<or> bit w (m - 1)" if "1 \<le> m" "m < 64" for m
    unfolding w1_def using that by (rule bit_smear)
  moreover have "bit w2 m \<longleftrightarrow> bit w1 m \<or> bit w1 (m - 2)" if "2 \<le> m" "m < 64" for m
    unfolding w2_def using that by (rule bit_smear)
  moreover have "bit w3 m \<longleftrightarrow> bit w2 m \<or> bit w2 (m - 4)" if "4 \<le> m" "m < 64" for m
    unfolding w3_def using that by (rule bit_smear)
  ultimately have "bit w3 n \<longleftrightarrow> bit w n \<or> bit w (n - 1) \<or> bit w (n - 2) \<or> bit w (n - 3) \<or> bit w (n - 4)
      \<or> bit w (n - 5) \<or> bit w (n - 6) \<or> bit w (n - 7)"
    using n by simp
  moreover have "zero_bytes w = NOT w3 AND PERL_VARIANTS_WORD_MASK"
    unfolding zero_bytes_def w1_def w2_def w3_def Let_def by (rule refl)
  ultimately show ?thesis using True by (simp add: bit_and_iff bit_not_iff bit_VARIANTS)
next
  case False
  then show ?thesis by (auto simp: zero_bytes_def Let_def bit_and_iff bit_VARIANTS)
qed

lemma byte_zero: "(b :: u8) = 0 \<longleftrightarrow> (\<forall>k \<in> {0, 1, 2, 3, 4, 5, 6, 7}. \<not> bit b (7 - k))"
proof
  assume none: "\<forall>k \<in> {0, 1, 2, 3, 4, 5, 6, 7}. \<not> bit b (7 - k)"
  show "b = 0"
  proof (rule bit_word_eqI)
    fix n
    assume "n < LENGTH(8)"
    then have "7 - n \<in> {0, 1, 2, 3, 4, 5, 6, 7}" "7 - (7 - n) = n" by auto
    with none have "\<not> bit b n" by metis
    then show "bit b n = bit 0 n" by simp
  qed
qed simp

lemma zero_flags:
  assumes "length bs = 8"
  shows "drop_bit 7 (zero_bytes (bytes_word bs)) = flags_word (\<lambda>b. b = 0) bs"
proof (rule bit_word_eqI)
  fix n
  assume n: "n < LENGTH(64)"
  show "bit (drop_bit 7 (zero_bytes (bytes_word bs))) n \<longleftrightarrow> bit (flags_word (\<lambda>b. b = 0) bs) n"
  proof (cases "n mod 8 = 0")
    case True
    then obtain q where q: "n = 8 * q" by auto
    with n have "q < 8" by simp
    have "bit (bytes_word bs) (7 + n - k) \<longleftrightarrow> bit (bs ! q) (7 - k)" if "k \<in> {0, 1, 2, 3, 4, 5, 6, 7}" for k
    proof -
      have "7 + n - k = 8 * q + (7 - k)" using that q by auto
      moreover have "(8 * q + (7 - k)) div 8 = q" "(8 * q + (7 - k)) mod 8 = 7 - k" by simp_all
      moreover have "8 * q + (7 - k) < 64" using \<open>q < 8\<close> by simp
      ultimately show ?thesis using assms \<open>q < 8\<close> by (simp add: bit_bytes_word)
    qed
    moreover have "7 + n < 64" "(7 + n) mod 8 = 7" "n div 8 = q" using q \<open>q < 8\<close> by simp_all
    ultimately have "bit (drop_bit 7 (zero_bytes (bytes_word bs))) n \<longleftrightarrow> bs ! q = 0"
      unfolding bit_drop_bit_eq bit_zero_bytes byte_zero by (simp only: comp_def simp_thms) blast
    moreover have "bit (flags_word (\<lambda>b. b = 0) bs) n \<longleftrightarrow> bs ! q = 0"
      using n True \<open>n div 8 = q\<close> by (simp add: bit_flags_word [OF assms])
    ultimately show ?thesis by (simp only:)
  next
    case False
    then have "(7 + n) mod 8 \<noteq> 7" by presburger
    with False show ?thesis by (simp add: bit_drop_bit_eq bit_zero_bytes bit_flags_word assms)
  qed
qed

lemma xor_zero: "(a :: u8) XOR b = 0 \<longleftrightarrow> a = b"
  by (metis xor.assoc xor.comm_neutral xor_self_eq)

lemma start_bits:
  fixes b :: u8
  shows "(b AND 0xC0) XOR 0xC0 = 0 \<longleftrightarrow> 192 \<le> unat b"
    "(b AND 0xFE) XOR 0xC2 = 0 \<longleftrightarrow> unat b \<in> {194, 195}"
proof -
  have masks: "NOT (mask 6) = (0xC0 :: u8)" "NOT (mask 1) = (0xFE :: u8)" by (simp_all add: mask_eq_exp_minus_1)
  have "(b AND 0xC0) XOR 0xC0 = 0 \<longleftrightarrow> unat (b AND 0xC0) = 192" unfolding xor_zero by (simp add: word_unat_eq_iff)
  also have "unat (b AND 0xC0) = unat b div 64 * 64" using unat_and_not_mask [of b 6] unfolding masks by simp
  also have "unat b div 64 * 64 = 192 \<longleftrightarrow> 192 \<le> unat b" using unsigned_less [of b, where 'a = nat] by auto
  finally show "(b AND 0xC0) XOR 0xC0 = 0 \<longleftrightarrow> 192 \<le> unat b" .
  have "(b AND 0xFE) XOR 0xC2 = 0 \<longleftrightarrow> unat (b AND 0xFE) = 194" unfolding xor_zero by (simp add: word_unat_eq_iff)
  also have "unat (b AND 0xFE) = unat b div 2 * 2" using unat_and_not_mask [of b 1] unfolding masks by simp
  also have "unat b div 2 * 2 = 194 \<longleftrightarrow> unat b \<in> {194, 195}" by auto
  finally show "(b AND 0xFE) XOR 0xC2 = 0 \<longleftrightarrow> unat b \<in> {194, 195}" .
qed

lemma masked_flags:
  assumes "length bs = 8"
  shows "drop_bit 7 (zero_bytes ((bytes_word bs AND PERL_COUNT_MULTIPLIER * 0xC0) XOR (PERL_COUNT_MULTIPLIER * 0xC0)))
      = flags_word (\<lambda>b. 192 \<le> unat b) bs"
    "drop_bit 7 (zero_bytes ((bytes_word bs AND PERL_COUNT_MULTIPLIER * 0xFE) XOR (PERL_COUNT_MULTIPLIER * 0xC2)))
      = flags_word (\<lambda>b. unat b \<in> {194, 195}) bs"
proof -
  have masked: "(bytes_word bs AND bytes_word (replicate 8 m)) XOR bytes_word (replicate 8 c)
      = bytes_word (map (\<lambda>b. (b AND m) XOR c) bs)" for m c
  proof -
    have "map2 (XOR) (map2 (AND) bs (replicate 8 m)) (replicate 8 c) = map (\<lambda>b. (b AND m) XOR c) bs"
      using assms by (intro nth_equalityI) simp_all
    then show ?thesis using assms by (simp add: bytes_word_and bytes_word_xor)
  qed
  have flags: "flags_word P (map f bs) = flags_word (\<lambda>b. P (f b)) bs" for P :: "u8 \<Rightarrow> bool" and f
    by (simp add: flags_word_def comp_def)
  show "drop_bit 7 (zero_bytes ((bytes_word bs AND PERL_COUNT_MULTIPLIER * 0xC0) XOR (PERL_COUNT_MULTIPLIER * 0xC0)))
      = flags_word (\<lambda>b. 192 \<le> unat b) bs"
    using zero_flags [of "map (\<lambda>b. (b AND 0xC0) XOR 0xC0) bs"] assms
    unfolding replicated masked by (simp only: flags start_bits length_map)
  show "drop_bit 7 (zero_bytes ((bytes_word bs AND PERL_COUNT_MULTIPLIER * 0xFE) XOR (PERL_COUNT_MULTIPLIER * 0xC2)))
      = flags_word (\<lambda>b. unat b \<in> {194, 195}) bs"
    using zero_flags [of "map (\<lambda>b. (b AND 0xFE) XOR 0xC2) bs"] assms
    unfolding replicated masked by (simp only: flags start_bits length_map)
qed

text \<open>The test of \<open>check_words\<close>.\<close>

lemma zero_bytes_inject: "zero_bytes v = zero_bytes w \<longleftrightarrow> drop_bit 7 (zero_bytes v) = drop_bit 7 (zero_bytes w)"
proof
  assume eq: "drop_bit 7 (zero_bytes v) = drop_bit 7 (zero_bytes w)"
  show "zero_bytes v = zero_bytes w"
  proof (rule bit_word_eqI)
    fix n
    assume "n < LENGTH(64)"
    show "bit (zero_bytes v) n = bit (zero_bytes w) n"
    proof (cases "7 \<le> n")
      case True
      then have "bit (zero_bytes u) n = bit (drop_bit 7 (zero_bytes u)) (n - 7)" for u by (simp add: bit_drop_bit_eq)
      with eq show ?thesis by simp
    next
      case False
      then have "n mod 8 \<noteq> 7" by simp
      then show ?thesis by (simp only: bit_zero_bytes simp_thms)
    qed
  qed
qed simp

lemma flags_word_eq:
  assumes "length bs = 8"
  shows "flags_word P bs = flags_word Q bs \<longleftrightarrow> (\<forall>b \<in> set bs. P b \<longleftrightarrow> Q b)"
proof
  assume eq: "flags_word P bs = flags_word Q bs"
  show "\<forall>b \<in> set bs. P b \<longleftrightarrow> Q b"
  proof
    fix b assume "b \<in> set bs"
    then obtain i where i: "b = bs ! i" "i < 8" using assms by (auto simp: in_set_conv_nth)
    have "bit (flags_word R bs) (8 * i) \<longleftrightarrow> R b" for R using i assms by (simp add: bit_flags_word)
    with eq show "P b \<longleftrightarrow> Q b" by metis
  qed
next
  assume "\<forall>b \<in> set bs. P b \<longleftrightarrow> Q b"
  then have "map (\<lambda>b. of_bool (P b) :: u8) bs = map (\<lambda>b. of_bool (Q b)) bs" by simp
  then show "flags_word P bs = flags_word Q bs" by (simp only: flags_word_def)
qed

section \<open>Sums over a string\<close>

text \<open>The number of bytes of a kind in a stretch of a string.\<close>

definition kind_count :: "(u8 \<Rightarrow> bool) \<Rightarrow> u8 list \<Rightarrow> nat \<Rightarrow> nat \<Rightarrow> nat" where
  "kind_count P s a b = (\<Sum>i = a..<b. of_bool (P (s ! i)))"

lemma kind_count_empty [simp]: "kind_count P s a a = 0"
  by (simp add: kind_count_def)

lemma kind_count_split: "a \<le> b \<Longrightarrow> b \<le> c \<Longrightarrow> kind_count P s a b + kind_count P s b c = kind_count P s a c"
  unfolding kind_count_def by (rule sum.atLeastLessThan_concat)

lemma kind_count_first: "a < b \<Longrightarrow> kind_count P s a b = of_bool (P (s ! a)) + kind_count P s (a + 1) b"
  unfolding kind_count_def Suc_eq_plus1 [symmetric] by (rule sum.atLeast_Suc_lessThan)

lemma kind_count_all: "(\<And>i. a \<le> i \<Longrightarrow> i < b \<Longrightarrow> P (s ! i)) \<Longrightarrow> kind_count P s a b = b - a"
  unfolding kind_count_def by simp

lemma kind_count_none: "(\<And>i. a \<le> i \<Longrightarrow> i < b \<Longrightarrow> \<not> P (s ! i)) \<Longrightarrow> kind_count P s a b = 0"
  unfolding kind_count_def by simp

lemma kind_count_filter: "kind_count P s 0 (length s) = length (filter P s)"
proof (induction s)
  case (Cons b s)
  have "kind_count P (b # s) 1 (Suc (length s)) = kind_count P s 0 (length s)"
    unfolding kind_count_def One_nat_def sum.shift_bounds_Suc_ivl by (simp del: sum_of_bool_eq)
  then show ?case using Cons kind_count_first [of 0 "Suc (length s)" P "b # s"] by simp
qed simp

lemma word_bytes:
  assumes "x + 8 \<le> length s"
  shows "word_at s x = bytes_word (take 8 (drop x s))" "length (take 8 (drop x s)) = 8"
    "length (filter P (take 8 (drop x s))) = kind_count P s x (x + 8)"
    "set (take 8 (drop x s)) = (\<lambda>i. s ! i) ` {x..<x + 8}"
proof -
  show "word_at s x = bytes_word (take 8 (drop x s))" by (simp add: word_at_def)
  show len: "length (take 8 (drop x s)) = 8" using assms by simp
  have "kind_count P (take 8 (drop x s)) 0 8 = kind_count P s x (x + 8)"
    using assms sum.shift_bounds_nat_ivl [of "\<lambda>i. of_bool (P (s ! i)) :: nat" 0 x 8]
    unfolding kind_count_def by (simp add: add.commute del: sum_of_bool_eq)
  then show "length (filter P (take 8 (drop x s))) = kind_count P s x (x + 8)"
    using kind_count_filter [of P "take 8 (drop x s)"] unfolding len by simp
  have "take 8 (drop x s) = map (\<lambda>i. s ! i) [x..<x + 8]" using assms by (intro nth_equalityI) simp_all
  then show "set (take 8 (drop x s)) = (\<lambda>i. s ! i) ` {x..<x + 8}" by (metis set_map set_upt)
qed

lemma count_variants:
  "x + 8 \<le> length s \<Longrightarrow> add_bytes (drop_bit 7 (word_at s x AND PERL_VARIANTS_WORD_MASK))
    = kind_count (\<lambda>b. \<not> UTF8_IS_INVARIANT b) s x (x + 8)"
  by (simp only: word_bytes variant_flags add_bytes_flags)

lemma count_continuations:
  "x + 8 \<le> length s \<Longrightarrow> add_bytes (drop_bit 7 (word_at s x AND PERL_VARIANTS_WORD_MASK) AND drop_bit 6 (NOT (word_at s x)))
    = kind_count UTF8_IS_CONTINUATION s x (x + 8)"
  by (simp only: word_bytes continuation_flags add_bytes_flags)

section \<open>Variants\<close>

lemma worth:
  assumes "WORTH_PER_WORD_LOOP addr x e n = Some p"
  shows "x \<le> p" "p + n * 8 < e" "p < x + 8"
  using assms by (auto simp: WORTH_PER_WORD_LOOP_def BYTES_REMAINING_IN_WORD_def PERL_WORDSIZE_def split: if_splits)

lemma variant_bytes_count:
  "x \<le> e \<Longrightarrow> variant_bytes s e x cnt = cnt + kind_count (\<lambda>b. \<not> UTF8_IS_INVARIANT b) s x e"
proof (induction s e x cnt rule: variant_bytes.induct)
  case (1 s e x cnt)
  show ?case
  proof (cases "x < e")
    case True
    with 1 show ?thesis by (subst variant_bytes.simps) (simp add: kind_count_first)
  next
    case False
    with 1(2) show ?thesis by (subst variant_bytes.simps) simp
  qed
qed

lemma variant_words_count:
  assumes "x + 8 \<le> e" "e = length s"
  shows "\<exists>x'. variant_words s e x cnt = (x', cnt + kind_count (\<lambda>b. \<not> UTF8_IS_INVARIANT b) s x x') \<and> x \<le> x' \<and> x' \<le> e"
  using assms
proof (induction s e x cnt rule: variant_words.induct)
  case (1 s e x cnt)
  note step = variant_words.simps [of s e x cnt, unfolded Let_def PERL_WORDSIZE_def]
  have here: "add_bytes (drop_bit 7 (word_at s x AND PERL_VARIANTS_WORD_MASK))
      = kind_count (\<lambda>b. \<not> UTF8_IS_INVARIANT b) s x (x + 8)"
    using 1(2,3) by (intro count_variants) simp
  show ?case
  proof (cases "x + 8 + 8 \<le> e")
    case True
    then obtain x' where x': "variant_words s e (x + 8) (cnt + kind_count (\<lambda>b. \<not> UTF8_IS_INVARIANT b) s x (x + 8))
        = (x', cnt + kind_count (\<lambda>b. \<not> UTF8_IS_INVARIANT b) s x (x + 8) + kind_count (\<lambda>b. \<not> UTF8_IS_INVARIANT b) s (x + 8) x')"
        "x + 8 \<le> x'" "x' \<le> e"
      using 1(1) [OF refl refl] 1(3) by (auto simp: PERL_WORDSIZE_def here simp del: drop_bit_and)
    then show ?thesis using True kind_count_split [of x "x + 8" x' "\<lambda>b. \<not> UTF8_IS_INVARIANT b" s]
      by (auto simp: step here simp del: drop_bit_and)
  next
    case False
    then show ?thesis using 1(2) by (simp add: step here del: drop_bit_and)
  qed
qed

lemma variant_under_utf8_count_ok:
  "variant_under_utf8_count addr s = length (filter (\<lambda>b. \<not> UTF8_IS_INVARIANT b) s)"
proof (cases "WORTH_PER_WORD_LOOP addr 0 (length s) 1")
  case None
  then show ?thesis by (simp add: variant_under_utf8_count_def variant_bytes_count kind_count_filter)
next
  case (Some p)
  note p = worth [OF this]
  obtain x' cnt where x': "variant_words s (length s) p (variant_bytes s p 0 0) = (x', cnt)"
      "cnt = variant_bytes s p 0 0 + kind_count (\<lambda>b. \<not> UTF8_IS_INVARIANT b) s p x'" "p \<le> x'" "x' \<le> length s"
    using variant_words_count [of p "length s" s "variant_bytes s p 0 0"] p by auto
  have "variant_under_utf8_count addr s = kind_count (\<lambda>b. \<not> UTF8_IS_INVARIANT b) s 0 (length s)"
    using Some x' kind_count_split [of 0 p x' "\<lambda>b. \<not> UTF8_IS_INVARIANT b" s]
      kind_count_split [of 0 x' "length s" "\<lambda>b. \<not> UTF8_IS_INVARIANT b" s]
    by (simp add: variant_under_utf8_count_def variant_bytes_count)
  then show ?thesis by (simp add: kind_count_filter)
qed

section \<open>The first variant\<close>

lemma lsbit_least:
  "bit w k \<Longrightarrow> k < n \<Longrightarrow> bit w (lsbit n w) \<and> lsbit n w \<le> k \<and> (\<forall>j < lsbit n w. \<not> bit w j)"
proof (induction n arbitrary: w k)
  case (Suc n)
  show ?case
  proof (cases "bit w 0")
    case False
    then have "k \<noteq> 0" using Suc.prems(1) by metis
    then have "bit (drop_bit 1 w) (k - 1)" "k - 1 < n" using Suc.prems by (simp_all add: bit_drop_bit_eq)
    from Suc.IH [OF this] have ih: "bit (drop_bit 1 w) (lsbit n (drop_bit 1 w))" "lsbit n (drop_bit 1 w) \<le> k - 1"
        "\<forall>j < lsbit n (drop_bit 1 w). \<not> bit (drop_bit 1 w) j" by simp_all
    have "\<not> bit w j" if "j < Suc (lsbit n (drop_bit 1 w))" for j
      using that False ih(3) by (cases j) (simp_all add: bit_drop_bit_eq)
    then show ?thesis using False ih(1,2) \<open>k \<noteq> 0\<close> by (simp add: bit_drop_bit_eq)
  qed simp
qed simp

lemma variant_byte_first:
  assumes "length bs = 8" "i < 8" "\<not> UTF8_IS_INVARIANT (bs ! i)"
  defines "v \<equiv> variant_byte_number (bytes_word bs)"
  shows "v < 8" "\<not> UTF8_IS_INVARIANT (bs ! v)" "\<forall>j < v. UTF8_IS_INVARIANT (bs ! j)"
proof -
  define w where "w = bytes_word bs AND PERL_VARIANTS_WORD_MASK"
  have w: "bit w (8 * j + 7) \<longleftrightarrow> \<not> UTF8_IS_INVARIANT (bs ! j)" if "j < 8" for j
  proof -
    have "(8 * j + 7) div 8 = j" "(8 * j + 7) mod 8 = 7" by simp_all
    then show ?thesis using that assms(1) by (simp add: w_def bit_and_iff bit_VARIANTS bit_bytes_word byte_class_bits)
  qed
  from lsbit_least [of w "8 * i + 7" 64] w [OF assms(2)] assms(2,3)
  have l: "bit w (lsbit 64 w)" "\<forall>j < lsbit 64 w. \<not> bit w j" by simp_all
  then have m: "lsbit 64 w < 64" "lsbit 64 w mod 8 = 7" by (simp_all add: w_def bit_and_iff bit_VARIANTS)
  define q where "q = lsbit 64 w div 8"
  have q: "lsbit 64 w = 8 * q + 7" "q < 8" using m div_mult_mod_eq [of "lsbit 64 w" 8] by (simp_all add: q_def)
  then have v: "v = q" by (simp add: v_def variant_byte_number_def w_def [symmetric])
  show "v < 8" "\<not> UTF8_IS_INVARIANT (bs ! v)" using l(1) w [OF q(2)] q v by simp_all
  show "\<forall>j < v. UTF8_IS_INVARIANT (bs ! j)"
  proof (intro allI impI)
    fix j assume "j < v"
    then have "8 * j + 7 < lsbit 64 w" "j < 8" using q v by simp_all
    then show "UTF8_IS_INVARIANT (bs ! j)" using l(2) w by blast
  qed
qed

text \<open>\<open>r\<close> is the first variant from \<open>x\<close> on, and before \<open>e\<close>, if there is one.\<close>

definition first_variant :: "u8 list \<Rightarrow> nat \<Rightarrow> nat \<Rightarrow> nat option \<Rightarrow> bool" where
  "first_variant s x e r \<longleftrightarrow>
     (case r of None \<Rightarrow> \<forall>i. x \<le> i \<and> i < e \<longrightarrow> UTF8_IS_INVARIANT (s ! i)
      | Some v \<Rightarrow> x \<le> v \<and> v < e \<and> \<not> UTF8_IS_INVARIANT (s ! v) \<and> (\<forall>i. x \<le> i \<and> i < v \<longrightarrow> UTF8_IS_INVARIANT (s ! i)))"

lemma first_variant_skip:
  assumes "\<And>i. x \<le> i \<Longrightarrow> i < y \<Longrightarrow> UTF8_IS_INVARIANT (s ! i)" "x \<le> y" "first_variant s y e r"
  shows "first_variant s x e r"
  using assms unfolding first_variant_def by (auto split: option.splits) (metis not_less)+

lemma first_variant_later: "first_variant s x e (Some v) \<Longrightarrow> e \<le> e' \<Longrightarrow> first_variant s x e' (Some v)"
  unfolding first_variant_def by auto

lemma first_variant_byte_ok: "first_variant s x e (first_variant_byte s e x)"
proof (induction s e x rule: first_variant_byte.induct)
  case (1 s e x)
  show ?case
  proof (cases "x < e \<and> UTF8_IS_INVARIANT (s ! x)")
    case True
    with 1 have "first_variant s (x + 1) e (first_variant_byte s e (x + 1))" by simp
    then have "first_variant s x e (first_variant_byte s e (x + 1))"
      using True by (rule_tac first_variant_skip [where y = "x + 1"]) (simp_all add: le_less_Suc_eq)
    with True show ?thesis by (subst first_variant_byte.simps) simp
  next
    case False
    then show ?thesis by (subst first_variant_byte.simps) (auto simp: first_variant_def)
  qed
qed

lemma word_no_variant:
  assumes "x + 8 \<le> length s"
  shows "word_at s x AND PERL_VARIANTS_WORD_MASK = 0 \<longleftrightarrow> (\<forall>i. x \<le> i \<and> i < x + 8 \<longrightarrow> UTF8_IS_INVARIANT (s ! i))"
    (is "?w = 0 \<longleftrightarrow> ?all")
proof -
  have "?w = 0 \<longleftrightarrow> drop_bit 7 ?w = 0"
  proof
    assume z: "drop_bit 7 ?w = 0"
    show "?w = 0"
    proof (rule bit_word_eqI)
      fix n
      have "\<not> bit ?w n" if "n < 7" using that by (simp add: bit_and_iff bit_VARIANTS)
      moreover have "bit ?w n = bit (drop_bit 7 ?w) (n - 7)" if "\<not> n < 7"
        using that by (simp add: bit_drop_bit_eq del: drop_bit_and)
      ultimately show "bit ?w n = bit 0 n" unfolding z by auto
    qed
  qed simp
  moreover have "drop_bit 7 ?w = flags_word (\<lambda>b. \<not> UTF8_IS_INVARIANT b) (take 8 (drop x s))"
    using word_bytes [OF assms] by (simp only: variant_flags)
  moreover have zero: "flags_word (\<lambda>b. False) (take 8 (drop x s)) = (0 :: u64)"
    by (rule bit_word_eqI) (simp add: bit_flags_word [OF word_bytes(2) [OF assms]])
  moreover have "(flags_word (\<lambda>b. \<not> UTF8_IS_INVARIANT b) (take 8 (drop x s)) = flags_word (\<lambda>b. False) (take 8 (drop x s))) = ?all"
    using word_bytes(2,4) [OF assms] by (auto simp: flags_word_eq)
  ultimately show ?thesis by metis
qed

lemma first_variant_word_ok:
  assumes "x + 8 \<le> e" "e = length s"
  shows "case first_variant_word s e x of
      Inl v \<Rightarrow> first_variant s x e (Some v)
    | Inr y \<Rightarrow> x \<le> y \<and> (\<forall>i. x \<le> i \<and> i < y \<longrightarrow> UTF8_IS_INVARIANT (s ! i))"
  using assms
proof (induction s e x rule: first_variant_word.induct)
  case (1 s e x)
  note step = first_variant_word.simps [of s e x, unfolded PERL_WORDSIZE_def]
  have room: "x + 8 \<le> length s" using 1(2,3) by simp
  show ?case
  proof (cases "word_at s x AND PERL_VARIANTS_WORD_MASK = 0")
    case True
    then have all: "UTF8_IS_INVARIANT (s ! i)" if "x \<le> i" "i < x + 8" for i
      using word_no_variant [OF room] that by blast
    show ?thesis
    proof (cases "x + 8 + 8 \<le> e")
      case more: True
      have "case first_variant_word s e (x + 8) of Inl v \<Rightarrow> first_variant s (x + 8) e (Some v)
          | Inr y \<Rightarrow> x + 8 \<le> y \<and> (\<forall>i. x + 8 \<le> i \<and> i < y \<longrightarrow> UTF8_IS_INVARIANT (s ! i))"
        using 1(1) [unfolded PERL_WORDSIZE_def] True more 1(3) by simp
      then show ?thesis
        using True more all first_variant_skip [of x "x + 8" s e]
        by (auto simp: step split: sum.splits) (metis not_less)
    qed (use True all in \<open>simp add: step\<close>)
  next
    case False
    then obtain i where i: "x \<le> i" "i < x + 8" "\<not> UTF8_IS_INVARIANT (s ! i)" using word_no_variant [OF room] by blast
    define bs where "bs = take 8 (drop x s)"
    have bs: "length bs = 8" "word_at s x = bytes_word bs" "bs ! j = s ! (x + j)" if "j < 8" for j
      using that room by (simp_all add: bs_def word_at_def)
    have v: "variant_byte_number (word_at s x) < 8" "\<not> UTF8_IS_INVARIANT (bs ! variant_byte_number (word_at s x))"
        "\<forall>j < variant_byte_number (word_at s x). UTF8_IS_INVARIANT (bs ! j)"
      using variant_byte_first [of bs "i - x"] i bs [of "i - x"] by simp_all
    have "first_variant s x e (Some (x + variant_byte_number (word_at s x)))"
      unfolding first_variant_def
    proof (simp, intro conjI allI impI)
      show "x + variant_byte_number (word_at s x) < e" using v(1) 1(2) by simp
      show "\<not> UTF8_IS_INVARIANT (s ! (x + variant_byte_number (word_at s x)))" using v(1,2) bs(3) by simp
      fix j assume "x \<le> j \<and> j < x + variant_byte_number (word_at s x)"
      then have "j - x < variant_byte_number (word_at s x)" "j - x < 8" "x + (j - x) = j" using v(1) by auto
      then show "UTF8_IS_INVARIANT (s ! j)" using v(3) bs(3) [of "j - x"] by metis
    qed
    with False show ?thesis by (simp add: step)
  qed
qed

lemma is_utf8_invariant_string_loc_ok:
  "first_variant s 0 (length s) (is_utf8_invariant_string_loc addr s (length s))"
proof (cases "WORTH_PER_WORD_LOOP addr 0 (length s) 1")
  case None
  then show ?thesis using first_variant_byte_ok by (simp add: is_utf8_invariant_string_loc_def)
next
  case found: (Some p)
  note p = worth [OF this]
  note bytes = first_variant_byte_ok [of s 0 p]
  show ?thesis
  proof (cases "first_variant_byte s p 0")
    case None
    then have before: "\<forall>i < p. UTF8_IS_INVARIANT (s ! i)" using bytes by (simp add: first_variant_def)
    have words: "case first_variant_word s (length s) p of Inl v \<Rightarrow> first_variant s p (length s) (Some v)
        | Inr y \<Rightarrow> p \<le> y \<and> (\<forall>i. p \<le> i \<and> i < y \<longrightarrow> UTF8_IS_INVARIANT (s ! i))"
      using p by (intro first_variant_word_ok) simp_all
    show ?thesis
    proof (cases "first_variant_word s (length s) p")
      case (Inl v)
      with words have "first_variant s p (length s) (Some v)" by simp
      with before have "first_variant s 0 (length s) (Some v)" by (rule_tac first_variant_skip [of 0 p s]) simp_all
      with found None Inl show ?thesis by (simp add: is_utf8_invariant_string_loc_def)
    next
      case (Inr y)
      have "UTF8_IS_INVARIANT (s ! i)" if "i < y" for i
        using words before that unfolding Inr by (cases "i < p") simp_all
      then have "first_variant s 0 (length s) (first_variant_byte s (length s) y)"
        using first_variant_skip [of 0 y s "length s", OF _ _ first_variant_byte_ok [of s y "length s"]] by simp
      with found None Inr show ?thesis by (simp add: is_utf8_invariant_string_loc_def)
    qed
  next
    case (Some v)
    with bytes p(2) have "first_variant s 0 (length s) (Some v)"
      using first_variant_later [of s 0 p v "length s"] by simp
    with found Some show ?thesis by (simp add: is_utf8_invariant_string_loc_def)
  qed
qed

end
