(* ===== verification/Utf8_Text.thy ===== *)
theory Utf8_Text
  imports Utf8_Words
begin

text \<open>
  The scanning routines on a string that is cut into characters: the number of characters, and
  the conversions between UTF-8 and bytes.
\<close>

section \<open>A string cut into characters\<close>

text \<open>
  What the routines rely on in a well-formed string: \<open>boundary x\<close> says that a character starts
  or the string ends at \<open>x\<close>.
\<close>

locale characters =
  fixes s :: "u8 list" and boundary :: "nat \<Rightarrow> bool"
  assumes first: "boundary 0"
    and within: "boundary x \<Longrightarrow> x < length s \<Longrightarrow> x + UTF8SKIP (s ! x) \<le> length s"
    and following: "boundary x \<Longrightarrow> x < length s \<Longrightarrow> boundary (x + UTF8SKIP (s ! x))"
    and start: "boundary x \<Longrightarrow> x < length s \<Longrightarrow> unat (s ! x) < 128 \<or> 194 \<le> unat (s ! x)"
    and trailing: "boundary x \<Longrightarrow> x < length s \<Longrightarrow> x < i \<Longrightarrow> i < x + UTF8SKIP (s ! x) \<Longrightarrow> UTF8_IS_CONTINUATION (s ! i)"
    and inside: "i < length s \<Longrightarrow> \<not> UTF8_IS_CONTINUATION (s ! i) \<Longrightarrow> boundary i"
begin

abbreviation continuations :: "nat \<Rightarrow> nat \<Rightarrow> nat" where
  "continuations \<equiv> kind_count UTF8_IS_CONTINUATION s"

lemma starts_no_continuation: "boundary x \<Longrightarrow> x < length s \<Longrightarrow> \<not> UTF8_IS_CONTINUATION (s ! x)"
  using start [of x] by (auto simp: IS_CONTINUATION_iff)

lemma character_count:
  assumes "boundary x" "x < length s"
  shows "continuations x (x + UTF8SKIP (s ! x)) = UTF8SKIP (s ! x) - 1"
proof -
  have "continuations (x + 1) (x + UTF8SKIP (s ! x)) = UTF8SKIP (s ! x) - 1"
    by (subst kind_count_all) (use trailing [OF assms] in simp_all)
  then show ?thesis
    using starts_no_continuation [OF assms] UTF8SKIP_pos [of "s ! x"] by (subst kind_count_first) simp_all
qed

lemma count_to_boundary:
  "boundary x \<Longrightarrow> x < length s \<Longrightarrow>
   continuations 0 (x + UTF8SKIP (s ! x)) = continuations 0 x + (UTF8SKIP (s ! x) - 1)"
  using kind_count_split [of 0 x "x + UTF8SKIP (s ! x)" UTF8_IS_CONTINUATION s] by (simp add: character_count)

lemma length_align_ok:
  "boundary x \<Longrightarrow> x \<le> length s \<Longrightarrow> p \<le> length s \<Longrightarrow> \<forall>i. p \<le> i \<and> i < x \<longrightarrow> UTF8_IS_CONTINUATION (s ! i) \<Longrightarrow>
   \<exists>x'. length_align s p x (continuations 0 x) = (x', continuations 0 x') \<and> p \<le> x'
     \<and> (\<forall>i. p \<le> i \<and> i < x' \<longrightarrow> UTF8_IS_CONTINUATION (s ! i))"
proof (induction "length s - x" arbitrary: x rule: less_induct)
  case less
  show ?case
  proof (cases "x < p")
    case True
    with less.prems(3) have x: "x < length s" by simp
    define y where "y = x + UTF8SKIP (s ! x)"
    have y: "boundary y" "y \<le> length s" "x < y" "\<forall>i. p \<le> i \<and> i < y \<longrightarrow> UTF8_IS_CONTINUATION (s ! i)"
      using following [OF less.prems(1) x] within [OF less.prems(1) x] UTF8SKIP_pos [of "s ! x"]
        trailing [OF less.prems(1) x] True
      by (auto simp: y_def)
    have "length_align s p x (continuations 0 x) = length_align s p y (continuations 0 y)"
      using True count_to_boundary [OF less.prems(1) x] by (subst length_align.simps) (simp add: y_def Let_def)
    moreover have "length s - y < length s - x" using y(3) x by simp
    from less.hyps [OF this y(1,2) less.prems(3) y(4)] obtain x' where
      "length_align s p y (continuations 0 y) = (x', continuations 0 x')" "p \<le> x'"
      "\<forall>i. p \<le> i \<and> i < x' \<longrightarrow> UTF8_IS_CONTINUATION (s ! i)" by blast
    ultimately show ?thesis by auto
  next
    case False
    then show ?thesis using less.prems(4) by (subst length_align.simps) simp
  qed
qed

lemma length_words_ok:
  "x + 8 \<le> length s \<Longrightarrow> l \<le> length s \<Longrightarrow>
   \<exists>x'. length_words s l x (continuations 0 x) = (x', continuations 0 x') \<and> x' \<le> length s"
proof (induction "length s - x" arbitrary: x rule: less_induct)
  case less
  have "continuations 0 x + add_bytes (drop_bit 7 (word_at s x AND PERL_VARIANTS_WORD_MASK) AND drop_bit 6 (NOT (word_at s x)))
      = continuations 0 (x + 8)"
    unfolding count_continuations [OF less.prems(1)] by (rule kind_count_split) simp_all
  then have step: "length_words s l x (continuations 0 x) =
      (if x + 8 + 8 \<le> l then length_words s l (x + 8) (continuations 0 (x + 8)) else (x + 8, continuations 0 (x + 8)))"
    by (subst length_words.simps) (simp only: Let_def PERL_WORDSIZE_def)
  show ?case
  proof (cases "x + 8 + 8 \<le> l")
    case True
    then have "\<exists>x'. length_words s l (x + 8) (continuations 0 (x + 8)) = (x', continuations 0 x') \<and> x' \<le> length s"
      using less.hyps [of "x + 8"] less.prems by simp
    with step True show ?thesis by simp
  qed (use step less.prems in simp)
qed

lemma length_starts_ok:
  "boundary x \<Longrightarrow> x < length s \<Longrightarrow>
   length_starts s (length s) x (continuations 0 x) = (length s, continuations 0 (length s))"
proof (induction "length s - x" arbitrary: x rule: less_induct)
  case less
  define y where "y = x + UTF8SKIP (s ! x)"
  have y: "boundary y" "y \<le> length s" "x < y"
    using following [OF less.prems] within [OF less.prems] UTF8SKIP_pos [of "s ! x"] by (auto simp: y_def)
  have "length_starts s (length s) x (continuations 0 x) =
      (if y < length s then length_starts s (length s) y (continuations 0 y) else (y, continuations 0 y))"
    using y(2) count_to_boundary [OF less.prems] by (subst length_starts.simps) (auto simp: y_def Let_def)
  also have "\<dots> = (length s, continuations 0 (length s))"
    using less.hyps [of y] y less.prems(2) by auto
  finally show ?case .
qed

lemma length_tail_ok:
  "x \<le> length s \<Longrightarrow> length_tail s (length s) x (continuations 0 x) = (length s, continuations 0 (length s))"
proof (induction "length s - x" arbitrary: x rule: less_induct)
  case less
  consider "x = length s" | "x < length s" "UTF8_IS_CONTINUATION (s ! x)" | "x < length s" "\<not> UTF8_IS_CONTINUATION (s ! x)"
    using less.prems by linarith
  then show ?case
  proof cases
    case 1
    then show ?thesis by (subst length_tail.simps) simp
  next
    case 2
    then have "continuations 0 (x + 1) = continuations 0 x + 1"
      using kind_count_split [of 0 x "x + 1" UTF8_IS_CONTINUATION s] kind_count_first [of x "x + 1" UTF8_IS_CONTINUATION s]
      by simp
    then show ?thesis using 2 less.hyps [of "x + 1"] by (subst length_tail.simps) simp
  next
    case 3
    then show ?thesis using length_starts_ok inside by (subst length_tail.simps) simp
  qed
qed

lemma length_chars_ok:
  "boundary x \<Longrightarrow> x \<le> length s \<Longrightarrow> len + continuations 0 x = x \<Longrightarrow>
   length_chars s (length s) x len = (True, length s, length s - continuations 0 (length s))"
proof (induction "length s - x" arbitrary: x len rule: less_induct)
  case less
  show ?case
  proof (cases "x < length s")
    case True
    define y where "y = x + UTF8SKIP (s ! x)"
    have y: "boundary y" "y \<le> length s" "x < y"
      using following [OF less.prems(1) True] within [OF less.prems(1) True] UTF8SKIP_pos [of "s ! x"] by (auto simp: y_def)
    have "continuations 0 y = continuations 0 x + (UTF8SKIP (s ! x) - 1)"
      using count_to_boundary [OF less.prems(1) True] by (simp add: y_def)
    then have "len + 1 + continuations 0 y = y" using less.prems(3) y(3) by (simp add: y_def)
    then show ?thesis using less.hyps [of y "len + 1"] True y
      by (subst length_chars.simps) (simp add: y_def Let_def)
  next
    case False
    with less.prems have "x = length s" "length s - continuations 0 (length s) = len" by auto
    then show ?thesis by (subst length_chars.simps) simp
  qed
qed

text \<open>The length is the number of bytes that continue no character, however it is counted.\<close>

lemma utf8_length_ok: "utf8_length addr s = (length s - continuations 0 (length s), False)"
proof (cases "WORTH_PER_WORD_LOOP addr 0 (length s) 12")
  case None
  then show ?thesis using length_chars_ok [OF first] by (simp add: utf8_length_def Let_def)
next
  case (Some p)
  note p = worth [OF this]
  have p_le: "p \<le> length s" using p by simp
  obtain x where x: "length_align s p 0 0 = (x, continuations 0 x)" "p \<le> x"
      "\<forall>i. p \<le> i \<and> i < x \<longrightarrow> UTF8_IS_CONTINUATION (s ! i)"
    using length_align_ok [OF first _ p_le] by auto
  have "continuations p x = x - p" using x(3) by (intro kind_count_all) simp
  then have rewound: "continuations 0 x - (x - p) = continuations 0 p"
    using kind_count_split [of 0 p x UTF8_IS_CONTINUATION s] x(2) by simp
  obtain y where y: "length_words s (length s - UTF8_MAXBYTES) p (continuations 0 p) = (y, continuations 0 y)" "y \<le> length s"
    using length_words_ok [of p "length s - UTF8_MAXBYTES"] p by auto
  show ?thesis using Some x(1) rewound y length_tail_ok [OF y(2)] by (simp add: utf8_length_def Let_def)
qed

end

section \<open>The check before a conversion to bytes\<close>

context characters begin

abbreviation variants :: "nat \<Rightarrow> nat \<Rightarrow> nat" where
  "variants \<equiv> kind_count (\<lambda>b. 192 \<le> unat b) s"

definition latin1 :: "nat \<Rightarrow> nat \<Rightarrow> bool" where
  "latin1 a b \<longleftrightarrow> (\<forall>i. a \<le> i \<and> i < b \<and> 192 \<le> unat (s ! i) \<longrightarrow> unat (s ! i) \<in> {194, 195})"

lemma latin1_empty [simp]: "b \<le> a \<Longrightarrow> latin1 a b"
  by (simp add: latin1_def)

lemma latin1_split: "a \<le> b \<Longrightarrow> b \<le> c \<Longrightarrow> latin1 a c \<longleftrightarrow> latin1 a b \<and> latin1 b c"
  unfolding latin1_def by (meson le_trans less_le_trans not_less)

lemma latin1_first: "a < b \<Longrightarrow> latin1 a b \<longleftrightarrow> (192 \<le> unat (s ! a) \<longrightarrow> unat (s ! a) \<in> {194, 195}) \<and> latin1 (a + 1) b"
  unfolding latin1_def by (metis Suc_eq_plus1 Suc_leI Suc_leD le_neq_implies_less order_refl)

lemma continuation_range: "UTF8_IS_CONTINUATION b \<Longrightarrow> unat b < 192"
  unfolding IS_CONTINUATION_iff by linarith

lemma latin1_continuations: "(\<And>i. a \<le> i \<Longrightarrow> i < b \<Longrightarrow> UTF8_IS_CONTINUATION (s ! i)) \<Longrightarrow> latin1 a b"
  unfolding latin1_def by (meson continuation_range not_less)

lemma variants_continuations: "(\<And>i. a \<le> i \<Longrightarrow> i < b \<Longrightarrow> UTF8_IS_CONTINUATION (s ! i)) \<Longrightarrow> variants a b = 0"
  by (rule kind_count_none) (meson continuation_range not_less)

lemma variants_next: "variants 0 (x + 1) = variants 0 x + of_bool (192 \<le> unat (s ! x))"
  using kind_count_split [of 0 x "x + 1"] kind_count_first [of x "x + 1"] by (metis add_0_right kind_count_empty le_add1 le_add_same_cancel1 less_add_one zero_le)

text \<open>A character at a boundary is a byte, or starts with \<open>C2\<close> or \<open>C3\<close>, or is no Latin-1 character.\<close>

lemma boundary_byte:
  assumes "boundary x" "x < length s"
  obtains "UTF8_IS_INVARIANT (s ! x)" "unat (s ! x) < 128" "boundary (x + 1)"
  | "\<not> UTF8_IS_INVARIANT (s ! x)" "unat (s ! x) \<in> {194, 195}" "boundary (x + 2)" "x + 2 \<le> length s"
      "UTF8_IS_CONTINUATION (s ! (x + 1))" "UTF8_IS_NEXT_CHAR_DOWNGRADEABLE s x (length s)"
  | "\<not> UTF8_IS_INVARIANT (s ! x)" "195 < unat (s ! x)" "\<not> UTF8_IS_NEXT_CHAR_DOWNGRADEABLE s x (length s)"
proof -
  have inv: "UTF8_IS_INVARIANT (s ! x) \<longleftrightarrow> unat (s ! x) < 128" by (simp add: UTF8_IS_INVARIANT_def word_less_nat_alt)
  have down: "UTF8_IS_DOWNGRADEABLE_START (s ! x) \<longleftrightarrow> 194 \<le> unat (s ! x) \<and> unat (s ! x) \<le> 195"
    by (simp add: UTF8_IS_DOWNGRADEABLE_START_def word_le_nat_alt)
  consider "unat (s ! x) < 128" | "194 \<le> unat (s ! x)" "unat (s ! x) \<le> 195" | "195 < unat (s ! x)"
    using start [OF assms] by linarith
  then show thesis
  proof cases
    case 1
    then show thesis using that(1) inv following [OF assms] by (simp add: UTF8SKIP_ranges)
  next
    case 2
    then have two: "UTF8SKIP (s ! x) = 2" by (simp add: UTF8SKIP_ranges)
    have "boundary (x + 2)" "x + 2 \<le> length s" "UTF8_IS_CONTINUATION (s ! (x + 1))"
      using following [OF assms] within [OF assms] trailing [OF assms, of "x + 1"] two by simp_all
    moreover have "unat (s ! x) \<in> {194, 195}" using 2 by auto
    ultimately show thesis using that(2) inv down 2 by (simp add: UTF8_IS_NEXT_CHAR_DOWNGRADEABLE_def)
  next
    case 3
    then show thesis using that(3) inv down by (simp add: UTF8_IS_NEXT_CHAR_DOWNGRADEABLE_def)
  qed
qed

text \<open>What a check from \<open>x\<close> up to \<open>l\<close> answers.\<close>

definition checked :: "nat \<Rightarrow> nat \<Rightarrow> (nat \<times> nat) option \<Rightarrow> bool" where
  "checked x l r \<longleftrightarrow>
     (case r of None \<Rightarrow> \<not> latin1 x l
      | Some (x', c) \<Rightarrow> latin1 x l \<and> l \<le> x' \<and> x' \<le> length s \<and> c = variants 0 x'
          \<and> (\<forall>i. l \<le> i \<and> i < x' \<longrightarrow> UTF8_IS_CONTINUATION (s ! i)))"

lemma checked_from: "latin1 x l = latin1 y l \<Longrightarrow> checked x l r = checked y l r"
  by (cases r) (simp_all add: checked_def)

lemma check_bytes_ok:
  "boundary x \<Longrightarrow> x \<le> length s \<Longrightarrow> l \<le> length s \<Longrightarrow> \<forall>i. l \<le> i \<and> i < x \<longrightarrow> UTF8_IS_CONTINUATION (s ! i) \<Longrightarrow>
   checked x l (check_bytes s (length s) l x (variants 0 x))"
proof (induction "length s - x" arbitrary: x rule: less_induct)
  case less
  show ?case
  proof (cases "x < l")
    case False
    with less.prems show ?thesis by (subst check_bytes.simps) (simp add: checked_def)
  next
    case True
    with less.prems(3) have x: "x < length s" by simp
    show ?thesis
    proof (cases rule: boundary_byte [OF less.prems(1) x])
      case 1
      define y where "y = x + 1"
      have y: "variants 0 y = variants 0 x" "latin1 x l \<longleftrightarrow> latin1 y l"
        unfolding y_def using variants_next [of x] latin1_first [OF True] 1 by simp_all
      have "check_bytes s (length s) l x (variants 0 x) = check_bytes s (length s) l y (variants 0 y)"
        using 1(1) True y(1) by (subst check_bytes.simps) (simp add: y_def)
      moreover have "checked y l (check_bytes s (length s) l y (variants 0 y))"
        using 1(3) True x less.prems(3) by (intro less.hyps) (auto simp: y_def)
      ultimately show ?thesis using checked_from [OF y(2)] by simp
    next
      case 2
      have c: "\<not> 192 \<le> unat (s ! (x + 1))" using 2(5) by (auto simp: IS_CONTINUATION_iff)
      then have "variants 0 (x + 2) = variants 0 x + 1" using variants_next [of x] variants_next [of "x + 1"] 2(2) by auto
      moreover have "latin1 x l \<longleftrightarrow> latin1 (x + 2) l"
        using latin1_first [OF True] latin1_first [of "x + 1" l] 2(2) c by (cases "x + 1 < l") auto
      moreover have "\<forall>i. l \<le> i \<and> i < x + 2 \<longrightarrow> UTF8_IS_CONTINUATION (s ! i)"
      proof (intro allI impI)
        fix i assume "l \<le> i \<and> i < x + 2"
        with True have "i = x + 1" by simp
        with 2(5) show "UTF8_IS_CONTINUATION (s ! i)" by simp
      qed
      moreover have "checked (x + 2) l (check_bytes s (length s) l (x + 2) (variants 0 (x + 2)))"
        using 2(3,4) True x less.prems(3) calculation(3) by (intro less.hyps) simp_all
      moreover have "check_bytes s (length s) l x (variants 0 x) = check_bytes s (length s) l (x + 2) (variants 0 x + 1)"
        using 2 True by (subst check_bytes.simps) simp
      ultimately show ?thesis using checked_from [of x l "x + 2"] by simp
    next
      case 3
      then show ?thesis using True latin1_first [OF True] by (subst check_bytes.simps) (auto simp: checked_def)
    qed
  qed
qed

definition words_checked :: "nat \<Rightarrow> (nat \<times> nat) option \<Rightarrow> bool" where
  "words_checked x r \<longleftrightarrow>
     (case r of None \<Rightarrow> \<not> latin1 x (length s)
      | Some (x', c) \<Rightarrow> latin1 x x' \<and> x < x' \<and> x' \<le> length s \<and> c = variants 0 x')"

lemma words_checked_from:
  "latin1 x (x + 8) \<Longrightarrow> x + 8 \<le> length s \<Longrightarrow> words_checked (x + 8) r \<Longrightarrow> words_checked x r"
proof (cases r)
  case None
  then show "latin1 x (x + 8) \<Longrightarrow> x + 8 \<le> length s \<Longrightarrow> words_checked (x + 8) r \<Longrightarrow> words_checked x r"
    using latin1_split [of x "x + 8" "length s"] by (simp add: words_checked_def)
next
  case (Some p)
  then show "latin1 x (x + 8) \<Longrightarrow> x + 8 \<le> length s \<Longrightarrow> words_checked (x + 8) r \<Longrightarrow> words_checked x r"
    using latin1_split [of x "x + 8" "fst p"] by (cases p) (simp add: words_checked_def)
qed

lemma check_words_ok: "x + 8 \<le> length s \<Longrightarrow> words_checked x (check_words s (length s) x (variants 0 x))"
proof (induction "length s - x" arbitrary: x rule: less_induct)
  case less
  define bs where "bs = take 8 (drop x s)"
  have bs: "length bs = 8" "word_at s x = bytes_word bs" "set bs = (\<lambda>i. s ! i) ` {x..<x + 8}"
      "length (filter (\<lambda>b. 192 \<le> unat b) bs) = variants x (x + 8)"
    unfolding bs_def by (rule word_bytes [OF less.prems])+
  define starts where "starts = zero_bytes ((bytes_word bs AND PERL_COUNT_MULTIPLIER * 0xC0) XOR (PERL_COUNT_MULTIPLIER * 0xC0))"
  define C2_C3 where "C2_C3 = zero_bytes ((bytes_word bs AND PERL_COUNT_MULTIPLIER * 0xFE) XOR (PERL_COUNT_MULTIPLIER * 0xC2))"
  have same: "starts = C2_C3 \<longleftrightarrow> latin1 x (x + 8)"
  proof -
    have "starts = C2_C3 \<longleftrightarrow> (\<forall>b \<in> set bs. 192 \<le> unat b \<longleftrightarrow> unat b \<in> {194, 195})"
      unfolding starts_def C2_C3_def zero_bytes_inject masked_flags [OF bs(1)] by (rule flags_word_eq [OF bs(1)])
    also have "\<dots> \<longleftrightarrow> latin1 x (x + 8)" unfolding bs(3) latin1_def by auto
    finally show ?thesis .
  qed
  have here: "variants 0 x + add_bytes (drop_bit 7 starts) = variants 0 (x + 8)"
    unfolding starts_def masked_flags [OF bs(1)] add_bytes_flags [OF bs(1)] bs(4) by (rule kind_count_split) simp_all
  have step: "check_words s (length s) x (variants 0 x) =
      (if starts \<noteq> C2_C3 then None
       else if x + 8 + 8 \<le> length s then check_words s (length s) (x + 8) (variants 0 (x + 8))
       else Some (x + 8, variants 0 (x + 8)))"
    unfolding here [symmetric] starts_def C2_C3_def bs(2) [symmetric]
    by (subst check_words.simps) (simp only: Let_def PERL_WORDSIZE_def)
  show ?case
  proof (cases "latin1 x (x + 8)")
    case False
    then have "\<not> latin1 x (length s)" using latin1_split [of x "x + 8" "length s"] less.prems by simp
    with False same show ?thesis by (simp add: step words_checked_def)
  next
    case True
    show ?thesis
    proof (cases "x + 8 + 8 \<le> length s")
      case more: True
      have "words_checked (x + 8) (check_words s (length s) (x + 8) (variants 0 (x + 8)))"
        using more by (intro less.hyps) simp_all
      then have "words_checked x (check_words s (length s) (x + 8) (variants 0 (x + 8)))"
        by (rule words_checked_from [OF True less.prems])
      then show ?thesis using True more same by (simp add: step)
    next
      case False
      then show ?thesis using True same less.prems by (simp add: step words_checked_def)
    qed
  qed
qed

lemma latin1_boundary:
  "boundary x \<Longrightarrow> x \<le> z \<Longrightarrow> z \<le> length s \<Longrightarrow> latin1 x z \<Longrightarrow>
   boundary z \<or> x < z \<and> 194 \<le> unat (s ! (z - 1))"
proof (induction "z - x" arbitrary: x rule: less_induct)
  case less
  show ?case
  proof (cases "x = z")
    case True
    with less.prems(1) show ?thesis by simp
  next
    case False
    with less.prems have x: "x < length s" "x < z" by simp_all
    show ?thesis
    proof (cases rule: boundary_byte [OF less.prems(1) x(1)])
      case 1
      then show ?thesis using less.hyps [of "x + 1"] less.prems x latin1_first [of x z] by auto
    next
      case 2
      show ?thesis
      proof (cases "x + 1 = z")
        case True
        then show ?thesis using 2(2) by auto
      next
        case False
        then show ?thesis using less.hyps [of "x + 2"] 2 less.prems x latin1_split [of x "x + 2" z] by auto
      qed
    next
      case 3
      then show ?thesis using less.prems(4) latin1_first [OF x(2)] by auto
    qed
  qed
qed

lemma check_rest:
  assumes "boundary z" "z \<le> length s" "v \<le> z" "latin1 v z"
  shows "map_option snd (check_bytes s (length s) (length s) z (variants 0 z))
    = (if latin1 v (length s) then Some (variants 0 (length s)) else None)"
proof -
  have "checked z (length s) (check_bytes s (length s) (length s) z (variants 0 z))"
    using assms by (intro check_bytes_ok) auto
  moreover have "latin1 v (length s) \<longleftrightarrow> latin1 z (length s)" using latin1_split [of v z "length s"] assms by simp
  ultimately show ?thesis by (auto simp: checked_def split: option.splits)
qed

text \<open>Backing off by a start byte at the end of the last word.\<close>

lemma back_off:
  assumes "boundary v" "latin1 v y" "v < y" "y \<le> length s"
  defines "z \<equiv> if UTF8_IS_START (s ! (y - 1)) then y - 1 else y"
  shows "boundary z" "z \<le> length s" "v \<le> z" "latin1 v z"
    "variants 0 z = (if UTF8_IS_START (s ! (y - 1)) then variants 0 y - 1 else variants 0 y)"
proof -
  have start: "UTF8_IS_START (s ! (y - 1)) \<longleftrightarrow> 194 \<le> unat (s ! (y - 1))"
    by (simp add: UTF8_IS_START_def word_le_nat_alt)
  have "boundary (y - 1)" if "194 \<le> unat (s ! (y - 1))"
  proof (rule inside)
    show "\<not> UTF8_IS_CONTINUATION (s ! (y - 1))" using that continuation_range [of "s ! (y - 1)"] by auto
  qed (use assms in simp)
  then show "boundary z"
    using latin1_boundary [OF assms(1), of y] assms(2-4) unfolding z_def start
    by (cases "194 \<le> unat (s ! (y - 1))") simp_all
  show z: "z \<le> length s" "v \<le> z" using assms(3,4) by (auto simp: z_def)
  show "latin1 v z" using latin1_split [of v z y] assms(2) z by (simp add: z_def split: if_splits)
  show "variants 0 z = (if UTF8_IS_START (s ! (y - 1)) then variants 0 y - 1 else variants 0 y)"
    using variants_next [of "y - 1"] assms(3) unfolding z_def start by simp
qed

lemma check_downgradeable_ok:
  assumes v: "boundary v" "v \<le> length s" "variants 0 v = 0"
  shows "check_downgradeable addr s v = (if latin1 v (length s) then Some (variants 0 (length s)) else None)"
proof (cases "WORTH_PER_WORD_LOOP addr v (length s) 5")
  case None
  then show ?thesis using check_rest [of v v] v by (simp add: check_downgradeable_def Let_def)
next
  case (Some p)
  note p = worth [OF this]
  have "checked v p (check_bytes s (length s) p v (variants 0 v))" using v p by (intro check_bytes_ok) auto
  then have bytes: "checked v p (check_bytes s (length s) p v 0)" by (simp add: v(3))
  have whole: "latin1 v (length s) \<longleftrightarrow> latin1 v p \<and> latin1 p (length s)"
    using p by (intro latin1_split) simp_all
  show ?thesis
  proof (cases "check_bytes s (length s) p v 0")
    case None
    with bytes whole Some show ?thesis by (simp add: checked_def check_downgradeable_def Let_def)
  next
    case found: (Some r)
    obtain x c where r: "r = (x, c)" by (cases r)
    have x: "latin1 v p" "p \<le> x" "c = variants 0 x" "\<And>i. p \<le> i \<Longrightarrow> i < x \<Longrightarrow> UTF8_IS_CONTINUATION (s ! i)"
      using bytes found by (simp_all add: checked_def r)
    have "variants p x = 0" using x(4) by (rule variants_continuations)
    then have c: "c = variants 0 p" using kind_count_split [of 0 p x "\<lambda>b. 192 \<le> unat b" s] x(2,3) by simp
    have words: "words_checked p (check_words s (length s) p c)" unfolding c using p by (intro check_words_ok) simp
    show ?thesis
    proof (cases "check_words s (length s) p c")
      case None
      with words whole Some found show ?thesis by (simp add: words_checked_def check_downgradeable_def Let_def r)
    next
      case words_found: (Some q)
      obtain y d where q: "q = (y, d)" by (cases q)
      have y: "latin1 p y" "p < y" "y \<le> length s" "d = variants 0 y"
        using words words_found by (simp_all add: words_checked_def q)
      have vy: "latin1 v y" "v < y" using latin1_split [of v p y] x(1) y p by simp_all
      note z = back_off [OF v(1) vy y(3)]
      note check_rest [OF z(1-4), unfolded z(5)]
      then show ?thesis using Some found words_found vy y(4)
        by (simp add: check_downgradeable_def Let_def r q split: if_splits)
    qed
  qed
qed

text \<open>The bytes before the first variant are characters.\<close>

lemma invariant_boundary:
  "(\<And>i. i < v \<Longrightarrow> UTF8_IS_INVARIANT (s ! i)) \<Longrightarrow> v \<le> length s \<Longrightarrow> boundary v"
proof (induction v)
  case (Suc v)
  then have "boundary v" "v < length s" "UTF8_IS_INVARIANT (s ! v)" by simp_all
  moreover from this(3) have "UTF8SKIP (s ! v) = 1"
    by (simp add: UTF8SKIP_ranges UTF8_IS_INVARIANT_def word_less_nat_alt)
  ultimately show ?case using following [of v] by simp
qed (simp add: first)

end

section \<open>Encoded strings\<close>

definition boundary :: "u64 list \<Rightarrow> nat \<Rightarrow> bool" where
  "boundary cps x \<longleftrightarrow> (\<exists>us vs. cps = us @ vs \<and> x = length (utf8_string us))"

lemma utf8_string_append [simp]: "utf8_string (us @ vs) = utf8_string us @ utf8_string vs"
  by (simp add: utf8_string_def)

lemma utf8_char_first:
  "UTF8SKIP (utf8_char u ! 0) = OFFUNISKIP u" "0 < OFFUNISKIP u"
  "unat (utf8_char u ! 0) < 128 \<or> 194 \<le> unat (utf8_char u ! 0)"
proof -
  have hd: "hd (utf8_char u) = utf8_char u ! 0" by (subst utf8_char_Cons, subst (2) utf8_char_Cons) simp
  show "UTF8SKIP (utf8_char u ! 0) = OFFUNISKIP u" using UTF8SKIP_lead [of u] hd by simp
  show "0 < OFFUNISKIP u" using OFFUNISKIP_cases [of u] by auto
  consider "unat u < 128" | "128 \<le> unat u" "unat u < 256" | "256 \<le> unat u" by linarith
  then show "unat (utf8_char u ! 0) < 128 \<or> 194 \<le> unat (utf8_char u ! 0)"
  proof cases
    case 1
    then show ?thesis by (simp add: utf8_char_ascii unsigned_ucast_eq take_bit_eq_mod)
  next
    case 2
    then obtain h where "utf8_char u = [h, cont u]" "unat h = 192 + unat u div 64" by (rule utf8_char_latin1)
    then show ?thesis using 2 by simp
  next
    case 3
    then show ?thesis using utf8_char_above [OF 3] hd by simp
  qed
qed

lemma utf8_char_trailing: "0 < i \<Longrightarrow> i < OFFUNISKIP u \<Longrightarrow> UTF8_IS_CONTINUATION (utf8_char u ! i)"
  using encoded_nth(2) [of u "OFFUNISKIP u - 1" i "[]"] cont_IS_CONTINUATION by simp

lemma boundary_cases:
  assumes "boundary cps x" "x < length (utf8_string cps)"
  obtains us v vs where "cps = us @ v # vs" "x = length (utf8_string us)"
proof -
  from assms(1) obtain us vs where *: "cps = us @ vs" "x = length (utf8_string us)" by (auto simp: boundary_def)
  with assms(2) show thesis by (cases vs) (auto intro: that)
qed

lemma boundary_0: "boundary cps 0"
  unfolding boundary_def by (rule exI [of _ "[]"]) simp

interpretation utf8: characters "utf8_string cps" "boundary cps" for cps
proof
  show "boundary cps 0" by (rule boundary_0)
next
  fix x assume x: "boundary cps x" "x < length (utf8_string cps)"
  then obtain us v vs where cps: "cps = us @ v # vs" "x = length (utf8_string us)" by (rule boundary_cases)
  have here: "utf8_string cps ! x = utf8_char v ! 0"
    using utf8_char_first(2) [of v] by (simp add: cps nth_append length_utf8_char)
  show "x + UTF8SKIP (utf8_string cps ! x) \<le> length (utf8_string cps)"
    unfolding here utf8_char_first by (simp add: cps length_utf8_char)
  show "boundary cps (x + UTF8SKIP (utf8_string cps ! x))"
    unfolding here utf8_char_first boundary_def
    by (intro exI [of _ "us @ [v]"] exI [of _ vs]) (simp add: cps length_utf8_char)
  show "unat (utf8_string cps ! x) < 128 \<or> 194 \<le> unat (utf8_string cps ! x)"
    unfolding here by (rule utf8_char_first)
  fix i assume i: "x < i" "i < x + UTF8SKIP (utf8_string cps ! x)"
  then have "utf8_string cps ! i = utf8_char v ! (i - x)" "0 < i - x" "i - x < OFFUNISKIP v"
    unfolding here utf8_char_first by (auto simp: cps nth_append length_utf8_char)
  then show "UTF8_IS_CONTINUATION (utf8_string cps ! i)" by (simp add: utf8_char_trailing)
next
  fix i assume "i < length (utf8_string cps)" "\<not> UTF8_IS_CONTINUATION (utf8_string cps ! i)"
  then show "boundary cps i"
  proof (induction cps arbitrary: i)
    case (Cons u us)
    consider "i = 0" | "0 < i" "i < OFFUNISKIP u" | "OFFUNISKIP u \<le> i" by linarith
    then show ?case
    proof cases
      case 1
      then show ?thesis by (simp add: boundary_0)
    next
      case 2
      then show ?thesis using Cons.prems utf8_char_trailing by (simp add: nth_append length_utf8_char)
    next
      case 3
      then have "boundary us (i - OFFUNISKIP u)"
        using Cons.prems by (intro Cons.IH) (auto simp: nth_append length_utf8_char)
      then obtain ws vs where "us = ws @ vs" "i - OFFUNISKIP u = length (utf8_string ws)" by (auto simp: boundary_def)
      then show ?thesis using 3 unfolding boundary_def
        by (intro exI [of _ "u # ws"] exI [of _ vs]) (simp add: length_utf8_char)
    qed
  qed simp
qed

lemma continuations_of_string:
  "kind_count UTF8_IS_CONTINUATION (utf8_string cps) 0 (length (utf8_string cps)) + length cps = length (utf8_string cps)"
proof -
  have char: "length (filter UTF8_IS_CONTINUATION (utf8_char u)) + 1 = length (utf8_char u)" for u
  proof -
    have "kind_count UTF8_IS_CONTINUATION (utf8_char u) 0 (OFFUNISKIP u) = OFFUNISKIP u - 1"
      using utf8.character_count [of "[u]" 0] utf8_char_first [of u] utf8.first [of "[u]"]
      by (simp add: length_utf8_char)
    then show ?thesis using kind_count_filter [of UTF8_IS_CONTINUATION "utf8_char u"] utf8_char_first(2) [of u]
      by (simp add: length_utf8_char)
  qed
  have "length (filter UTF8_IS_CONTINUATION (utf8_string cps)) + length cps = length (utf8_string cps)"
  proof (induction cps)
    case (Cons u us)
    then show ?case using char [of u] by simp
  qed simp
  then show ?thesis by (simp add: kind_count_filter)
qed

section \<open>Conversions\<close>

lemma variant_iff: "UTF8_IS_INVARIANT b \<longleftrightarrow> unat b < 128"
  by (simp add: UTF8_IS_INVARIANT_def word_less_nat_alt)

lemma ucast_back: "unat (u :: u64) < 256 \<Longrightarrow> unat (ucast u :: u8) = unat u"
  by (simp add: unsigned_ucast_eq take_bit_eq_mod)

lemma ucast_ucast_u8: "ucast (ucast (b :: u8) :: u64) = b"
  by (rule bit_word_eqI) (auto simp: bit_simps)

lemma utf8_char_native:
  assumes "128 \<le> unat u" "unat u < 256"
  obtains h where "utf8_char u = [h, cont u]" "192 \<le> unat h" "EIGHT_BIT_UTF8_TO_NATIVE h (cont u) = ucast u"
proof -
  obtain h where h: "utf8_char u = [h, cont u]" "unat h = 192 + unat u div 64" by (rule utf8_char_latin1 [OF assms])
  define q r where "q = unat u div 64" and "r = unat u mod 64"
  have u: "unat u = 64 * q + r" "r < 64" by (simp_all add: q_def r_def)
  then have q: "q = 2 \<or> q = 3" using assms by auto
  have "unat (EIGHT_BIT_UTF8_TO_NATIVE h (cont u)) = unat u"
    unfolding EIGHT_BIT_unat unat_cont h(2) q_def [symmetric] r_def [symmetric]
    using q u mod_add_left_eq [of 128 64 r] by auto
  then have "EIGHT_BIT_UTF8_TO_NATIVE h (cont u) = ucast u"
    using assms(2) by (simp add: word_unat_eq_iff ucast_back)
  with h show thesis by (intro that) simp_all
qed

lemma append_utf8_from_native_byte_ok: "append_utf8_from_native_byte b = utf8_char (ucast b)"
proof (cases "UTF8_IS_INVARIANT b")
  case True
  then have "unat (ucast b :: u64) < 128" by (simp add: variant_iff unat_ucast_u8)
  then show ?thesis using True
    by (simp add: append_utf8_from_native_byte_def utf8_char_ascii ucast_ucast_u8)
next
  case False
  define u where "u = (ucast b :: u64)"
  have u: "unat u = unat b" "128 \<le> unat u" "unat u < 256"
    using False unsigned_less [of b, where 'a = nat] by (simp_all add: u_def unat_ucast_u8 variant_iff)
  obtain h where h: "utf8_char u = [h, cont u]" "unat h = 192 + unat u div 64" by (rule utf8_char_latin1 [OF u(2,3)])
  have "unat (UTF8_EIGHT_BIT_HI b) = 192 + unat b div 64"
  proof -
    have "drop_bit 6 b OR UTF_START_MARK 2 = drop_bit 6 b + UTF_START_MARK 2"
    proof (rule disjunctive_add [symmetric])
      fix n show "\<not> bit (drop_bit 6 b) n \<or> \<not> bit (UTF_START_MARK 2) n"
        using bit_imp_le_length [of b "6 + n"] by (auto simp: START_MARK bit_simps)
    qed
    moreover have "unat (drop_bit 6 b) = unat b div 64" by (simp add: unat_drop_bit_u8)
    moreover have "unat b div 64 < 4" using unsigned_less [of b, where 'a = nat] by simp
    ultimately show ?thesis using unat_START_MARK [of 2]
      unfolding UTF8_EIGHT_BIT_HI_def by (simp add: unat_word_ariths(1))
  qed
  then have "UTF8_EIGHT_BIT_HI b = h" using h(2) u(1) by (simp add: word_unat_eq_iff)
  moreover have "UTF8_EIGHT_BIT_LO b = cont u" by (simp add: UTF8_EIGHT_BIT_LO_def cont_def u_def)
  ultimately show ?thesis using False h(1) by (simp add: append_utf8_from_native_byte_def u_def)
qed

lemma length_latin1: "length (utf8_string (map ucast bs)) = length bs + length (filter (\<lambda>b. \<not> UTF8_IS_INVARIANT b) bs)"
proof (induction bs)
  case (Cons b bs)
  have "length (utf8_char (ucast b)) = (if UTF8_IS_INVARIANT b then 1 else 2)"
    by (simp add: append_utf8_from_native_byte_ok [symmetric] append_utf8_from_native_byte_def)
  with Cons show ?case by simp
qed simp

lemma bytes_to_utf8_ok:
  "bytes_to_utf8_free_me free_me addr bs =
    (utf8_string (map ucast bs),
     if free_me \<and> (\<forall>b \<in> set bs. UTF8_IS_INVARIANT b) then None else Some (length (utf8_string (map ucast bs)) + 1))"
proof -
  have none: "variant_under_utf8_count addr bs = 0 \<longleftrightarrow> (\<forall>b \<in> set bs. UTF8_IS_INVARIANT b)"
    by (simp add: variant_under_utf8_count_ok filter_empty_conv)
  have all: "concat (map append_utf8_from_native_byte bs) = utf8_string (map ucast bs)"
    by (simp add: utf8_string_def append_utf8_from_native_byte_ok comp_def cong: map_cong)
  have "concat (map append_utf8_from_native_byte bs) = bs" if "\<forall>b \<in> set bs. UTF8_IS_INVARIANT b"
    using that by (induction bs) (simp_all add: append_utf8_from_native_byte_def)
  then show ?thesis
    unfolding bytes_to_utf8_free_me_def Let_def none
    using all length_latin1 [of bs] variant_under_utf8_count_ok [of addr bs] by auto
qed

lemma high_byte: "256 \<le> unat u \<Longrightarrow> 196 \<le> unat (utf8_char u ! 0)"
  using utf8_char_above [of u] utf8_char_Cons [of u] by (metis nth_Cons_0)

lemma ascii_byte: "UTF8_IS_INVARIANT (utf8_char u ! 0) \<longleftrightarrow> unat u < 128"
proof -
  consider "unat u < 128" | "128 \<le> unat u" "unat u < 256" | "256 \<le> unat u" by linarith
  then show ?thesis
  proof cases
    case 1
    then show ?thesis by (simp add: utf8_char_ascii variant_iff ucast_back)
  next
    case 2
    then obtain h where "utf8_char u = [h, cont u]" "192 \<le> unat h" by (rule utf8_char_native)
    with 2 show ?thesis by (simp add: variant_iff)
  next
    case 3
    with high_byte [OF 3] show ?thesis by (simp add: variant_iff)
  qed
qed

lemma utf8_string_nth: "utf8_string (us @ v # vs) ! length (utf8_string us) = utf8_char v ! 0"
  using utf8_char_first(2) [of v] by (simp add: nth_append length_utf8_char)

lemma latin1_string:
  "utf8.latin1 cps 0 (length (utf8_string cps)) \<longleftrightarrow> (\<forall>u \<in> set cps. unat u < 256)"
proof
  assume all: "\<forall>u \<in> set cps. unat u < 256"
  show "utf8.latin1 cps 0 (length (utf8_string cps))" unfolding utf8.latin1_def
  proof (intro allI impI)
    fix i assume i: "0 \<le> i \<and> i < length (utf8_string cps) \<and> 192 \<le> unat (utf8_string cps ! i)"
    then have "boundary cps i" using utf8.inside [of i cps] utf8.continuation_range by fastforce
    then obtain us v vs where cps: "cps = us @ v # vs" "i = length (utf8_string us)" using i boundary_cases by blast
    then have v: "unat v < 256" "192 \<le> unat (utf8_char v ! 0)" using all i utf8_string_nth by auto
    then have "128 \<le> unat v" using ascii_byte [of v] by (auto simp: variant_iff)
    then obtain h where h: "utf8_char v = [h, cont v]" "unat h = 192 + unat v div 64" using v(1) by (rule utf8_char_latin1)
    have "unat v div 64 = 2 \<or> unat v div 64 = 3" using \<open>128 \<le> unat v\<close> v(1) by auto
    then show "unat (utf8_string cps ! i) \<in> {194, 195}" using h unfolding cps utf8_string_nth by auto
  qed
next
  assume ok: "utf8.latin1 cps 0 (length (utf8_string cps))"
  show "\<forall>u \<in> set cps. unat u < 256"
  proof
    fix u assume "u \<in> set cps"
    then obtain us vs where cps: "cps = us @ u # vs" by (meson split_list)
    define i where "i = length (utf8_string us)"
    have i: "0 \<le> i \<and> i < length (utf8_string cps)" "utf8_string cps ! i = utf8_char u ! 0"
      using utf8_char_first(2) [of u] utf8_string_nth [of us u vs] by (simp_all add: i_def cps length_utf8_char)
    have "unat (utf8_char u ! 0) \<in> {194, 195}" if "192 \<le> unat (utf8_char u ! 0)"
      using ok [unfolded utf8.latin1_def, rule_format, of i] i that by metis
    then show "unat u < 256" using high_byte [of u] by force
  qed
qed

lemma variants_of_string:
  "\<forall>u \<in> set cps. unat u < 256 \<Longrightarrow>
   utf8.variants cps 0 (length (utf8_string cps)) + length cps = length (utf8_string cps)"
proof -
  have char: "length (filter (\<lambda>b. 192 \<le> unat b) (utf8_char u)) + 1 = length (utf8_char u)" if small: "unat u < 256" for u
  proof (cases "unat u < 128")
    case True
    then show ?thesis by (simp add: utf8_char_ascii ucast_back)
  next
    case False
    then have "128 \<le> unat u" by simp
    then obtain h where "utf8_char u = [h, cont u]" "192 \<le> unat h" using small by (rule utf8_char_native)
    then show ?thesis using utf8.continuation_range [OF cont_IS_CONTINUATION [of u]] by simp
  qed
  assume "\<forall>u \<in> set cps. unat u < 256"
  then have "length (filter (\<lambda>b. 192 \<le> unat b) (utf8_string cps)) + length cps = length (utf8_string cps)"
  proof (induction cps)
    case (Cons u us)
    then show ?case using char [of u] by simp
  qed simp
  then show ?thesis by (simp add: kind_count_filter)
qed

lemma ascii_string:
  "\<forall>b \<in> set (utf8_string us). UTF8_IS_INVARIANT b \<Longrightarrow> (\<forall>u \<in> set us. unat u < 128) \<and> utf8_string us = map ucast us"
proof (induction us)
  case (Cons u us)
  have "utf8_char u ! 0 \<in> set (utf8_char u)" using utf8_char_first(2) [of u] by (simp add: length_utf8_char)
  then have "unat u < 128" using Cons.prems ascii_byte [of u] by simp
  with Cons show ?case by (simp add: utf8_char_ascii)
qed simp

text \<open>The second pass over the characters \<open>vs\<close>, which start at \<open>x\<close>.\<close>

lemma convert_bytes_ok:
  "\<forall>v \<in> set vs. unat v < 256 \<Longrightarrow> drop x (if overwrite then d0 else s) = utf8_string vs \<Longrightarrow>
   length s = x + length (utf8_string vs) \<Longrightarrow> d \<le> x \<Longrightarrow> d + length vs \<le> length d0 \<Longrightarrow>
   convert_bytes overwrite s x d d0
     = (True, length s, d + length vs, take d d0 @ map ucast vs @ drop (d + length vs) d0)"
proof (induction vs arbitrary: x d d0)
  case Nil
  then show ?case by (subst convert_bytes.simps) (simp add: Let_def)
next
  case (Cons v vs)
  define src where "src = (if overwrite then d0 else s)"
  have src: "drop x src = utf8_char v @ utf8_string vs" using Cons.prems(2) by (simp add: src_def)
  have x: "x < length s" using Cons.prems(3) utf8_char_first(2) [of v] by (simp add: length_utf8_char)
  have next_char: "convert_bytes overwrite s (x + length (utf8_char v)) (d + 1) (d0[d := ucast v])
      = (True, length s, d + length (v # vs), take d d0 @ map ucast (v # vs) @ drop (d + length (v # vs)) d0)"
  proof -
    have len: "0 < length (utf8_char v)" using utf8_char_first(2) [of v] by (simp add: length_utf8_char)
    have "convert_bytes overwrite s (x + length (utf8_char v)) (d + 1) (d0[d := ucast v])
        = (True, length s, d + 1 + length vs, take (d + 1) (d0[d := ucast v]) @ map ucast vs @ drop (d + 1 + length vs) (d0[d := ucast v]))"
    proof (rule Cons.IH)
      have "drop (length (utf8_char v)) (drop x src) = utf8_string vs" using src by simp
      then have "drop (x + length (utf8_char v)) src = utf8_string vs" by (simp add: add.commute)
      moreover have "drop (x + length (utf8_char v)) (d0[d := ucast v]) = drop (x + length (utf8_char v)) d0"
        using Cons.prems(4) len by (intro drop_update_cancel) linarith
      ultimately show "drop (x + length (utf8_char v)) (if overwrite then d0[d := ucast v] else s) = utf8_string vs"
        by (simp add: src_def split: if_splits)
      show "d + 1 \<le> x + length (utf8_char v)" using Cons.prems(4) len by linarith
    qed (use Cons.prems in auto)
    also have "\<dots> = (True, length s, d + length (v # vs), take d d0 @ map ucast (v # vs) @ drop (d + length (v # vs)) d0)"
      using Cons.prems(5) by (simp add: take_Suc_conv_app_nth drop_update_cancel)
    finally show ?thesis .
  qed
  have "length src - x = length (utf8_char v) + length (utf8_string vs)" using arg_cong [OF src, of length] by simp
  then have x_src: "x \<le> length src" using utf8_char_first(2) [of v] by (simp add: length_utf8_char)
  have here: "src ! x = utf8_char v ! 0"
    using nth_drop [OF x_src, of 0] utf8_char_first(2) [of v] unfolding src by (simp add: nth_append length_utf8_char)
  show ?case
  proof (cases "unat v < 128")
    case True
    then have c: "utf8_char v = [ucast v]" by (rule utf8_char_ascii)
    moreover have "UTF8_IS_INVARIANT (src ! x)" using True here ascii_byte by simp
    ultimately show ?thesis using next_char x here
      by (subst convert_bytes.simps) (simp add: Let_def src_def [symmetric])
  next
    case False
    then have v: "128 \<le> unat v" "unat v < 256" using Cons.prems(1) by simp_all
    obtain h where h: "utf8_char v = [h, cont v]" "192 \<le> unat h" "EIGHT_BIT_UTF8_TO_NATIVE h (cont v) = ucast v"
      by (rule utf8_char_native [OF v])
    have second: "src ! (x + 1) = cont v"
      using nth_drop [OF x_src, of 1] h(1) unfolding src by simp
    have "\<not> UTF8_IS_INVARIANT h" "\<not> UTF8_IS_CONTINUATION h"
      using h(2) utf8.continuation_range [of h] by (auto simp: variant_iff)
    then show ?thesis using next_char x here second h Cons.prems(3) cont_IS_CONTINUATION
      by (subst convert_bytes.simps) (simp add: Let_def src_def [symmetric])
  qed
qed

lemma string_of_ascii: "\<forall>u \<in> set us. unat u < 128 \<Longrightarrow> utf8_string us = map ucast us"
  by (induction us) (simp_all add: utf8_char_ascii)

lemma convert_whole:
  assumes "cps = us @ vs" "\<forall>u \<in> set us. unat u < 128" "\<forall>v \<in> set vs. unat v < 256"
    and "d0 = (if overwrite then utf8_string cps else map ucast us @ rest)" "overwrite \<or> length rest = length vs + 1"
  shows "convert_bytes overwrite (utf8_string cps) (length us) (length us) d0
    = (True, length (utf8_string cps), length cps, map ucast cps @ drop (length cps) d0)"
proof -
  have us: "utf8_string us = map ucast us" using assms(2) by (rule string_of_ascii)
  have vs: "length vs \<le> length (utf8_string vs)"
    using continuations_of_string [of vs] by linarith
  have "convert_bytes overwrite (utf8_string cps) (length us) (length us) d0
      = (True, length (utf8_string cps), length us + length vs,
         take (length us) d0 @ map ucast vs @ drop (length us + length vs) d0)"
    using assms vs by (intro convert_bytes_ok) (auto simp: us)
  then show ?thesis using assms(1,4) us by (cases overwrite) simp_all
qed

lemma first_variant_string:
  "case is_utf8_invariant_string_loc addr (utf8_string cps) (length (utf8_string cps)) of
     None \<Rightarrow> \<forall>u \<in> set cps. unat u < 128
   | Some v \<Rightarrow> \<exists>us u vs. cps = us @ u # vs \<and> 128 \<le> unat u \<and> (\<forall>u \<in> set us. unat u < 128) \<and> v = length us"
proof -
  let ?s = "utf8_string cps"
  let ?r = "is_utf8_invariant_string_loc addr ?s (length ?s)"
  have found: "first_variant ?s 0 (length ?s) ?r" by (rule is_utf8_invariant_string_loc_ok)
  show ?thesis
  proof (cases ?r)
    case None
    with found have "\<forall>b \<in> set ?s. UTF8_IS_INVARIANT b" by (auto simp: first_variant_def in_set_conv_nth)
    then show ?thesis using ascii_string [of cps] None by simp
  next
    case (Some v)
    with found have v: "v < length ?s" "\<not> UTF8_IS_INVARIANT (?s ! v)" "\<And>i. i < v \<Longrightarrow> UTF8_IS_INVARIANT (?s ! i)"
      by (simp_all add: first_variant_def)
    have "boundary cps v" by (rule utf8.invariant_boundary) (use v in auto)
    then obtain us u vs where cps: "cps = us @ u # vs" "v = length (utf8_string us)" using v(1) by (rule boundary_cases)
    have "\<forall>b \<in> set (utf8_string us). UTF8_IS_INVARIANT b"
    proof
      fix b assume "b \<in> set (utf8_string us)"
      then obtain i where "i < length (utf8_string us)" "b = utf8_string us ! i" by (metis in_set_conv_nth)
      then show "UTF8_IS_INVARIANT b" using v(3) [of i] by (simp add: cps nth_append)
    qed
    from ascii_string [OF this] have us: "\<forall>u \<in> set us. unat u < 128" "v = length us" by (simp_all add: cps)
    have "\<not> unat u < 128" using v(2) ascii_byte [of u] utf8_string_nth [of us u vs] by (simp add: cps)
    then have "128 \<le> unat u" by simp
    then show ?thesis using us cps(1) Some by auto
  qed
qed

text \<open>What the conversion of the text \<open>cps\<close> leaves.\<close>

definition downgraded :: "utf8_to_bytes_arg \<Rightarrow> u64 list \<Rightarrow> bytes_result" where
  "downgraded result_as cps =
     (let s = utf8_string cps; bs = map ucast cps
      in if \<exists>u \<in> set cps. 256 \<le> unat u
         then \<lparr>returned = False, input_memory = s, lenp = length s, new_memory = None\<rparr>
         else if \<forall>u \<in> set cps. unat u < 128
         then \<lparr>returned = True, input_memory = s, lenp = length s, new_memory = None\<rparr>
         else if result_as = utf8_to_bytes_overwrite
         then \<lparr>returned = True, input_memory = bs @ 0 # drop (length bs + 1) s, lenp = length bs, new_memory = None\<rparr>
         else \<lparr>returned = True, input_memory = s, lenp = length bs, new_memory = Some (bs @ [0])\<rparr>)"

text \<open>A text whose first variant is \<open>u\<close>.\<close>

lemma string_split:
  assumes "cps = us @ u # vs" "128 \<le> unat u" "\<forall>u \<in> set us. unat u < 128"
  shows "utf8_string us = map ucast us" "length cps < length (utf8_string cps)"
    "boundary cps (length us)" "length us \<le> length (utf8_string cps)" "i < length us \<Longrightarrow> unat (utf8_string cps ! i) < 128"
proof -
  show us: "utf8_string us = map ucast us" using assms(3) by (rule string_of_ascii)
  have "2 \<le> length (utf8_char u)"
    using OFFUNISKIP_1 [of u] OFFUNISKIP_cases [of u] assms(2) by (auto simp: length_utf8_char)
  moreover have "length vs \<le> length (utf8_string vs)" using continuations_of_string [of vs] by linarith
  ultimately show "length cps < length (utf8_string cps)" by (simp add: assms(1) us)
  show "boundary cps (length us)" unfolding boundary_def
    by (rule exI [of _ us], rule exI [of _ "u # vs"]) (simp add: assms(1) us)
  show "length us \<le> length (utf8_string cps)" by (simp add: assms(1) us)
  assume "i < length us"
  moreover from this have "unat (us ! i) < 128" using assms(3) by simp
  ultimately show "unat (utf8_string cps ! i) < 128" by (simp add: assms(1) us nth_append ucast_back)
qed

lemma check_string:
  assumes "cps = us @ u # vs" "128 \<le> unat u" "\<forall>u \<in> set us. unat u < 128"
  shows "check_downgradeable addr (utf8_string cps) (length us)
    = (if \<forall>u \<in> set cps. unat u < 256 then Some (utf8.variants cps 0 (length (utf8_string cps))) else None)"
proof -
  note split = string_split [OF assms]
  have "utf8.variants cps 0 (length us) = 0" using split(5) by (intro kind_count_none) fastforce
  note check = utf8.check_downgradeable_ok [OF split(3,4) this, of addr]
  have "utf8.latin1 cps 0 (length us)" unfolding utf8.latin1_def using split(5) by fastforce
  then have "utf8.latin1 cps (length us) (length (utf8_string cps)) \<longleftrightarrow> (\<forall>u \<in> set cps. unat u < 256)"
    using utf8.latin1_split [of 0 "length us" "length (utf8_string cps)" cps] split(4) latin1_string [of cps] by simp
  with check show ?thesis by simp
qed

lemma end_of_memory:
  "length d0 = length bs + 1 \<Longrightarrow> (bs @ drop (length bs) d0)[length bs := 0] = bs @ [0]"
  "length bs < length s \<Longrightarrow> (bs @ drop (length bs) s)[length bs := 0] = bs @ 0 # drop (length bs + 1) s"
proof -
  assume "length d0 = length bs + 1"
  then have "length (drop (length bs) d0) = 1" by simp
  then obtain z where "drop (length bs) d0 = [z]" by (metis length_0_conv length_Suc_conv One_nat_def)
  then show "(bs @ drop (length bs) d0)[length bs := 0] = bs @ [0]" by (simp add: list_update_append)
next
  assume "length bs < length s"
  then show "(bs @ drop (length bs) s)[length bs := 0] = bs @ 0 # drop (length bs + 1) s"
    by (simp add: list_update_append Cons_nth_drop_Suc [symmetric])
qed

lemma utf8_to_bytes_variants:
  assumes cps: "cps = us @ u # vs" "128 \<le> unat u" "\<forall>u \<in> set us. unat u < 128"
    and found: "is_utf8_invariant_string_loc addr (utf8_string cps) (length (utf8_string cps)) = Some (length us)"
    and small: "\<forall>u \<in> set cps. unat u < 256"
  shows "utf8_to_bytes_as result_as fresh addr (utf8_string cps) = Some (downgraded result_as cps)"
proof -
  let ?s = "utf8_string cps"
  let ?bs = "map ucast cps :: u8 list"
  define overwrite where "overwrite \<longleftrightarrow> result_as = utf8_to_bytes_overwrite"
  define d0 where "d0 = (if overwrite then ?s else map ucast us @ map fresh [length us..<length cps + 1])"
  note split = string_split [OF cps]
  have count: "length ?s + 1 - utf8.variants cps 0 (length ?s) = length cps + 1"
    using variants_of_string [OF small] by simp
  have take: "take (length us) ?s = map ucast us" by (simp add: cps(1) split(1) [simplified cps(1)])
  have converted: "convert_bytes overwrite ?s (length us) (length us) d0
      = (True, length ?s, length cps, ?bs @ drop (length cps) d0)"
    using small cps(3)
    by (intro convert_whole [of cps us "u # vs" d0 overwrite "map fresh [length us..<length cps + 1]"])
      (auto simp: d0_def cps(1))
  have finish: "(?bs @ drop (length cps) d0)[length cps := 0]
      = (if overwrite then ?bs @ 0 # drop (length cps + 1) ?s else ?bs @ [0])"
  proof (cases overwrite)
    case True
    then show ?thesis using end_of_memory(2) [of ?bs ?s] split(2) by (simp add: d0_def)
  next
    case False
    then have "length d0 = length ?bs + 1" by (simp add: d0_def cps(1))
    with False show ?thesis using end_of_memory(1) [of d0 ?bs] by simp
  qed
  have "\<not> (\<exists>u \<in> set cps. 256 \<le> unat u)" "\<not> (\<forall>u \<in> set cps. unat u < 128)"
    using small cps(1,2) by (force, auto)
  then have result: "downgraded result_as cps =
      (if overwrite then \<lparr>returned = True, input_memory = ?bs @ 0 # drop (length cps + 1) ?s,
         lenp = length cps, new_memory = None\<rparr>
       else \<lparr>returned = True, input_memory = ?s, lenp = length cps, new_memory = Some (?bs @ [0])\<rparr>)"
    unfolding downgraded_def Let_def overwrite_def by (simp only: if_False length_map)
  have memory: "(if overwrite then ?s else take (length us) ?s
      @ map fresh [length us..<length ?s + 1 - utf8.variants cps 0 (length ?s)]) = d0"
    unfolding d0_def take count ..
  have check: "check_downgradeable addr ?s (length us) = Some (utf8.variants cps 0 (length ?s))"
    using check_string [OF cps, of addr] small by simp
  show ?thesis
    unfolding result utf8_to_bytes_as_def Let_def found check option.case overwrite_def [symmetric] memory converted
    using finish by simp
qed

lemma utf8_to_bytes_ok:
  "utf8_to_bytes_as result_as fresh addr (utf8_string cps) = Some (downgraded result_as cps)"
proof (cases "is_utf8_invariant_string_loc addr (utf8_string cps) (length (utf8_string cps))")
  case None
  then have all: "\<forall>u \<in> set cps. unat u < 128" using first_variant_string [of cps addr] by simp
  then have "\<not> (\<exists>u \<in> set cps. 256 \<le> unat u)" by force
  with None all show ?thesis by (simp add: utf8_to_bytes_as_def downgraded_def Let_def)
next
  case (Some v)
  then obtain us u vs where cps: "cps = us @ u # vs" "128 \<le> unat u" "\<forall>u \<in> set us. unat u < 128" "v = length us"
    using first_variant_string [of cps addr] by auto
  show ?thesis
  proof (cases "\<forall>u \<in> set cps. unat u < 256")
    case True
    with cps Some show ?thesis by (intro utf8_to_bytes_variants [of cps us u vs]) simp_all
  next
    case False
    then have "\<exists>u \<in> set cps. 256 \<le> unat u" by force
    then show ?thesis using Some check_string [OF cps(1-3), of addr] False cps(4)
      by (simp add: utf8_to_bytes_as_def downgraded_def Let_def)
  qed
qed

end
