(* ===== verification/Utf8_Props.thy ===== *)
theory Utf8_Props
  imports Utf8_Text
begin

text \<open>
  The properties of the UTF-8 routines of \<open>src/utf8.c\<close> and \<open>src/inline.h\<close>: the encoder and the
  decoder of a character, the length of a string, and the conversions between UTF-8 and bytes.
\<close>

section \<open>What the flags forbid and report\<close>

definition too_large :: "u64 \<Rightarrow> u64 \<Rightarrow> bool" where
  "too_large uv flags \<longleftrightarrow> uv > MAX_LEGAL_CP \<and> \<not> has_flag flags UNICODE_ALLOW_ABOVE_IV_MAX"

definition forbidden :: "u64 \<Rightarrow> u64 \<Rightarrow> bool" where
  "forbidden uv flags \<longleftrightarrow>
     (UNICODE_IS_PERL_EXTENDED uv \<and> has_flag flags UNICODE_DISALLOW_PERL_EXTENDED)
     \<or> (UNICODE_IS_SUPER uv \<and> has_flag flags UNICODE_DISALLOW_SUPER)
     \<or> (UNICODE_IS_NONCHAR uv \<and> has_flag flags UNICODE_DISALLOW_NONCHAR)
     \<or> (UNICODE_IS_SURROGATE uv \<and> has_flag flags UNICODE_DISALLOW_SURROGATE)"

definition reported :: "u64 \<Rightarrow> u64 \<Rightarrow> utf8_msg option" where
  "reported uv flags =
     (if UNICODE_IS_PERL_EXTENDED uv \<and> has_flag flags UNICODE_WARN_PERL_EXTENDED then Some GOT_PERL_EXTENDED
      else if UNICODE_IS_SUPER uv \<and> has_flag flags UNICODE_WARN_SUPER then Some GOT_SUPER
      else if UNICODE_IS_NONCHAR uv \<and> has_flag flags UNICODE_WARN_NONCHAR then Some GOT_NONCHAR
      else if UNICODE_IS_SURROGATE uv \<and> has_flag flags UNICODE_WARN_SURROGATE then Some GOT_SURROGATE
      else None)"

definition singleton :: "'a option \<Rightarrow> 'a list" where
  "singleton x = (case x of None \<Rightarrow> [] | Some y \<Rightarrow> [y])"

lemma singleton_simps [simp]: "singleton None = []" "singleton (Some x) = [x]"
  by (simp_all add: singleton_def)

lemma has_flag_or: "has_flag flags (a OR b) \<longleftrightarrow> has_flag flags a \<or> has_flag flags b"
  by (simp add: has_flag_def bit.conj_disj_distrib or_eq_0_iff)

lemma has_flag_drop_super:
  "has_flag (flags AND NOT UNICODE_WARN_SUPER) UNICODE_WARN_SUPER = False"
  "has_flag (flags AND NOT UNICODE_WARN_SUPER) UNICODE_DISALLOW_SUPER = has_flag flags UNICODE_DISALLOW_SUPER"
  "has_flag (flags AND NOT UNICODE_WARN_SUPER) UNICODE_DISALLOW_PERL_EXTENDED = has_flag flags UNICODE_DISALLOW_PERL_EXTENDED"
  by (simp_all add: has_flag_def UNICODE_WARN_SUPER_def UNICODE_DISALLOW_SUPER_def UNICODE_DISALLOW_PERL_EXTENDED_def
      and.assoc)

text \<open>The classes in terms of the length.\<close>

lemma class_ranges:
  "UNICODE_IS_PERL_EXTENDED uv \<longleftrightarrow> 2 ^ 31 \<le> unat uv"
  "UNICODE_IS_SUPER uv \<longleftrightarrow> 1114112 \<le> unat uv"
  "UNICODE_IS_SURROGATE uv \<longleftrightarrow> 55296 \<le> unat uv \<and> unat uv \<le> 57343"
  "uv > MAX_LEGAL_CP \<longleftrightarrow> 2 ^ 63 \<le> unat uv"
  "uv \<ge> 0xD800 \<longleftrightarrow> 55296 \<le> unat uv"
  by (auto simp: UNICODE_IS_PERL_EXTENDED_def UNICODE_IS_SUPER_def UNICODE_IS_SURROGATE_def MAX_LEGAL_CP_def
      word_less_nat_alt word_le_nat_alt)

lemma nonchar_range:
  assumes "UNICODE_IS_NONCHAR uv"
  shows "64976 \<le> unat uv" "unat uv < 1114112"
proof -
  have "uv AND 0xFFFE \<le> uv" by (rule word_and_le2)
  then have "unat (uv AND 0xFFFE) \<le> unat uv" by (simp add: word_le_nat_alt)
  then show "64976 \<le> unat uv" "unat uv < 1114112"
    using assms unfolding UNICODE_IS_NONCHAR_def class_ranges(2) by (auto simp: word_le_nat_alt)
qed

lemma skip_ranges:
  "OFFUNISKIP uv > 6 \<longleftrightarrow> 2 ^ 31 \<le> unat uv" "OFFUNISKIP uv \<ge> 4 \<longleftrightarrow> 2 ^ 16 \<le> unat uv"
  "OFFUNISKIP uv \<ge> 3 \<longleftrightarrow> 2 ^ 11 \<le> unat uv" "OFFUNISKIP uv = 1 \<longleftrightarrow> unat uv < 2 ^ 7"
  unfolding OFFUNISKIP_ranges by simp_all

lemma checks_spec:
  "check_super uv flags = (UNICODE_IS_SUPER uv \<and> forbidden uv flags, if UNICODE_IS_SUPER uv \<and> has_flag flags UNICODE_WARN_SUPER then [GOT_SUPER] else [])"
  "check_problematic uv flags = (\<not> UNICODE_IS_SUPER uv \<and> forbidden uv flags, if \<not> UNICODE_IS_SUPER uv then singleton (reported uv flags) else [])"
proof -
  have ext: "UNICODE_IS_PERL_EXTENDED uv \<Longrightarrow> UNICODE_IS_SUPER uv" by (simp add: class_ranges)
  have nonchar: "UNICODE_IS_NONCHAR uv \<Longrightarrow> uv \<ge> 0xD800 \<and> \<not> UNICODE_IS_SUPER uv \<and> \<not> UNICODE_IS_SURROGATE uv"
    using nonchar_range [of uv] by (simp add: class_ranges)
  have surrogate: "UNICODE_IS_SURROGATE uv \<Longrightarrow> uv \<ge> 0xD800 \<and> \<not> UNICODE_IS_SUPER uv \<and> \<not> UNICODE_IS_NONCHAR uv"
    using nonchar_range [of uv] by (auto simp: class_ranges)
  show "check_super uv flags = (UNICODE_IS_SUPER uv \<and> forbidden uv flags, if UNICODE_IS_SUPER uv \<and> has_flag flags UNICODE_WARN_SUPER then [GOT_SUPER] else [])"
    using nonchar surrogate by (auto simp: check_super_def forbidden_def)
  show "check_problematic uv flags = (\<not> UNICODE_IS_SUPER uv \<and> forbidden uv flags, if \<not> UNICODE_IS_SUPER uv then singleton (reported uv flags) else [])"
    using ext nonchar surrogate by (auto simp: check_problematic_def forbidden_def reported_def)
qed

lemma encoder_total:
  "uvoffuni_to_utf8_flags_msgs uv flags =
     (if too_large uv flags then Inl (Code_point_too_large uv)
      else Inr (if forbidden uv flags then None else Some (utf8_char uv), singleton (reported uv flags)))"
proof (cases "OFFUNISKIP uv = 1")
  case True
  then have "unat uv < 128" using OFFUNISKIP_1 by blast
  then have "\<not> UNICODE_IS_NONCHAR uv" "\<not> UNICODE_IS_PERL_EXTENDED uv" "\<not> UNICODE_IS_SUPER uv" "\<not> UNICODE_IS_SURROGATE uv"
      "\<not> uv > MAX_LEGAL_CP"
    using nonchar_range [of uv] by (auto simp: class_ranges)
  with True show ?thesis
    by (simp add: uvoffuni_to_utf8_flags_msgs_def too_large_def forbidden_def reported_def utf8_char_def)
next
  case False
  then have char: "utf8_char uv = encode_bytes (OFFUNISKIP uv) uv" by (simp add: utf8_char_def)
  consider "2 ^ 31 \<le> unat uv" | "unat uv < 2 ^ 31" "UNICODE_IS_SUPER uv" | "\<not> UNICODE_IS_SUPER uv" by linarith
  then show ?thesis
  proof cases
    case 1
    then have skip: "OFFUNISKIP uv > 6" and ext: "UNICODE_IS_PERL_EXTENDED uv" "UNICODE_IS_SUPER uv"
      by (simp_all add: skip_ranges class_ranges)
    show ?thesis
    proof (cases "too_large uv flags")
      case True
      with skip show ?thesis by (simp add: uvoffuni_to_utf8_flags_msgs_def too_large_def)
    next
      case False
      have nonchar: "\<not> UNICODE_IS_NONCHAR uv" "\<not> UNICODE_IS_SURROGATE uv"
        using nonchar_range(2) [of uv] ext(2) by (auto simp: class_ranges)
      show ?thesis
        using False skip ext nonchar char
        by (simp add: uvoffuni_to_utf8_flags_msgs_def too_large_def check_extended_def checks_spec forbidden_def
            reported_def has_flag_or has_flag_drop_super Let_def)
    qed
  next
    case 2
    then have skip: "\<not> OFFUNISKIP uv > 6" "OFFUNISKIP uv \<ge> 4" and ext: "\<not> UNICODE_IS_PERL_EXTENDED uv" "\<not> uv > MAX_LEGAL_CP"
      unfolding skip_ranges class_ranges by simp_all
    have nonchar: "\<not> UNICODE_IS_NONCHAR uv" "\<not> UNICODE_IS_SURROGATE uv"
      using nonchar_range(2) [of uv] 2(2) by (auto simp: class_ranges)
    show ?thesis
      using False skip ext 2(2) char nonchar
      by (simp add: uvoffuni_to_utf8_flags_msgs_def too_large_def checks_spec reported_def)
  next
    case 3
    then have ext: "\<not> OFFUNISKIP uv > 6" "\<not> UNICODE_IS_PERL_EXTENDED uv" "\<not> uv > MAX_LEGAL_CP"
      unfolding skip_ranges class_ranges by simp_all
    have low: "\<not> forbidden uv flags \<and> reported uv flags = None" if "\<not> OFFUNISKIP uv \<ge> 3"
      using that nonchar_range [of uv] 3 ext unfolding skip_ranges forbidden_def reported_def by (auto simp: class_ranges)
    show ?thesis
      using False ext 3 char low
      by (cases "4 \<le> OFFUNISKIP uv"; cases "3 \<le> OFFUNISKIP uv")
        (auto simp: uvoffuni_to_utf8_flags_msgs_def too_large_def checks_spec Let_def)
  qed
qed

section \<open>Where the code departs from its documentation\<close>

text \<open>
  A failed conversion that overwrites its input does not restore it: here \<open>C3\<close> stays \<open>E9\<close>.
\<close>

lemma overwrite_not_undone:
  "map_option (\<lambda>r. (returned r, take 3 (input_memory r)))
     (utf8_to_bytes_as utf8_to_bytes_overwrite (\<lambda>_. 0) 0 ([0xC3, 0xA9, 0x80] @ replicate 38 0x61))
   = Some (False, [0xE9, 0xA9, 0x80])"
  by code_simp

text \<open>
  Of a string that ends in a truncated character, the length is in bytes when the string is
  short and in characters when it is long.
\<close>

lemma truncated_length:
  "utf8_length 0 [0xC3, 0xA9, 0xC3, 0xA9, 0xC3] = (4, True)"
  "utf8_length 0 (concat (replicate 60 [0xC3, 0xA9]) @ [0xC3]) = (60, True)"
  by code_simp+

text \<open>A length of 0 does not stand for the length up to a NUL: nothing is scanned.\<close>

lemma length_0_not_scanned: "is_utf8_invariant_string_loc addr s 0 = None"
  by (simp add: is_utf8_invariant_string_loc_def WORTH_PER_WORD_LOOP_def first_variant_byte.simps Let_def)

text \<open>
  A code point of Perl's extended UTF-8 that a flag disallows is reported as above Unicode, under the
  control of \<open>WARN_SUPER\<close>, although a \<open>PERL_EXTENDED\<close> flag is set.
\<close>

lemma extended_reported_as_super:
  "uvoffuni_to_utf8_flags_msgs 0x80000000 (UNICODE_DISALLOW_PERL_EXTENDED OR UNICODE_WARN_SUPER) = Inr (None, [GOT_SUPER])"
  by (simp add: encoder_total too_large_def forbidden_def reported_def class_ranges has_flag_def MAX_LEGAL_CP_def
      UNICODE_WARN_SUPER_def UNICODE_WARN_PERL_EXTENDED_def UNICODE_DISALLOW_SUPER_def UNICODE_DISALLOW_PERL_EXTENDED_def
      UNICODE_ALLOW_ABOVE_IV_MAX_def)

section \<open>The properties\<close>

text \<open>C38: the encoder, completely: it dies exactly for a code point above \<open>IV_MAX\<close> that no flag
allows; it returns \<open>NULL\<close> exactly for a code point of a class the flags forbid; else it writes the
bytes of the character. It raises at most one message, the most specific the flags ask for: for a
character of Perl's extended UTF-8 that is \<open>GOT_PERL_EXTENDED\<close> if \<open>WARN_PERL_EXTENDED\<close> is set, else
\<open>GOT_SUPER\<close> if \<open>WARN_SUPER\<close> is, also where \<open>DISALLOW_PERL_EXTENDED\<close> is set, although the documentation
says that the return is then controlled by the \<open>PERL_EXTENDED\<close> flags.\<close>

theorem encoder_complete:
  "uvoffuni_to_utf8_flags_msgs uv flags =
     (if too_large uv flags then Inl (Code_point_too_large uv)
      else Inr (if forbidden uv flags then None else Some (utf8_char uv), singleton (reported uv flags)))"
  by (rule encoder_total)

text \<open>C37: every code point the encoder accepts is written in as many bytes as its first byte
announces, and the decoder recovers every code point below \<open>2 ^ 26\<close>, the whole of Unicode
included, from these bytes, whatever follows them.\<close>

theorem utf8_roundtrip:
  assumes "uv \<le> MAX_LEGAL_CP" "\<not> forbidden uv flags"
  shows "\<exists>s msgs. uvoffuni_to_utf8_flags_msgs uv flags = Inr (Some s, msgs)
    \<and> length s = OFFUNISKIP uv \<and> UTF8SKIP (hd s) = length s
    \<and> (unat uv < 2 ^ 26 \<longrightarrow> valid_utf8_to_uv long (s @ rest) = (uv, length s))"
  using assms encoder_total [of uv flags] valid_utf8_to_uv_char [of uv long rest]
  by (auto simp: too_large_def length_utf8_char UTF8SKIP_lead)

theorem utf8_roundtrip_witness:
  "\<exists>s msgs. uvoffuni_to_utf8_flags_msgs 0x1F600 UNICODE_DISALLOW_SURROGATE = Inr (Some s, msgs)
    \<and> length s = OFFUNISKIP 0x1F600 \<and> UTF8SKIP (hd s) = length s
    \<and> valid_utf8_to_uv (\<lambda>s. 0) (s @ [0xC3]) = (0x1F600, length s)"
  using utf8_roundtrip [of "0x1F600" UNICODE_DISALLOW_SURROGATE "\<lambda>s. 0" "[0xC3]"]
  by (simp add: MAX_LEGAL_CP_def forbidden_def has_flag_def UNICODE_DISALLOW_SURROGATE_def UNICODE_IS_SURROGATE_def
      UNICODE_DISALLOW_NONCHAR_def UNICODE_DISALLOW_SUPER_def UNICODE_DISALLOW_PERL_EXTENDED_def)

text \<open>C39: the length of a well-formed string is its number of characters, whether the characters
are counted one by one or the continuation bytes word by word, at every address, and no warning is
raised.\<close>

theorem utf8_length_counts: "utf8_length addr (utf8_string cps) = (length cps, False)"
  using utf8.utf8_length_ok [of addr cps] continuations_of_string [of cps] by simp

text \<open>C40: the conversions. Bytes are converted to the UTF-8 of their code points, into memory of the
exact size with its NUL. UTF-8 is converted to bytes, in the memory the caller chose, exactly when
no code point exceeds 255, and left as it was otherwise; so the second conversion undoes the first,
through each of its interfaces.\<close>

theorem bytes_utf8_roundtrip:
  "bytes_to_utf8 addr bs = (utf8_string (map ucast bs), Some (length (utf8_string (map ucast bs)) + 1))
    \<and> utf8_to_bytes_as result_as fresh addr' (utf8_string cps) = Some (downgraded result_as cps)
    \<and> bytes_from_utf8 fresh addr' True (fst (bytes_to_utf8 addr bs)) = Some (bs, False, Some (bs @ [0]))
    \<and> map_option fst (utf8_to_bytes fresh addr' (fst (bytes_to_utf8 addr bs))) = Some (Some bs)"
proof (intro conjI)
  show up: "bytes_to_utf8 addr bs = (utf8_string (map ucast bs), Some (length (utf8_string (map ucast bs)) + 1))"
    by (simp add: bytes_to_utf8_def bytes_to_utf8_ok)
  show "utf8_to_bytes_as result_as fresh addr' (utf8_string cps) = Some (downgraded result_as cps)" by (rule utf8_to_bytes_ok)
  have cps: "map ucast (map ucast bs :: u64 list) = bs" "\<not> (\<exists>u \<in> set (map ucast bs :: u64 list). 256 \<le> unat u)"
    using unsigned_less [where 'a = nat and 'b = 8] by (auto simp: comp_def ucast_ucast_u8 unat_ucast_u8 not_le)
  have ascii: "utf8_string (map ucast bs) = bs" if "\<forall>u \<in> set (map ucast bs :: u64 list). unat u < 128"
    using that string_of_ascii [of "map ucast bs"] cps(1) by simp
  show "bytes_from_utf8 fresh addr' True (fst (bytes_to_utf8 addr bs)) = Some (bs, False, Some (bs @ [0]))"
    using cps ascii by (simp add: up bytes_from_utf8_def utf8_to_bytes_ok downgraded_def Let_def)
  show "map_option fst (utf8_to_bytes fresh addr' (fst (bytes_to_utf8 addr bs))) = Some (Some bs)"
    using cps ascii by (simp add: up utf8_to_bytes_def utf8_to_bytes_ok downgraded_def Let_def)
qed

end
