(* ===== verification/Spec2Isabelle.thy ===== *)
theory Spec2Isabelle
  imports Invlist_Props Hv_Props Strtab_Props Time64_Props Sort_Props Utf8_Props
begin

text \<open>
  A verification development for parts of XPerl, a Perl 5 interpreter in C. It models six parts of
  the core whose behaviour is algorithmic and can be read from the source, on the default
  configuration: 64-bit, little-endian, ASCII, no threads, no debugging. Each part has a theory
  with its data and operations in the order of the source, theories with its invariants and
  lemmas, and one with its properties, \<open>C1\<close> to \<open>C40\<close>. \<open>Prelude\<close> holds the types of machine
  integers, errors as values, and the facts on words that several parts use.

  Conventions. A C structure is a record, a pointer into an array is an index, memory is a list
  whose length is its allocated size, a write is a list update. A word has the width of its C
  type, so arithmetic wraps. A call that may \<open>croak\<close> returns \<open>error + result\<close>; a loop whose end is
  a theorem and not evident from its code returns an option. Code outside the repository, such as
  the C library, and parts of the interpreter that only supply values are arguments.

  \<^bold>\<open>Inversion lists\<close> (\<open>regcomp_invlist.c\<close>, \<open>invlist_inline.h\<close>), which character classes are
  compiled to: sorted arrays of code points at which membership flips.
    \<^item> \<open>Invlist\<close>: the object with its allocation (\<open>sv_grow\<close> of \<open>sv.c\<close>), search and append.
      \<open>il_set\<close> is the set an object stands for, \<open>il_wf\<close> its invariant.
    \<^item> \<open>Invlist_Ops\<close>: union, intersection, inversion, clone, comparison. The two merges share the
      locale \<open>tie_safe\<close>, interpreted for each. \<open>Invlist_Edit\<close>: insertion of a range in place.
      \<open>Invlist_Iter\<close>: the iterator and the bitmap conversions; reading a bitmap keeps a bit number
      in an \<open>int\<close> (\<open>int_start\<close>), so C9 is for bitmaps of at most \<open>2 ^ 31\<close> bits.
    \<^item> \<open>Invlist_Props\<close>, C1-C9: each operation keeps \<open>il_wf\<close> and computes its function on sets.

  \<^bold>\<open>Hashes\<close> (\<open>hv.c\<close>, \<open>hv.h\<close>, \<open>inline.h\<close>): a dense vector of entries in insertion order; above a
  size an index of chains threaded through an array of cells of one to eight bytes.
    \<^item> \<open>Hv\<close>: lookup, store, fetch, delete, growth, promotion, compaction. \<open>Hv_Index\<close>: the packed
      cells (locale \<open>cells\<close>, interpreted for every width) and the chains. \<open>Hv_Wf\<close>: the invariant
      and \<open>hv_list\<close>, the live entries in order. \<open>Hv_Rebuild\<close>, \<open>Hv_Store\<close>: every operation keeps the
      invariant and acts on \<open>hv_list\<close> as on an association list.
    \<^item> \<open>Hv_Props\<close>, C10-C18: the locale \<open>map_store\<close> states the contract of a keyed store, and its
      interpretation gives the refinement of a finite map by every sequence of operations.

  \<^bold>\<open>Shared key table\<close> (\<open>hv.c\<close>): the open-addressed table \<open>PL_strtab\<close> of interned, counted keys that
  hashes and scalars point into. \<open>Strtab\<close> has the operations, \<open>Strtab_Wf\<close> the invariant (every key
  can be probed from its home, counters are exact, load at most a half), \<open>Strtab_Props\<close>, C19-C23,
  what sharing and unsharing promise.

  \<^bold>\<open>Calendar\<close> (\<open>time64.c\<close>, \<open>pp_sys.c\<close>): \<open>Time64\<close> has the conversions and the operators \<open>gmtime\<close>
  and \<open>localtime\<close>, \<open>Time64_Cal\<close> the proleptic Gregorian calendar as a reference, \<open>Time64_Props\<close>
  C24-C30. The code computes times in doubles; \<open>TIME_EXACT\<close> is the bound within which these
  are exact, and times are integers. The years of the safe-year mapping stay below 1.9 billion,
  where its 32-bit sums do not overflow. \<open>S_timegm64\<close> counts days in an \<open>int\<close>, which wraps
  (\<open>c_int\<close>); C25 and C26 are for times less than \<open>2 ^ 31\<close> days from 1970, and the only caller passes
  the safe years. The system's \<open>localtime\<close> and its range are parameters,
  with the shift by a zone offset as the hypothesis of C28.

  \<^bold>\<open>Sort\<close> (\<open>pp_sort.c\<close>): a merge sort that finds natural runs and merges them with a stack.
    \<^item> \<open>Sort\<close>: run detection, merge and main loop. \<open>Sort_Op\<close>: the comparisons and the operator.
      A merge stack of 60 levels, the size in the source, is enough for \<open>2 ^ 59\<close> elements.
    \<^item> \<open>Sort_Merge\<close>: the locale \<open>comparator\<close>, what a sort expects of its comparison.
      \<open>Sort_Runs\<close>, \<open>Sort_Main\<close>: the invariants of the two halves, for any comparison and for a
      comparator. \<open>Sort_Num\<close>, \<open>Sort_Text\<close>: the comparisons of the operator as comparators.
    \<^item> \<open>Sort_Props\<close>, C31-C36: it ends and permutes whatever the comparison, and is the stable sort by
      value (the signed view of the bits under \<open>use integer\<close>) or by code points. Overloading,
      conversions and the locale's order are fields of the record of the runtime.

  \<^bold>\<open>UTF-8\<close> (\<open>utf8.c\<close>, \<open>utf8.h\<close>, \<open>inline.h\<close>), which the string comparison of the sort uses.
    \<^item> \<open>Utf8\<close>: the encoder, the decoder of well-formed characters, the comparison with bytes.
      \<open>Utf8_Codec\<close>: characters as digits to base 64, their order and decoding.
    \<^item> \<open>Utf8_Bytes\<close>: the length of a string and the conversions between UTF-8 and bytes, a word at a
      time. \<open>Utf8_Words\<close>: what the word operations compute byte by byte. \<open>Utf8_Text\<close>: the locale
      \<open>characters\<close>, a string cut into characters, in which the scanning loops are proved, and its
      interpretation on encoded text.
    \<^item> \<open>Utf8_Props\<close>, C37-C40, and four places where the code departs from its documentation. The
      decoder of characters of more than five bytes is a parameter, so decoding is stated below
      \<open>2 ^ 26\<close>, which includes all of Unicode. The address of a string is a parameter that the
      word loops depend on; the results do not.

  \<^bold>\<open>Not modelled.\<close> The lexer and parser, op trees and the run loop, scalars with magic and
  reference counts, arrays, globs and pads, the regular-expression engine, locales, I/O and
  the allocator: these act on the interpreter's global state through stacks, callbacks and the
  operating system, and have no contract of their own short of the language. Of the modelled parts:
  tied and magic hashes, stashes, iteration and clearing of hashes; the call frames of a comparison
  sub and the sort of an array in place; printing of inversion lists; the decoder of untrusted UTF-8,
  UTF-16 and the case mappings, which rest on generated tables. Reference counts and failure of the
  allocator are not part of any model.
\<close>

end
